(* ===== verification/Kombiner_Base.thy ===== *)
theory Kombiner_Base
  imports Main "HOL-Library.Word" "HOL-Library.Multiset" "HOL-Library.Monad_Syntax"
begin

text \<open>
  The prelude of the development: the conventions for Go's effects and integers, and the
  generic facts on lists, multisets and strings that the component theories share.

  \<^item> A Go panic (an explicit \<open>panic\<close>, an index out of range, a nil dereference) is the value
    \<open>None\<close> of an \<open>option\<close> result, sequenced with the do-notation of \<open>Monad_Syntax\<close>.
  \<^item> An \<open>error\<close> return is a value: an \<open>option\<close> (\<open>nil\<close> is \<open>None\<close>) or the left side of a sum.
  \<^item> Go's \<open>int\<close> is 64 bits wide on the supported platforms. It is an \<open>int\<close> whose additions are
    followed by \<open>wrap64\<close>; \<open>uint\<close> is a \<open>64 word\<close>, and the conversion \<open>int(u)\<close> is \<open>sint u\<close>.
  \<^item> The decimal printing of \<open>fmt.Sprintf("%d", n)\<close> is \<open>itoa\<close>.
\<close>

named_theorems go_defs \<open>definitions of operations whose calls are unfolded in component proofs\<close>
named_theorems inv_intros \<open>preservation lemmas for the component invariants\<close>

type_synonym uint = "64 word"

text \<open>The outcome of a recursion that need not end, run with bounded fuel.\<close>

datatype 'a run = Done 'a | Panicked | OutOfFuel

section \<open>Go's 64-bit int\<close>

definition wrap64 :: "int \<Rightarrow> int" where
  "wrap64 x = (x + 2 ^ 63) mod 2 ^ 64 - 2 ^ 63"

abbreviation in_int64 :: "int \<Rightarrow> bool" where
  "in_int64 x \<equiv> - (2 ^ 63) \<le> x \<and> x < 2 ^ 63"

lemma wrap64_id [simp]: "- (2 ^ 63) \<le> x \<Longrightarrow> x < 2 ^ 63 \<Longrightarrow> wrap64 x = x"
  by (simp add: wrap64_def)

lemma wrap64_range: "in_int64 (wrap64 x)"
proof -
  have "0 \<le> (x + 2 ^ 63) mod 2 ^ 64" and "(x + 2 ^ 63) mod 2 ^ 64 < (2::int) ^ 64"
    by simp_all
  then show ?thesis by (simp add: wrap64_def)
qed

lemma sint_uint_small:
  fixes u :: uint
  assumes "uint u < 2 ^ 63"
  shows "sint u = uint u"
  unfolding sint_uint using assms
  by (subst signed_take_bit_int_eq_self) (auto intro: order_trans [OF _ uint_ge_0])

lemma uint_u64_bound: "uint (u :: uint) < 2 ^ 64"
  using uint_bounded [of u] by simp

section \<open>Decimal printing\<close>

definition digit_char :: "nat \<Rightarrow> char" where
  "digit_char d = char_of (48 + d)"

fun itoa :: "nat \<Rightarrow> string" where
  "itoa n = (if n < 10 then [digit_char n] else itoa (n div 10) @ [digit_char (n mod 10)])"

declare itoa.simps [simp del]

definition atoi :: "string \<Rightarrow> nat" where
  "atoi s = foldl (\<lambda>acc c. 10 * acc + (of_char c - 48)) 0 s"

lemma of_char_digit [simp]: "d < 10 \<Longrightarrow> of_char (digit_char d) - 48 = (d :: nat)"
  by (simp add: digit_char_def)

lemma atoi_snoc: "atoi (s @ [c]) = 10 * atoi s + (of_char c - 48)"
  by (simp add: atoi_def)

lemma atoi_itoa [simp]: "atoi (itoa n) = n"
proof (induction n rule: itoa.induct)
  case (1 n)
  show ?case
  proof (cases "n < 10")
    case True
    then show ?thesis by (subst itoa.simps) (simp add: atoi_def)
  next
    case False
    with "1.IH" show ?thesis by (subst itoa.simps) (simp add: atoi_snoc)
  qed
qed

lemma itoa_inj: "itoa m = itoa n \<Longrightarrow> m = n"
  by (metis atoi_itoa)

section \<open>Exchanging two elements of a list\<close>

definition list_swap :: "'a list \<Rightarrow> nat \<Rightarrow> nat \<Rightarrow> 'a list" where
  "list_swap xs i j = xs[i := xs ! j, j := xs ! i]"

lemma length_list_swap [simp]: "length (list_swap xs i j) = length xs"
  by (simp add: list_swap_def)

lemma mset_list_swap [simp]:
  "i < length xs \<Longrightarrow> j < length xs \<Longrightarrow> mset (list_swap xs i j) = mset xs"
  by (simp add: list_swap_def mset_swap)

lemma nth_list_swap [simp]:
  "i < length xs \<Longrightarrow> j < length xs \<Longrightarrow> k < length xs \<Longrightarrow>
   list_swap xs i j ! k = (if k = i then xs ! j else if k = j then xs ! i else xs ! k)"
  by (auto simp: list_swap_def nth_list_update)

section \<open>Lists and sums\<close>

lemma sum_list_update_nat:
  fixes xs :: "nat list"
  assumes "i < length xs"
  shows "sum_list (xs[i := v]) + xs ! i = sum_list xs + v"
  using assms
proof (induction xs arbitrary: i)
  case Nil
  then show ?case by simp
next
  case (Cons x xs)
  then show ?case by (cases i) auto
qed

lemma length_filter_all: "length (filter P xs) = length xs \<longleftrightarrow> (\<forall>x \<in> set xs. P x)"
proof (induction xs)
  case (Cons x xs)
  have "length (filter P xs) \<noteq> Suc (length xs)" using length_filter_le [of P xs] by linarith
  with Cons show ?case by simp
qed simp

lemma mset_last_butlast: "xs \<noteq> [] \<Longrightarrow> mset xs = add_mset (last xs) (mset (butlast xs))"
  by (metis add_mset_add_single append_butlast_last_id mset.simps(1) mset.simps(2) mset_append)

end
