(* ===== verification/Api_Types.thy ===== *)
theory Api_Types
  imports Kombiner_Base
begin

text \<open>
  The API types of the program: \<open>pkg/apis/kombiner/v1alpha1/types.go\<close> (placement requests) and
  \<open>pkg/apis/config/v1alpha1/types.go\<close> (the controller configuration). A struct is a record with
  the source's fields, embedding is record extension, and the string-valued enumerations stay
  strings, since any string can arrive through the API. Of \<open>metav1.ObjectMeta\<close> and
  \<open>metav1.OwnerReference\<close>, which belong to apimachinery, the fields the program reads or writes
  are kept. \<open>metav1.TypeMeta\<close> (kind and API version) is kept where code copies or leaves it, in the
  deep copies and in the arguments of the scheduler plugin; no code under \<open>src/\<close> reads it. A field
  whose name occurs in two structs carries a prefix in one of them.
\<close>

type_synonym TypeMeta = "string \<times> string"

section \<open>Time stamps\<close>

text \<open>
  \<open>time.Time\<close> counts seconds since the Unix epoch and nanoseconds within the second. Its
  chronological order is an instance of \<open>linorder\<close>.
\<close>

datatype Time = Time (unix_sec: int) (nsec: int)

instantiation Time :: linorder
begin

definition less_eq_Time :: "Time \<Rightarrow> Time \<Rightarrow> bool" where
  "less_eq_Time a b \<longleftrightarrow>
     unix_sec a < unix_sec b \<or> unix_sec a = unix_sec b \<and> nsec a \<le> nsec b"

definition less_Time :: "Time \<Rightarrow> Time \<Rightarrow> bool" where
  "less_Time a b \<longleftrightarrow>
     unix_sec a < unix_sec b \<or> unix_sec a = unix_sec b \<and> nsec a < nsec b"

instance
  by standard (auto simp: less_eq_Time_def less_Time_def Time.expand)

end

text \<open>\<open>Time.UnixNano\<close>: an \<open>int64\<close>, computed with wrap-around.\<close>

definition UnixNano :: "Time \<Rightarrow> int" where
  "UnixNano t = wrap64 (unix_sec t * 1000000000 + nsec t)"

text \<open>
  A time the type can hold and whose nanosecond count fits an \<open>int64\<close>: the years 1678 to 2262,
  the range for which the standard library documents \<open>UnixNano\<close>.
\<close>

definition nano_time :: "Time \<Rightarrow> bool" where
  "nano_time t \<longleftrightarrow> 0 \<le> nsec t \<and> nsec t < 1000000000 \<and>
     in_int64 (unix_sec t * 1000000000 + nsec t)"

lemma UnixNano_exact: "nano_time t \<Longrightarrow> UnixNano t = unix_sec t * 1000000000 + nsec t"
  by (simp add: UnixNano_def nano_time_def)

lemma UnixNano_mono:
  assumes "nano_time a" and "nano_time b"
  shows "UnixNano a \<le> UnixNano b \<longleftrightarrow> a \<le> b"
  using assms by (auto simp: UnixNano_exact less_eq_Time_def) (auto simp: nano_time_def)

section \<open>Placement requests\<close>

record OwnerReference =
  or_APIVersion :: string
  or_Kind :: string
  or_Name :: string
  or_UID :: string

record ObjectMeta =
  Name :: string
  Namespace :: string
  CreationTimestamp :: Time
  DeletionTimestamp :: "Time option"
  OwnerReferences :: "OwnerReference list"

type_synonym PlacementRequestPolicy = string
type_synonym PlacementRequestResult = string

definition PlacementRequestPolicyAllOrNothing :: PlacementRequestPolicy where
  "PlacementRequestPolicyAllOrNothing = ''AllOrNothing''"

definition PlacementRequestPolicyLenient :: PlacementRequestPolicy where
  "PlacementRequestPolicyLenient = ''Lenient''"

definition PlacementRequestResultUnknown :: PlacementRequestResult where
  "PlacementRequestResultUnknown = ''''"

definition PlacementRequestResultSuccess :: PlacementRequestResult where
  "PlacementRequestResultSuccess = ''Success''"

definition PlacementRequestResultPartialSuccess :: PlacementRequestResult where
  "PlacementRequestResultPartialSuccess = ''PartialSuccess''"

definition PlacementRequestResultFailure :: PlacementRequestResult where
  "PlacementRequestResultFailure = ''Failure''"

definition PlacementRequestResultRejected :: PlacementRequestResult where
  "PlacementRequestResultRejected = ''Rejected''"

lemmas result_defs =
  PlacementRequestResultUnknown_def PlacementRequestResultSuccess_def
  PlacementRequestResultPartialSuccess_def PlacementRequestResultFailure_def
  PlacementRequestResultRejected_def

lemmas policy_defs =
  PlacementRequestPolicyAllOrNothing_def PlacementRequestPolicyLenient_def

lemma results_distinct:
  "distinct [PlacementRequestResultUnknown, PlacementRequestResultSuccess,
     PlacementRequestResultPartialSuccess, PlacementRequestResultFailure,
     PlacementRequestResultRejected]"
  by (simp add: result_defs)

record Binding =
  PodName :: string
  PodUID :: string
  NodeName :: string

record PlacementRequestSpec =
  Policy :: PlacementRequestPolicy
  spec_Priority :: int
  SchedulerName :: string
  Bindings :: "Binding list"

record PlacementRequestBindingResult =
  br_Binding :: Binding
  br_Result :: PlacementRequestResult
  br_Reason :: string
  br_Message :: string

record PlacementRequestStatus =
  Result :: PlacementRequestResult
  Reason :: string
  Message :: string
  st_Bindings :: "PlacementRequestBindingResult list"

record PlacementRequest = ObjectMeta +
  Spec :: PlacementRequestSpec
  Status :: PlacementRequestStatus

section \<open>The controller configuration\<close>

type_synonym FairnessAlgorithm = string

definition RoundRobin :: FairnessAlgorithm where
  "RoundRobin = ''RoundRobin''"

definition Uniform :: FairnessAlgorithm where
  "Uniform = ''Uniform''"

record PluginSet =
  Enabled :: "string list"
  Disabled :: "string list"

record Plugins =
  plug_Validate :: PluginSet

record Queue =
  q_SchedulerName :: string
  Weight :: uint
  MaxSize :: uint
  q_Plugins :: Plugins

record Configuration =
  Queues :: "Queue list"
  cfg_FairnessAlgorithm :: FairnessAlgorithm
  cfg_Plugins :: Plugins

end
