(* ===== verification/Informer_Factory.thy ===== *)
theory Informer_Factory
  imports Api_Types
begin

text \<open>
  The shared informer factory (\<open>pkg/generated/informers/externalversions\<close>): the registry through
  which the controller obtains the one informer of placement requests, and that starts it.

  Each exported method locks \<open>f.lock\<close> for its whole body, so a method call is one atomic step and
  the interleavings of concurrent callers are sequences of calls (\<open>factory_step\<close>). An informer is
  an object of client-go with an identity: a handle into the list \<open>objects\<close> of those created, with
  what it was constructed from and its transform. \<open>go informer.Run(stopCh)\<close> adds a goroutine to
  \<open>goroutines\<close> and an entry to \<open>run_log\<close>, the calls of \<open>Run\<close> so far. A \<open>reflect.Type\<close> is the name
  of the type. Go iterates over a map in any order: \<open>Start\<close> takes the order as an argument and the
  theorems hold for each of them. The clientset, the list-option tweaks, the transforms and the
  informer constructor's result are type parameters.
\<close>

section \<open>State\<close>

type_synonym rtype = string
type_synonym handle = nat
type_synonym chan = nat

record ('c, 'o, 't) sharedInformerFactory =
  fc_client :: 'c
  fc_namespace :: string
  fc_tweakListOptions :: "('o \<Rightarrow> 'o) option"
  fc_defaultResync :: int
  fc_customResync :: "rtype \<rightharpoonup> int"
  fc_transform :: "'t option"
  fc_informers :: "rtype \<rightharpoonup> handle"
  fc_startedInformers :: "rtype \<Rightarrow> bool"
  fc_wg :: int
  fc_shuttingDown :: bool

record ('i, 't) informer_world =
  objects :: "('i \<times> 't option) list"
  goroutines :: "(handle \<times> chan) list"
  run_log :: "handle list"

type_synonym ('c, 'o, 't, 'i) factory_state =
  "('c, 'o, 't) sharedInformerFactory \<times> ('i, 't) informer_world"

section \<open>Options and constructors\<close>

type_synonym ('c, 'o, 't) SharedInformerOption =
  "('c, 'o, 't) sharedInformerFactory \<Rightarrow> ('c, 'o, 't) sharedInformerFactory"

text \<open>The configuration is a map; two of its objects may have one type, so its order matters.\<close>

definition WithCustomResyncConfig :: "(rtype \<times> int) list \<Rightarrow> ('c, 'o, 't) SharedInformerOption" where
  "WithCustomResyncConfig resyncConfig f =
     foldl (\<lambda>f (k, v). f\<lparr>fc_customResync := (fc_customResync f)(k \<mapsto> v)\<rparr>) f resyncConfig"

definition WithTweakListOptions :: "('o \<Rightarrow> 'o) option \<Rightarrow> ('c, 'o, 't) SharedInformerOption" where
  "WithTweakListOptions tweak f = f\<lparr>fc_tweakListOptions := tweak\<rparr>"

definition WithNamespace :: "string \<Rightarrow> ('c, 'o, 't) SharedInformerOption" where
  "WithNamespace ns f = f\<lparr>fc_namespace := ns\<rparr>"

definition WithTransform :: "'t option \<Rightarrow> ('c, 'o, 't) SharedInformerOption" where
  "WithTransform t f = f\<lparr>fc_transform := t\<rparr>"

definition NamespaceAll :: string where
  "NamespaceAll = ''''"

definition NewSharedInformerFactoryWithOptions ::
  "'c \<Rightarrow> int \<Rightarrow> ('c, 'o, 't) SharedInformerOption list \<Rightarrow> ('c, 'o, 't) sharedInformerFactory" where
  "NewSharedInformerFactoryWithOptions client defaultResync opts =
     foldl (\<lambda>factory opt. opt factory)
       \<lparr>fc_client = client, fc_namespace = NamespaceAll, fc_tweakListOptions = None,
        fc_defaultResync = defaultResync, fc_customResync = Map.empty, fc_transform = None,
        fc_informers = Map.empty, fc_startedInformers = (\<lambda>_. False), fc_wg = 0,
        fc_shuttingDown = False\<rparr> opts"

definition NewSharedInformerFactory :: "'c \<Rightarrow> int \<Rightarrow> ('c, 'o, 't) sharedInformerFactory" where
  "NewSharedInformerFactory client defaultResync =
     NewSharedInformerFactoryWithOptions client defaultResync []"

definition NewFilteredSharedInformerFactory ::
  "'c \<Rightarrow> int \<Rightarrow> string \<Rightarrow> ('o \<Rightarrow> 'o) option \<Rightarrow> ('c, 'o, 't) sharedInformerFactory" where
  "NewFilteredSharedInformerFactory client defaultResync ns tweak =
     NewSharedInformerFactoryWithOptions client defaultResync [WithNamespace ns, WithTweakListOptions tweak]"

section \<open>Methods\<close>

text \<open>\<open>newFunc(f.client, resyncPeriod)\<close> creates an object; \<open>SetTransform\<close> sets its transform.\<close>

definition new_informer :: "'i \<Rightarrow> 't option \<Rightarrow> ('i, 't) informer_world \<Rightarrow> handle \<times> ('i, 't) informer_world" where
  "new_informer i tr w = (length (objects w), w\<lparr>objects := objects w @ [(i, tr)]\<rparr>)"

definition InformerFor ::
  "rtype \<Rightarrow> ('c \<Rightarrow> int \<Rightarrow> 'i) \<Rightarrow> ('c, 'o, 't, 'i) factory_state \<Rightarrow>
   handle \<times> ('c, 'o, 't, 'i) factory_state" where
  "InformerFor informerType newFunc s =
     (let (f, w) = s in
      case fc_informers f informerType of
        Some informer \<Rightarrow> (informer, s)
      | None \<Rightarrow>
         let resyncPeriod = (case fc_customResync f informerType of None \<Rightarrow> fc_defaultResync f | Some r \<Rightarrow> r);
             (informer, w') = new_informer (newFunc (fc_client f) resyncPeriod) (fc_transform f) w
         in (informer, (f\<lparr>fc_informers := (fc_informers f)(informerType \<mapsto> informer)\<rparr>, w')))"

text \<open>The body of the loop of \<open>Start\<close>, for one key of the map, and the loop.\<close>

definition start_one :: "chan \<Rightarrow> rtype \<Rightarrow> ('c, 'o, 't, 'i) factory_state \<Rightarrow> ('c, 'o, 't, 'i) factory_state" where
  "start_one stopCh t s =
     (let (f, w) = s in
      case fc_informers f t of
        None \<Rightarrow> s
      | Some informer \<Rightarrow>
          if \<not> fc_startedInformers f t
          then (f\<lparr>fc_wg := fc_wg f + 1, fc_startedInformers := (fc_startedInformers f)(t := True)\<rparr>,
                w\<lparr>goroutines := (informer, stopCh) # goroutines w, run_log := informer # run_log w\<rparr>)
          else s)"

definition Start :: "chan \<Rightarrow> rtype list \<Rightarrow> ('c, 'o, 't, 'i) factory_state \<Rightarrow> ('c, 'o, 't, 'i) factory_state" where
  "Start stopCh order s = (if fc_shuttingDown (fst s) then s else fold (start_one stopCh) order s)"

text \<open>
  \<open>Shutdown\<close> sets the flag and then waits; it returns only in a state where \<open>f.wg.Wait()\<close> does,
  that is, where the counter is zero.
\<close>

definition Shutdown :: "('c, 'o, 't, 'i) factory_state \<Rightarrow> ('c, 'o, 't, 'i) factory_state" where
  "Shutdown s = ((fst s)\<lparr>fc_shuttingDown := True\<rparr>, snd s)"

definition wait_returns :: "('c, 'o, 't, 'i) factory_state \<Rightarrow> bool" where
  "wait_returns s \<longleftrightarrow> fc_wg (fst s) = 0"

text \<open>
  \<open>WaitForCacheSync\<close> asks the started informers only; \<open>synced h\<close> is the result of
  \<open>cache.WaitForCacheSync(stopCh, informer.HasSynced)\<close> for the informer \<open>h\<close>.
\<close>

definition WaitForCacheSync :: "(handle \<Rightarrow> bool) \<Rightarrow> ('c, 'o, 't, 'i) factory_state \<Rightarrow> (rtype \<rightharpoonup> bool)" where
  "WaitForCacheSync synced s =
     (\<lambda>t. case fc_informers (fst s) t of
            None \<Rightarrow> None
          | Some informer \<Rightarrow> if fc_startedInformers (fst s) t then Some (synced informer) else None)"

text \<open>A goroutine ends: \<open>informer.Run\<close> returns and the deferred \<open>f.wg.Done()\<close> runs.\<close>

definition run_returns :: "nat \<Rightarrow> ('c, 'o, 't, 'i) factory_state \<Rightarrow> ('c, 'o, 't, 'i) factory_state" where
  "run_returns k s =
     ((fst s)\<lparr>fc_wg := fc_wg (fst s) - 1\<rparr>,
      (snd s)\<lparr>goroutines := take k (goroutines (snd s)) @ drop (Suc k) (goroutines (snd s))\<rparr>)"

text \<open>The order in which a loop over a map visits its keys.\<close>

definition map_order :: "('k \<rightharpoonup> 'v) \<Rightarrow> 'k list \<Rightarrow> bool" where
  "map_order m order \<longleftrightarrow> distinct order \<and> set order = dom m"

inductive factory_step ::
  "('c, 'o, 't, 'i) factory_state \<Rightarrow> ('c, 'o, 't, 'i) factory_state \<Rightarrow> bool" where
  call_InformerFor: "factory_step s (snd (InformerFor t newFunc s))"
| call_Start: "map_order (fc_informers (fst s)) order \<Longrightarrow> factory_step s (Start stopCh order s)"
| call_Shutdown: "factory_step s (Shutdown s)"
| goroutine_ends: "k < length (goroutines (snd s)) \<Longrightarrow> factory_step s (run_returns k s)"

inductive_simps factory_step_iff: "factory_step s s'"

inductive factory_reach ::
  "('c, 'o, 't, 'i) factory_state \<Rightarrow> ('c, 'o, 't, 'i) factory_state \<Rightarrow> bool" where
  here: "factory_reach s s"
| there: "factory_reach s s1 \<Longrightarrow> factory_step s1 s2 \<Longrightarrow> factory_reach s s2"

section \<open>The invariant\<close>

text \<open>
  Handles are valid and belong to one type each; the informers that were run are the started ones,
  each run once; the wait group counts the goroutines.
\<close>

definition factory_inv :: "('c, 'o, 't, 'i) factory_state \<Rightarrow> bool" where
  "factory_inv s \<longleftrightarrow> (case s of (f, w) \<Rightarrow>
     (\<forall>t h. fc_informers f t = Some h \<longrightarrow> h < length (objects w)) \<and>
     inj_on (fc_informers f) (dom (fc_informers f)) \<and>
     (\<forall>t. fc_startedInformers f t \<longrightarrow> t \<in> dom (fc_informers f)) \<and>
     distinct (run_log w) \<and>
     (\<forall>h. h \<in> set (run_log w) \<longleftrightarrow> (\<exists>t. fc_informers f t = Some h \<and> fc_startedInformers f t)) \<and>
     (\<forall>g \<in> set (goroutines w). fst g \<in> set (run_log w)) \<and>
     fc_wg f = int (length (goroutines w)))"

lemma factory_invI:
  assumes "\<And>t h. fc_informers f t = Some h \<Longrightarrow> h < length (objects w)"
    and "inj_on (fc_informers f) (dom (fc_informers f))"
    and "\<And>t. fc_startedInformers f t \<Longrightarrow> t \<in> dom (fc_informers f)"
    and "distinct (run_log w)"
    and "\<And>h. h \<in> set (run_log w) \<longleftrightarrow> (\<exists>t. fc_informers f t = Some h \<and> fc_startedInformers f t)"
    and "\<And>g. g \<in> set (goroutines w) \<Longrightarrow> fst g \<in> set (run_log w)"
    and "fc_wg f = int (length (goroutines w))"
  shows "factory_inv (f, w)"
  using assms by (simp add: factory_inv_def)

lemma factory_invD:
  assumes "factory_inv (f, w)"
  shows "\<And>t h. fc_informers f t = Some h \<Longrightarrow> h < length (objects w)"
    and "\<And>t u h. fc_informers f t = Some h \<Longrightarrow> fc_informers f u = Some h \<Longrightarrow> t = u"
    and "inj_on (fc_informers f) (dom (fc_informers f))"
    and "\<And>t. fc_startedInformers f t \<Longrightarrow> t \<in> dom (fc_informers f)"
    and "distinct (run_log w)"
    and "\<And>h. h \<in> set (run_log w) \<longleftrightarrow> (\<exists>t. fc_informers f t = Some h \<and> fc_startedInformers f t)"
    and "\<And>g. g \<in> set (goroutines w) \<Longrightarrow> fst g \<in> set (run_log w)"
    and "fc_wg f = int (length (goroutines w))"
  using assms by (auto simp: factory_inv_def inj_on_def dom_def)

lemma inv_InformerFor [inv_intros]:
  assumes "factory_inv s"
  shows "factory_inv (snd (InformerFor t newFunc s))"
proof (cases s)
  case (Pair f w)
  note I = factory_invD [OF assms [unfolded Pair]]
  show ?thesis
  proof (cases "fc_informers f t")
    case None
    have new: "fc_informers f u \<noteq> Some (length (objects w))" for u using I(1) by fastforce
    have notstarted: "\<not> fc_startedInformers f t" using I(4) [of t] None by auto
    have "inj_on ((fc_informers f)(t \<mapsto> length (objects w))) (insert t (dom (fc_informers f)))"
      using I(2) new by (auto simp: inj_on_def dom_def)
    then have "factory_inv (f\<lparr>fc_informers := (fc_informers f)(t \<mapsto> length (objects w))\<rparr>,
        w\<lparr>objects := objects w @ [x]\<rparr>)" for x
      using I(1,4-8) notstarted None
      by (intro factory_invI) (auto simp: less_SucI split: if_splits, metis notstarted)
    then show ?thesis using None by (simp add: InformerFor_def new_informer_def Pair Let_def)
  qed (use assms Pair in \<open>simp add: InformerFor_def\<close>)
qed

lemma inv_start_one:
  assumes "factory_inv s"
  shows "factory_inv (start_one stopCh t s)"
proof (cases s)
  case (Pair f w)
  note I = factory_invD [OF assms [unfolded Pair]]
  show ?thesis
  proof (cases "\<exists>h. fc_informers f t = Some h \<and> \<not> fc_startedInformers f t")
    case True
    then obtain h where h: "fc_informers f t = Some h" and ns: "\<not> fc_startedInformers f t" by blast
    have "h \<notin> set (run_log w)" using I(2) [OF h] I(6) ns by auto
    then have "factory_inv (f\<lparr>fc_wg := fc_wg f + 1, fc_startedInformers := (fc_startedInformers f)(t := True)\<rparr>,
        w\<lparr>goroutines := (h, stopCh) # goroutines w, run_log := h # run_log w\<rparr>)"
      using I(1,3,4,5,7,8) I(6) h by (intro factory_invI) (auto split: if_splits, metis ns)
    then show ?thesis using h ns by (simp add: start_one_def Pair)
  qed (use assms Pair in \<open>auto simp: start_one_def split: option.splits\<close>)
qed

lemma inv_fold_start_one: "factory_inv s \<Longrightarrow> factory_inv (fold (start_one stopCh) order s)"
  by (induction order arbitrary: s) (simp_all add: inv_start_one)

lemma inv_Start [inv_intros]: "factory_inv s \<Longrightarrow> factory_inv (Start stopCh order s)"
  by (simp add: Start_def inv_fold_start_one)

lemma inv_Shutdown [inv_intros]: "factory_inv s \<Longrightarrow> factory_inv (Shutdown s)"
  by (cases s) (auto simp: Shutdown_def factory_inv_def)

lemma inv_run_returns [inv_intros]:
  assumes "factory_inv s" and "k < length (goroutines (snd s))"
  shows "factory_inv (run_returns k s)"
proof (cases s)
  case (Pair f w)
  note I = factory_invD [OF assms(1) [unfolded Pair]]
  have "set (take k (goroutines w) @ drop (Suc k) (goroutines w)) \<subseteq> set (goroutines w)"
    by (auto dest: in_set_takeD in_set_dropD)
  then have "factory_inv (f\<lparr>fc_wg := fc_wg f - 1\<rparr>,
      w\<lparr>goroutines := take k (goroutines w) @ drop (Suc k) (goroutines w)\<rparr>)"
    using I(1,3-8) assms(2) Pair by (intro factory_invI) (auto simp del: I(6))
  then show ?thesis by (simp add: run_returns_def Pair)
qed

lemma inv_step: "factory_step s s' \<Longrightarrow> factory_inv s \<Longrightarrow> factory_inv s'"
  by (induction rule: factory_step.induct) (simp_all add: inv_intros)

lemma inv_reach: "factory_reach s s' \<Longrightarrow> factory_inv s \<Longrightarrow> factory_inv s'"
  by (induction rule: factory_reach.induct) (simp_all add: inv_step)

section \<open>Construction\<close>

text \<open>The options the package offers.\<close>

inductive factory_option :: "('c, 'o, 't) SharedInformerOption \<Rightarrow> bool" where
  "factory_option (WithCustomResyncConfig resyncConfig)"
| "factory_option (WithTweakListOptions tweak)"
| "factory_option (WithNamespace ns)"
| "factory_option (WithTransform t)"

definition empty_world :: "('i, 't) informer_world" where
  "empty_world = \<lparr>objects = [], goroutines = [], run_log = []\<rparr>"

definition untouched :: "('c, 'o, 't) sharedInformerFactory \<Rightarrow> bool" where
  "untouched f \<longleftrightarrow> fc_informers f = Map.empty \<and> fc_startedInformers f = (\<lambda>_. False) \<and> fc_wg f = 0 \<and>
     \<not> fc_shuttingDown f"

lemma untouched_customResync:
  "untouched f \<Longrightarrow>
   untouched (foldl (\<lambda>f (k, v). f\<lparr>fc_customResync := (fc_customResync f)(k \<mapsto> v)\<rparr>) f cfg)"
proof (induction cfg arbitrary: f)
  case (Cons kv cfg)
  have "untouched (f\<lparr>fc_customResync := (fc_customResync f)(fst kv \<mapsto> snd kv)\<rparr>)"
    using Cons.prems by (simp add: untouched_def)
  from Cons.IH [OF this] show ?case unfolding foldl_Cons case_prod_beta .
qed simp

lemma untouched_option: "factory_option opt \<Longrightarrow> untouched f \<Longrightarrow> untouched (opt f)"
proof (induction rule: factory_option.induct)
  case (1 resyncConfig)
  then show ?case unfolding WithCustomResyncConfig_def by (rule untouched_customResync)
qed (simp_all add: WithTweakListOptions_def WithNamespace_def WithTransform_def untouched_def)

lemma untouched_options:
  "\<forall>opt\<in>set opts. factory_option opt \<Longrightarrow> untouched f \<Longrightarrow> untouched (foldl (\<lambda>f opt. opt f) f opts)"
  by (induction opts arbitrary: f) (simp_all add: untouched_option)

lemma inv_new:
  assumes "\<forall>opt\<in>set opts. factory_option opt"
  shows "factory_inv (NewSharedInformerFactoryWithOptions client resync opts, empty_world)"
proof -
  have "untouched (NewSharedInformerFactoryWithOptions client resync opts)"
    unfolding NewSharedInformerFactoryWithOptions_def
    by (rule untouched_options [OF assms]) (simp add: untouched_def)
  then show ?thesis by (simp add: factory_inv_def untouched_def empty_world_def)
qed

lemmas inv_reachable = inv_reach [OF _ inv_new]

section \<open>Starting\<close>

lemma start_one_frame:
  "fc_informers (fst (start_one c t s)) = fc_informers (fst s)"
  "fc_shuttingDown (fst (start_one c t s)) = fc_shuttingDown (fst s)"
  "fc_startedInformers (fst s) u \<Longrightarrow> fc_startedInformers (fst (start_one c t s)) u"
  "fc_informers (fst s) t = Some h \<Longrightarrow> fc_startedInformers (fst (start_one c t s)) t"
  by (auto simp: start_one_def split: prod.splits option.splits)

lemma fold_start_frame:
  "fc_informers (fst (fold (start_one c) order s)) = fc_informers (fst s)"
  "fc_shuttingDown (fst (fold (start_one c) order s)) = fc_shuttingDown (fst s)"
  "fc_startedInformers (fst s) u \<Longrightarrow> fc_startedInformers (fst (fold (start_one c) order s)) u"
  by (induction order arbitrary: s) (simp_all add: start_one_frame)

lemma fold_start_all:
  "t \<in> set order \<Longrightarrow> fc_informers (fst s) t = Some h \<Longrightarrow>
   fc_startedInformers (fst (fold (start_one c) order s)) t"
proof (induction order arbitrary: s)
  case (Cons u order)
  then show ?case
  proof (cases "t = u")
    case True
    then show ?thesis using Cons.prems(2) by (simp add: start_one_frame fold_start_frame)
  next
    case False
    then show ?thesis using Cons.prems Cons.IH [of "start_one c u s"] by (simp add: start_one_frame)
  qed
qed simp

lemma start_one_noop: "fc_startedInformers (fst s) t \<Longrightarrow> start_one c t s = s"
  by (auto simp: start_one_def split: prod.splits option.splits)

lemma fold_start_noop:
  "\<forall>t\<in>set order. fc_startedInformers (fst s) t \<Longrightarrow> fold (start_one c) order s = s"
  by (induction order) (simp_all add: start_one_noop)

lemma shutdown_step:
  assumes "factory_step s s'" and "fc_shuttingDown (fst s)"
  shows "fc_shuttingDown (fst s') \<and> run_log (snd s') = run_log (snd s)"
  using assms
  by (induction rule: factory_step.induct)
    (auto simp: InformerFor_def new_informer_def Start_def Shutdown_def run_returns_def Let_def
      split: prod.splits option.splits)

lemma shutdown_reach:
  assumes "factory_reach s s'" and "fc_shuttingDown (fst s)"
  shows "fc_shuttingDown (fst s') \<and> run_log (snd s') = run_log (snd s)"
  using assms by (induction rule: factory_reach.induct) (auto dest: shutdown_step)

section \<open>The interface the typed informers rely on\<close>

text \<open>
  \<open>internalinterfaces.SharedInformerFactory\<close>: asking for a type registers its informer, a registered
  informer is what every later request for the type returns, and nothing is ever replaced.
\<close>

locale informer_provider =
  fixes informer_for :: "rtype \<Rightarrow> ('c \<Rightarrow> int \<Rightarrow> 'i) \<Rightarrow> 's \<Rightarrow> handle \<times> 's"
    and registered :: "'s \<Rightarrow> rtype \<rightharpoonup> handle"
  assumes registers: "informer_for t nf s = (h, s') \<Longrightarrow> registered s' t = Some h"
    and returns_registered: "registered s t = Some h \<Longrightarrow> informer_for t nf s = (h, s)"
    and keeps: "informer_for t nf s = (h, s') \<Longrightarrow> registered s u = Some g \<Longrightarrow> registered s' u = Some g"
begin

lemma shared:
  assumes "informer_for t nf s = (h, s1)" and "registered s2 t = registered s1 t"
  shows "informer_for t nf' s2 = (h, s2)"
  using returns_registered [of s2 t h nf'] registers [OF assms(1)] assms(2) by simp

lemma shared_after_other:
  assumes "informer_for t nf s = (h, s1)" and "informer_for u nf2 s1 = (g, s2)"
  shows "informer_for t nf' s2 = (h, s2)"
  using keeps [OF assms(2) registers [OF assms(1)]] by (rule returns_registered)

end

interpretation factory: informer_provider InformerFor "\<lambda>s. fc_informers (fst s)"
  by unfold_locales
    (auto simp: InformerFor_def new_informer_def Let_def split: prod.splits option.splits if_splits)

text \<open>What is registered stays registered under every step.\<close>

lemma step_keeps_registered:
  assumes "factory_step s s'" and "fc_informers (fst s) t = Some h"
  shows "fc_informers (fst s') t = Some h"
  using assms
proof (induction rule: factory_step.induct)
  case (call_InformerFor s u newFunc)
  obtain g s2 where "InformerFor u newFunc s = (g, s2)" by (rule prod.exhaust)
  then show ?case using factory.keeps [of u newFunc s g s2 t h] call_InformerFor by simp
qed (auto simp: Start_def fold_start_frame Shutdown_def run_returns_def)

lemma reach_keeps_registered:
  "factory_reach s s' \<Longrightarrow> fc_informers (fst s) t = Some h \<Longrightarrow> fc_informers (fst s') t = Some h"
  by (induction rule: factory_reach.induct) (auto dest: step_keeps_registered)

section \<open>Properties\<close>

text \<open>
  C27: whatever calls are made on a factory, in whatever interleaving, and however often \<open>Start\<close> is
  called: no informer is run twice, only registered informers are run, and the wait group counts the
  running goroutines, so the wait of \<open>Shutdown\<close> ends exactly when all of them have returned. Once
  \<open>Shutdown\<close> has been called no further informer is ever run.
\<close>

theorem factory_runs_once:
  assumes "\<forall>opt\<in>set opts. factory_option opt"
    and "factory_reach (NewSharedInformerFactoryWithOptions client resync opts, empty_world) s"
  shows "distinct (run_log (snd s)) \<and>
    (\<forall>h\<in>set (run_log (snd s)). \<exists>t. fc_informers (fst s) t = Some h \<and> fc_startedInformers (fst s) t) \<and>
    (wait_returns s \<longleftrightarrow> goroutines (snd s) = []) \<and>
    (fc_shuttingDown (fst s) \<longrightarrow> (\<forall>s'. factory_reach s s' \<longrightarrow> run_log (snd s') = run_log (snd s)))"
proof -
  have "factory_inv s" by (rule inv_reachable [OF assms(2,1)])
  then have "distinct (run_log (snd s))" and
    "\<forall>h\<in>set (run_log (snd s)). \<exists>t. fc_informers (fst s) t = Some h \<and> fc_startedInformers (fst s) t" and
    "wait_returns s \<longleftrightarrow> goroutines (snd s) = []"
    by (auto simp: factory_inv_def wait_returns_def split: prod.splits)
  then show ?thesis using shutdown_reach by blast
qed

definition sample_factory :: "(unit, string, unit) sharedInformerFactory" where
  "sample_factory = NewSharedInformerFactoryWithOptions () 30
     [WithCustomResyncConfig [(''PlacementRequest'', 5)], WithNamespace ''prod'']"

definition sample_state :: "(unit, string, unit, int) factory_state" where
  "sample_state = Start 0 [''PlacementRequest'']
     (snd (InformerFor ''PlacementRequest'' (\<lambda>c r. r) (sample_factory, empty_world)))"

lemma sample_options: "\<forall>opt\<in>set [WithCustomResyncConfig cfg, WithNamespace ns]. factory_option opt"
  by (simp add: factory_option.intros)

lemma sample_informers: "fc_informers sample_factory = Map.empty" "\<not> fc_shuttingDown sample_factory"
    "fc_startedInformers sample_factory = (\<lambda>_. False)"
  by (simp_all add: sample_factory_def NewSharedInformerFactoryWithOptions_def WithNamespace_def
      WithCustomResyncConfig_def)

lemma sample_reach: "factory_reach (sample_factory, empty_world) sample_state"
proof -
  let ?s = "snd (InformerFor ''PlacementRequest'' (\<lambda>c r. r) (sample_factory, empty_world))"
  have "factory_reach (sample_factory, empty_world) ?s"
    by (rule factory_reach.there [OF factory_reach.here factory_step.call_InformerFor])
  moreover have "map_order (fc_informers (fst ?s)) [''PlacementRequest'']"
    by (simp add: map_order_def InformerFor_def new_informer_def sample_informers Let_def)
  ultimately show ?thesis unfolding sample_state_def
    by (blast intro: factory_reach.there factory_step.call_Start)
qed

theorem factory_runs_once_witness:
  "run_log (snd sample_state) = [0] \<and> distinct (run_log (snd sample_state)) \<and>
   (wait_returns sample_state \<longleftrightarrow> goroutines (snd sample_state) = [])"
  using factory_runs_once [OF sample_options sample_reach [unfolded sample_factory_def]]
  by (simp add: sample_state_def Start_def start_one_def InformerFor_def new_informer_def sample_informers
      empty_world_def Let_def)

text \<open>
  C28: \<open>Start\<close> on a factory that is not shutting down runs every registered informer, in whatever
  order the map is visited: afterwards each registered informer has been run, a second \<open>Start\<close> does
  nothing, and \<open>WaitForCacheSync\<close> asks for exactly the registered types.
\<close>

theorem Start_runs_all:
  assumes "\<forall>opt\<in>set opts. factory_option opt"
    and "factory_reach (NewSharedInformerFactoryWithOptions client resync opts, empty_world) s"
    and "\<not> fc_shuttingDown (fst s)" and "map_order (fc_informers (fst s)) order"
  shows "(\<forall>t h. fc_informers (fst s) t = Some h \<longrightarrow> h \<in> set (run_log (snd (Start stopCh order s)))) \<and>
    (\<forall>order' ch. map_order (fc_informers (fst s)) order' \<longrightarrow>
       Start ch order' (Start stopCh order s) = Start stopCh order s) \<and>
    dom (WaitForCacheSync synced (Start stopCh order s)) = dom (fc_informers (fst s))"
proof -
  let ?s = "Start stopCh order s"
  have S: "?s = fold (start_one stopCh) order s" using assms(3) by (simp add: Start_def)
  have inv: "factory_inv ?s" by (rule inv_Start [OF inv_reachable [OF assms(2,1)]])
  have reg: "fc_informers (fst ?s) = fc_informers (fst s)" by (simp add: S fold_start_frame)
  have started: "fc_startedInformers (fst ?s) t" if "fc_informers (fst s) t = Some h" for t h
    using fold_start_all [of t order s h stopCh] that assms(4) by (auto simp: S map_order_def)
  have "h \<in> set (run_log (snd ?s))" if "fc_informers (fst s) t = Some h" for t h
    using factory_invD(6) [of "fst ?s" "snd ?s" h] inv started [OF that] that reg by auto
  moreover have "Start ch order' ?s = ?s" if "map_order (fc_informers (fst s)) order'" for order' ch
  proof -
    have "\<forall>t\<in>set order'. fc_startedInformers (fst ?s) t" using that started by (auto simp: map_order_def)
    then show ?thesis using fold_start_noop [of order' ?s ch] unfolding Start_def [of ch] by simp
  qed
  moreover have "dom (WaitForCacheSync synced ?s) = dom (fc_informers (fst s))"
    using started reg by (auto simp: WaitForCacheSync_def dom_def split: option.splits if_splits)
  ultimately show ?thesis by blast
qed

theorem Start_runs_all_witness:
  "0 \<in> set (run_log (snd (Start 0 [''PlacementRequest'']
     (snd (InformerFor ''PlacementRequest'' (\<lambda>c r. r) (sample_factory, empty_world :: (int, unit) informer_world))))))"
proof -
  let ?s = "snd (InformerFor ''PlacementRequest'' (\<lambda>c r. r)
    (sample_factory, empty_world :: (int, unit) informer_world))"
  have r: "factory_reach (sample_factory, empty_world) ?s"
    by (rule factory_reach.there [OF factory_reach.here factory_step.call_InformerFor])
  have i: "fc_informers (fst ?s) = [''PlacementRequest'' \<mapsto> 0]" "\<not> fc_shuttingDown (fst ?s)"
    by (simp_all add: InformerFor_def new_informer_def sample_informers empty_world_def Let_def)
  have "map_order (fc_informers (fst ?s)) [''PlacementRequest'']" by (simp add: map_order_def i)
  from Start_runs_all [OF sample_options r [unfolded sample_factory_def] i(2) [unfolded sample_factory_def]
      this [unfolded sample_factory_def], of 0]
  have "\<forall>t h. fc_informers (fst ?s) t = Some h \<longrightarrow> h \<in> set (run_log (snd (Start 0 [''PlacementRequest''] ?s)))"
    unfolding sample_factory_def by blast
  then show ?thesis by (simp add: i)
qed

end
