(* ===== verification/Request_Informer.thy ===== *)
theory Request_Informer
  imports Informer_Factory
begin

text \<open>
  The typed access to the informer of placement requests, generated next to the factory: the group
  and version wrappers (\<open>kombiner/interface.go\<close>, \<open>kombiner/v1alpha1/interface.go\<close>), the informer
  itself (\<open>kombiner/v1alpha1/placementrequest.go\<close>), its lister, and the access by resource
  (\<open>generic.go\<close>).

  \<open>cache.NewSharedIndexInformer\<close> belongs to client-go; the informer it returns is represented by the
  arguments it is built from. The list and watch closures are functions of the captured variables to
  the call they make on the clientset.
\<close>

section \<open>The informer\<close>

datatype ctx = Background | Ctx nat

datatype ('c, 'o) api_call = ListCall 'c string ctx 'o | WatchCall 'c string ctx 'o

text \<open>The variables the four closures of the \<open>ListWatch\<close> capture.\<close>

record ('c, 'o) ListWatch =
  lw_client :: 'c
  lw_namespace :: string
  lw_tweak :: "('o \<Rightarrow> 'o) option"

definition tweaked :: "('o \<Rightarrow> 'o) option \<Rightarrow> 'o \<Rightarrow> 'o" where
  "tweaked tweakListOptions options =
     (case tweakListOptions of None \<Rightarrow> options | Some f \<Rightarrow> f options)"

definition ListFunc :: "('c, 'o) ListWatch \<Rightarrow> 'o \<Rightarrow> ('c, 'o) api_call" where
  "ListFunc lw options =
     ListCall (lw_client lw) (lw_namespace lw) Background (tweaked (lw_tweak lw) options)"

definition WatchFunc :: "('c, 'o) ListWatch \<Rightarrow> 'o \<Rightarrow> ('c, 'o) api_call" where
  "WatchFunc lw options =
     WatchCall (lw_client lw) (lw_namespace lw) Background (tweaked (lw_tweak lw) options)"

definition ListWithContextFunc :: "('c, 'o) ListWatch \<Rightarrow> ctx \<Rightarrow> 'o \<Rightarrow> ('c, 'o) api_call" where
  "ListWithContextFunc lw cx options =
     ListCall (lw_client lw) (lw_namespace lw) cx (tweaked (lw_tweak lw) options)"

definition WatchFuncWithContext :: "('c, 'o) ListWatch \<Rightarrow> ctx \<Rightarrow> 'o \<Rightarrow> ('c, 'o) api_call" where
  "WatchFuncWithContext lw cx options =
     WatchCall (lw_client lw) (lw_namespace lw) cx (tweaked (lw_tweak lw) options)"

record ('c, 'o) shared_index_informer =
  sii_listWatch :: "('c, 'o) ListWatch"
  sii_objectType :: rtype
  sii_resync :: int
  sii_indexers :: "string list"

definition request_type :: rtype where
  "request_type = ''*v1alpha1.PlacementRequest''"

definition NewFilteredPlacementRequestInformer ::
  "'c \<Rightarrow> string \<Rightarrow> int \<Rightarrow> string list \<Rightarrow> ('o \<Rightarrow> 'o) option \<Rightarrow> ('c, 'o) shared_index_informer" where
  "NewFilteredPlacementRequestInformer client ns resyncPeriod indexers tweak =
     \<lparr>sii_listWatch = \<lparr>lw_client = client, lw_namespace = ns, lw_tweak = tweak\<rparr>,
      sii_objectType = request_type, sii_resync = resyncPeriod, sii_indexers = indexers\<rparr>"

definition NewPlacementRequestInformer ::
  "'c \<Rightarrow> string \<Rightarrow> int \<Rightarrow> string list \<Rightarrow> ('c, 'o) shared_index_informer" where
  "NewPlacementRequestInformer client ns resyncPeriod indexers =
     NewFilteredPlacementRequestInformer client ns resyncPeriod indexers None"

section \<open>The accessors\<close>

text \<open>
  \<open>group\<close>, \<open>version\<close> and \<open>placementRequestInformer\<close> hold the factory, which is the state here, a
  namespace and a tweak.
\<close>

record 'o group =
  gr_namespace :: string
  gr_tweak :: "('o \<Rightarrow> 'o) option"

record 'o version =
  ve_namespace :: string
  ve_tweak :: "('o \<Rightarrow> 'o) option"

record 'o placementRequestInformer =
  pi_namespace :: string
  pi_tweak :: "('o \<Rightarrow> 'o) option"

type_synonym ('c, 'o, 't) request_factory =
  "('c, 'o, 't, ('c, 'o) shared_index_informer) factory_state"

definition NewGroup :: "string \<Rightarrow> ('o \<Rightarrow> 'o) option \<Rightarrow> 'o group" where
  "NewGroup ns tweak = \<lparr>gr_namespace = ns, gr_tweak = tweak\<rparr>"

definition Kombiner :: "('c, 'o, 't) request_factory \<Rightarrow> 'o group" where
  "Kombiner s = NewGroup (fc_namespace (fst s)) (fc_tweakListOptions (fst s))"

definition NewVersion :: "string \<Rightarrow> ('o \<Rightarrow> 'o) option \<Rightarrow> 'o version" where
  "NewVersion ns tweak = \<lparr>ve_namespace = ns, ve_tweak = tweak\<rparr>"

definition V1alpha1 :: "'o group \<Rightarrow> 'o version" where
  "V1alpha1 g = NewVersion (gr_namespace g) (gr_tweak g)"

definition PlacementRequests :: "'o version \<Rightarrow> 'o placementRequestInformer" where
  "PlacementRequests v = \<lparr>pi_namespace = ve_namespace v, pi_tweak = ve_tweak v\<rparr>"

definition NamespaceIndex :: string where
  "NamespaceIndex = ''namespace''"

definition defaultInformer ::
  "'o placementRequestInformer \<Rightarrow> 'c \<Rightarrow> int \<Rightarrow> ('c, 'o) shared_index_informer" where
  "defaultInformer p client resyncPeriod =
     NewFilteredPlacementRequestInformer client (pi_namespace p) resyncPeriod [NamespaceIndex] (pi_tweak p)"

definition Informer ::
  "'o placementRequestInformer \<Rightarrow> ('c, 'o, 't) request_factory \<Rightarrow> handle \<times> ('c, 'o, 't) request_factory" where
  "Informer p s = InformerFor request_type (defaultInformer p) s"

section \<open>Listers and access by resource\<close>

text \<open>A group resource is a group and a resource; a lister reads the indexer of an informer.\<close>

definition GroupName :: string where
  "GroupName = ''kombiner.x-k8s.io''"

definition SchemeGroupVersion :: "string \<times> string" where
  "SchemeGroupVersion = (GroupName, ''v1alpha1'')"

definition WithResource :: "string \<times> string \<Rightarrow> string \<Rightarrow> string \<times> string \<times> string" where
  "WithResource gv resource = (fst gv, snd gv, resource)"

definition GroupResource :: "string \<times> string \<times> string \<Rightarrow> string \<times> string" where
  "GroupResource gvr = (fst gvr, snd (snd gvr))"

definition Resource :: "string \<Rightarrow> string \<times> string" where
  "Resource resource = GroupResource (WithResource SchemeGroupVersion resource)"

record lister =
  li_indexer :: handle
  li_resource :: "string \<times> string"
  li_namespace :: "string option"

definition NewPlacementRequestLister :: "handle \<Rightarrow> lister" where
  "NewPlacementRequestLister indexer =
     \<lparr>li_indexer = indexer, li_resource = Resource ''placementrequest'', li_namespace = None\<rparr>"

definition lister_PlacementRequests :: "lister \<Rightarrow> string \<Rightarrow> lister" where
  "lister_PlacementRequests l ns = l\<lparr>li_namespace := Some ns\<rparr>"

definition Lister :: "'o placementRequestInformer \<Rightarrow> ('c, 'o, 't) request_factory \<Rightarrow> lister \<times> ('c, 'o, 't) request_factory" where
  "Lister p s = (let (h, s') = Informer p s in (NewPlacementRequestLister h, s'))"

record genericInformer =
  gi_informer :: handle
  gi_resource :: "string \<times> string"

definition genericInformer_Lister :: "genericInformer \<Rightarrow> lister" where
  "genericInformer_Lister g = \<lparr>li_indexer = gi_informer g, li_resource = gi_resource g, li_namespace = None\<rparr>"

text \<open>\<open>show_gvr\<close> is the \<open>String\<close> method of \<open>schema.GroupVersionResource\<close>, of apimachinery.\<close>

definition ForResource ::
  "(string \<times> string \<times> string \<Rightarrow> string) \<Rightarrow> string \<times> string \<times> string \<Rightarrow> ('c, 'o, 't) request_factory \<Rightarrow>
   (string + genericInformer) \<times> ('c, 'o, 't) request_factory" where
  "ForResource show_gvr resource s =
     (if resource = WithResource SchemeGroupVersion ''placementrequests''
      then let (h, s') = Informer (PlacementRequests (V1alpha1 (Kombiner s))) s
           in (Inr \<lparr>gi_informer = h, gi_resource = GroupResource resource\<rparr>, s')
      else (Inl (''no informer found for '' @ show_gvr resource), s))"

lemmas accessor_defs = Kombiner_def NewGroup_def V1alpha1_def NewVersion_def PlacementRequests_def

section \<open>Properties\<close>

text \<open>
  There is one informer of placement requests per factory: once \<open>Informer\<close> has been called,
  every later access in every reachable state, through any typed informer, through the lister or by
  resource, gives the same informer and changes nothing; any other resource is an error.
\<close>

theorem informer_shared:
  assumes "Informer p s = (h, s1)" and "factory_reach s1 s2"
  shows "Informer q s2 = (h, s2) \<and> Lister q s2 = (NewPlacementRequestLister h, s2) \<and>
    ForResource show_gvr r s2 =
      (if r = (GroupName, ''v1alpha1'', ''placementrequests'')
       then (Inr \<lparr>gi_informer = h, gi_resource = (GroupName, ''placementrequests'')\<rparr>, s2)
       else (Inl (''no informer found for '' @ show_gvr r), s2))"
proof -
  have "fc_informers (fst s1) request_type = Some h"
    by (rule factory.registers [OF assms(1) [unfolded Informer_def]])
  then have "fc_informers (fst s2) request_type = Some h"
    by (rule reach_keeps_registered [OF assms(2)])
  then have I: "Informer q s2 = (h, s2)" for q
    unfolding Informer_def by (rule factory.returns_registered)
  then show ?thesis
    by (simp add: Lister_def ForResource_def WithResource_def SchemeGroupVersion_def GroupResource_def)
qed

definition prod_factory :: "(string, string, unit) request_factory" where
  "prod_factory = (NewFilteredSharedInformerFactory ''client'' 30 ''prod'' (Some (\<lambda>opts. opts @ '',limit'')), empty_world)"

theorem informer_shared_witness:
  "Informer (PlacementRequests (V1alpha1 (Kombiner prod_factory)))
     (snd (Informer (PlacementRequests (V1alpha1 (Kombiner prod_factory))) prod_factory)) =
   (0, snd (Informer (PlacementRequests (V1alpha1 (Kombiner prod_factory))) prod_factory))"
proof -
  let ?p = "PlacementRequests (V1alpha1 (Kombiner prod_factory))"
  have "Informer ?p prod_factory = (0, snd (Informer ?p prod_factory))"
    by (simp add: Informer_def InformerFor_def prod_factory_def NewFilteredSharedInformerFactory_def
        NewSharedInformerFactoryWithOptions_def WithNamespace_def WithTweakListOptions_def
        new_informer_def empty_world_def Let_def)
  from informer_shared [OF this factory_reach.here] show ?thesis by blast
qed

text \<open>
  The informer of a filtered factory lists and watches the factory's namespace only, through the
  factory's client and with the factory's tweak applied to the options, and resyncs with the
  factory's default period.
\<close>

theorem request_informer_filtered:
  "\<exists>s s1 i. s = (NewFilteredSharedInformerFactory client resync ns tweak, empty_world) \<and>
    Informer (PlacementRequests (V1alpha1 (Kombiner s))) s = (0, s1) \<and>
    objects (snd s1) = [(i, None)] \<and> sii_objectType i = request_type \<and> sii_resync i = resync \<and>
    ListFunc (sii_listWatch i) opts = ListCall client ns Background (tweaked tweak opts) \<and>
    WatchFunc (sii_listWatch i) opts = WatchCall client ns Background (tweaked tweak opts) \<and>
    ListWithContextFunc (sii_listWatch i) cx opts = ListCall client ns cx (tweaked tweak opts) \<and>
    WatchFuncWithContext (sii_listWatch i) cx opts = WatchCall client ns cx (tweaked tweak opts)"
  by (simp add: Informer_def InformerFor_def accessor_defs NewFilteredSharedInformerFactory_def
      NewSharedInformerFactoryWithOptions_def WithNamespace_def WithTweakListOptions_def
      new_informer_def empty_world_def Let_def defaultInformer_def NewFilteredPlacementRequestInformer_def
      ListFunc_def WatchFunc_def ListWithContextFunc_def WatchFuncWithContext_def)

end
