(* ===== verification/Clientset.thy ===== *)
theory Clientset
  imports Complex_Main Request_Informer
begin

text \<open>
  The construction of the generated clientset (\<open>pkg/generated/clientset/versioned/clientset.go\<close> and
  \<open>typed/kombiner/v1alpha1/kombiner_client.go\<close>). The REST machinery belongs to client-go: what it
  answers is collected in the record \<open>restlib\<close>, an argument of the definitions. A \<open>*rest.Config\<close> is
  an optional record, dereferencing nil being a panic (\<open>None\<close>); the copy \<open>configShallowCopy := *c\<close> is
  the record itself, and what the code assigns to the copy is a record update. The error of a
  constructor is the left side of a sum.
\<close>

record ('l, 'z) rest_config =
  rc_UserAgent :: string
  rc_RateLimiter :: "'l option"
  rc_QPS :: rat
  rc_Burst :: int
  rc_GroupVersion :: "(string \<times> string) option"
  rc_APIPath :: string
  rc_NegotiatedSerializer :: "'z option"

record ('l, 'z, 'h, 'r, 'd) restlib =
  DefaultKubernetesUserAgent :: string
  HTTPClientFor :: "('l, 'z) rest_config \<Rightarrow> string + 'h"
  RESTClientForConfigAndClient :: "('l, 'z) rest_config \<Rightarrow> 'h \<Rightarrow> string + 'r"
  NewDiscoveryClientForConfigAndClient :: "('l, 'z) rest_config \<Rightarrow> 'h \<Rightarrow> string + 'd"
  NewDiscoveryClient :: "'r \<Rightarrow> 'd"
  NewTokenBucketRateLimiter :: "rat \<Rightarrow> int \<Rightarrow> 'l"
  generated_serializer :: 'z

section \<open>The client of the group\<close>

record 'r KombinerV1alpha1Client =
  restClient :: 'r

definition setConfigDefaults :: "('l, 'z, 'h, 'r, 'd) restlib \<Rightarrow> ('l, 'z) rest_config \<Rightarrow> ('l, 'z) rest_config" where
  "setConfigDefaults lib config =
     (let config1 = config\<lparr>rc_GroupVersion := Some SchemeGroupVersion, rc_APIPath := ''/apis'',
                           rc_NegotiatedSerializer := Some (generated_serializer lib)\<rparr>
      in if rc_UserAgent config1 = '''' then config1\<lparr>rc_UserAgent := DefaultKubernetesUserAgent lib\<rparr> else config1)"

definition kc_NewForConfigAndClient ::
  "('l, 'z, 'h, 'r, 'd) restlib \<Rightarrow> ('l, 'z) rest_config option \<Rightarrow> 'h \<Rightarrow> (string + 'r KombinerV1alpha1Client) option" where
  "kc_NewForConfigAndClient lib c h =
     do { config \<leftarrow> c;
          (case RESTClientForConfigAndClient lib (setConfigDefaults lib config) h of
             Inl err \<Rightarrow> Some (Inl err)
           | Inr client \<Rightarrow> Some (Inr \<lparr>restClient = client\<rparr>)) }"

definition kc_NewForConfig ::
  "('l, 'z, 'h, 'r, 'd) restlib \<Rightarrow> ('l, 'z) rest_config option \<Rightarrow> (string + 'r KombinerV1alpha1Client) option" where
  "kc_NewForConfig lib c =
     do { config \<leftarrow> c;
          let config = setConfigDefaults lib config;
          (case HTTPClientFor lib config of
             Inl err \<Rightarrow> Some (Inl err)
           | Inr httpClient \<Rightarrow> kc_NewForConfigAndClient lib (Some config) httpClient) }"

definition kc_NewForConfigOrDie ::
  "('l, 'z, 'h, 'r, 'd) restlib \<Rightarrow> ('l, 'z) rest_config option \<Rightarrow> 'r KombinerV1alpha1Client option" where
  "kc_NewForConfigOrDie lib c =
     do { res \<leftarrow> kc_NewForConfig lib c; (case res of Inl err \<Rightarrow> None | Inr client \<Rightarrow> Some client) }"

definition kc_New :: "'r \<Rightarrow> 'r KombinerV1alpha1Client" where
  "kc_New c = \<lparr>restClient = c\<rparr>"

definition RESTClient :: "'r KombinerV1alpha1Client option \<Rightarrow> 'r option" where
  "RESTClient c = (case c of None \<Rightarrow> None | Some client \<Rightarrow> Some (restClient client))"

text \<open>
  \<open>newPlacementRequests\<close>: a client of one resource in one namespace. The generic client of \<open>gentype\<close>
  is represented by what it is given, without the codec and the constructors of the two empty objects.
\<close>

record 'r placementRequests =
  pr_resource :: string
  pr_rest :: "'r option"
  pr_namespace :: string

definition newPlacementRequests :: "'r KombinerV1alpha1Client \<Rightarrow> string \<Rightarrow> 'r placementRequests" where
  "newPlacementRequests c ns = \<lparr>pr_resource = ''placementrequests'', pr_rest = RESTClient (Some c), pr_namespace = ns\<rparr>"

definition kc_PlacementRequests :: "'r KombinerV1alpha1Client \<Rightarrow> string \<Rightarrow> 'r placementRequests" where
  "kc_PlacementRequests c ns = newPlacementRequests c ns"

section \<open>The clientset\<close>

record ('r, 'd) Clientset =
  DiscoveryClient :: 'd
  kombinerV1alpha1 :: "'r KombinerV1alpha1Client"

definition KombinerV1alpha1 :: "('r, 'd) Clientset \<Rightarrow> 'r KombinerV1alpha1Client" where
  "KombinerV1alpha1 c = kombinerV1alpha1 c"

definition Discovery :: "('r, 'd) Clientset option \<Rightarrow> 'd option" where
  "Discovery c = (case c of None \<Rightarrow> None | Some cs \<Rightarrow> Some (DiscoveryClient cs))"

definition burst_error :: string where
  "burst_error = ''burst is required to be greater than 0 when RateLimiter is not set and QPS is set to greater than 0''"

text \<open>The rate limiter of the copy: kept, made from \<open>QPS\<close> and \<open>Burst\<close>, or none.\<close>

definition rate_limited ::
  "('l, 'z, 'h, 'r, 'd) restlib \<Rightarrow> ('l, 'z) rest_config \<Rightarrow> string + ('l, 'z) rest_config" where
  "rate_limited lib c =
     (if rc_RateLimiter c = None \<and> rc_QPS c > 0
      then if rc_Burst c \<le> 0 then Inl burst_error
           else Inr (c\<lparr>rc_RateLimiter := Some (NewTokenBucketRateLimiter lib (rc_QPS c) (rc_Burst c))\<rparr>)
      else Inr c)"

definition cs_NewForConfigAndClient ::
  "('l, 'z, 'h, 'r, 'd) restlib \<Rightarrow> ('l, 'z) rest_config option \<Rightarrow> 'h \<Rightarrow> (string + ('r, 'd) Clientset) option" where
  "cs_NewForConfigAndClient lib c httpClient =
     do { configShallowCopy \<leftarrow> c;
          (case rate_limited lib configShallowCopy of
             Inl err \<Rightarrow> Some (Inl err)
           | Inr configShallowCopy \<Rightarrow>
               do { res \<leftarrow> kc_NewForConfigAndClient lib (Some configShallowCopy) httpClient;
                    (case res of
                       Inl err \<Rightarrow> Some (Inl err)
                     | Inr kombiner \<Rightarrow>
                         (case NewDiscoveryClientForConfigAndClient lib configShallowCopy httpClient of
                            Inl err \<Rightarrow> Some (Inl err)
                          | Inr discovery \<Rightarrow> Some (Inr \<lparr>DiscoveryClient = discovery, kombinerV1alpha1 = kombiner\<rparr>))) }) }"

definition cs_NewForConfig ::
  "('l, 'z, 'h, 'r, 'd) restlib \<Rightarrow> ('l, 'z) rest_config option \<Rightarrow> (string + ('r, 'd) Clientset) option" where
  "cs_NewForConfig lib c =
     do { configShallowCopy \<leftarrow> c;
          let configShallowCopy =
            (if rc_UserAgent configShallowCopy = ''''
             then configShallowCopy\<lparr>rc_UserAgent := DefaultKubernetesUserAgent lib\<rparr> else configShallowCopy);
          (case HTTPClientFor lib configShallowCopy of
             Inl err \<Rightarrow> Some (Inl err)
           | Inr httpClient \<Rightarrow> cs_NewForConfigAndClient lib (Some configShallowCopy) httpClient) }"

definition cs_NewForConfigOrDie ::
  "('l, 'z, 'h, 'r, 'd) restlib \<Rightarrow> ('l, 'z) rest_config option \<Rightarrow> ('r, 'd) Clientset option" where
  "cs_NewForConfigOrDie lib c =
     do { res \<leftarrow> cs_NewForConfig lib c; (case res of Inl err \<Rightarrow> None | Inr cs \<Rightarrow> Some cs) }"

definition cs_New :: "('l, 'z, 'h, 'r, 'd) restlib \<Rightarrow> 'r \<Rightarrow> ('r, 'd) Clientset" where
  "cs_New lib c = \<lparr>DiscoveryClient = NewDiscoveryClient lib c, kombinerV1alpha1 = kc_New c\<rparr>"

section \<open>Properties\<close>

text \<open>The configuration the clients are made from: user agent and rate limiter filled in.\<close>

definition effective :: "('l, 'z, 'h, 'r, 'd) restlib \<Rightarrow> ('l, 'z) rest_config \<Rightarrow> ('l, 'z) rest_config" where
  "effective lib c =
     c\<lparr>rc_UserAgent := (if rc_UserAgent c = '''' then DefaultKubernetesUserAgent lib else rc_UserAgent c),
       rc_RateLimiter := (if rc_RateLimiter c = None \<and> rc_QPS c > 0
         then Some (NewTokenBucketRateLimiter lib (rc_QPS c) (rc_Burst c)) else rc_RateLimiter c)\<rparr>"

text \<open>
  What the clientset is made of. \<open>NewForConfig\<close> on a configuration gives a clientset exactly if an
  HTTP client can be made, a burst is given where a rate limiter has to be made, and both clients can
  be made; then the two share the HTTP client, the user agent and the rate limiter, and the client of
  the group addresses its group version under \<open>/apis\<close> with the generated serializer. It never panics
  on a configuration, and \<open>NewForConfigOrDie\<close> panics exactly where it returns an error.
\<close>

theorem clientset_NewForConfig:
  fixes lib :: "('l, 'z, 'h, 'r, 'd) restlib"
  shows "(cs_NewForConfig lib (Some c) = Some (Inr cs) \<longleftrightarrow>
     (\<exists>h. HTTPClientFor lib (c\<lparr>rc_UserAgent := rc_UserAgent (effective lib c)\<rparr>) = Inr h \<and>
        \<not> (rc_RateLimiter c = None \<and> 0 < rc_QPS c \<and> rc_Burst c \<le> 0) \<and>
        RESTClientForConfigAndClient lib
          ((effective lib c)\<lparr>rc_GroupVersion := Some (GroupName, ''v1alpha1''), rc_APIPath := ''/apis'',
             rc_NegotiatedSerializer := Some (generated_serializer lib)\<rparr>) h =
          Inr (restClient (KombinerV1alpha1 cs)) \<and>
        NewDiscoveryClientForConfigAndClient lib (effective lib c) h = Inr (DiscoveryClient cs))) \<and>
   (\<exists>res. cs_NewForConfig lib (Some c) = Some res) \<and>
   cs_NewForConfigOrDie lib (Some c) = (case cs_NewForConfig lib (Some c) of Some (Inr cs) \<Rightarrow> Some cs | _ \<Rightarrow> None)"
proof (intro conjI)
  let ?c = "c\<lparr>rc_UserAgent := rc_UserAgent (effective lib c)\<rparr>"
  have u: "cs_NewForConfig lib (Some c) =
      (case HTTPClientFor lib ?c of Inl err \<Rightarrow> Some (Inl err) | Inr h \<Rightarrow> cs_NewForConfigAndClient lib (Some ?c) h)"
    by (cases "rc_UserAgent c = ''''") (simp_all add: cs_NewForConfig_def effective_def Let_def split: sum.split)
  have d: "setConfigDefaults lib (effective lib c) =
      (effective lib c)\<lparr>rc_GroupVersion := Some (GroupName, ''v1alpha1''), rc_APIPath := ''/apis'',
         rc_NegotiatedSerializer := Some (generated_serializer lib)\<rparr>"
    by (simp add: setConfigDefaults_def effective_def SchemeGroupVersion_def Let_def)
  have r: "rate_limited lib ?c =
      (if rc_RateLimiter c = None \<and> 0 < rc_QPS c \<and> rc_Burst c \<le> 0 then Inl burst_error else Inr (effective lib c))"
    by (auto simp: rate_limited_def effective_def)
  have n: "cs_NewForConfigAndClient lib (Some ?c) h = Some (Inr cs) \<longleftrightarrow>
      \<not> (rc_RateLimiter c = None \<and> 0 < rc_QPS c \<and> rc_Burst c \<le> 0) \<and>
      RESTClientForConfigAndClient lib (setConfigDefaults lib (effective lib c)) h = Inr (restClient (KombinerV1alpha1 cs)) \<and>
      NewDiscoveryClientForConfigAndClient lib (effective lib c) h = Inr (DiscoveryClient cs)" for h
    using r by (cases cs; cases "rate_limited lib ?c")
      (auto simp: cs_NewForConfigAndClient_def kc_NewForConfigAndClient_def KombinerV1alpha1_def
        split: sum.splits if_splits)
  show "cs_NewForConfig lib (Some c) = Some (Inr cs) \<longleftrightarrow>
     (\<exists>h. HTTPClientFor lib ?c = Inr h \<and>
        \<not> (rc_RateLimiter c = None \<and> 0 < rc_QPS c \<and> rc_Burst c \<le> 0) \<and>
        RESTClientForConfigAndClient lib
          ((effective lib c)\<lparr>rc_GroupVersion := Some (GroupName, ''v1alpha1''), rc_APIPath := ''/apis'',
             rc_NegotiatedSerializer := Some (generated_serializer lib)\<rparr>) h =
          Inr (restClient (KombinerV1alpha1 cs)) \<and>
        NewDiscoveryClientForConfigAndClient lib (effective lib c) h = Inr (DiscoveryClient cs))"
    unfolding u by (cases "HTTPClientFor lib ?c") (simp_all add: n d)
  show "\<exists>res. cs_NewForConfig lib (Some c) = Some res"
    by (auto simp: cs_NewForConfig_def cs_NewForConfigAndClient_def kc_NewForConfigAndClient_def Let_def split: sum.splits)
  show "cs_NewForConfigOrDie lib (Some c) = (case cs_NewForConfig lib (Some c) of Some (Inr cs) \<Rightarrow> Some cs | _ \<Rightarrow> None)"
    by (simp add: cs_NewForConfigOrDie_def split: option.splits sum.splits)
qed

end
