(* ===== verification/Placement_Results.thy ===== *)
theory Placement_Results
  imports Api_Types
begin

text \<open>
  \<open>pkg/placementrequests/v1alpha1/placementrequests.go\<close>: validation of a placement request, the table
  of binding results in its status, and the overall result. The code changes the request through a
  pointer; the model returns the changed request.

  The status holds the results as a list, used as a table with the pod UID as key. The locale
  \<open>result_table\<close> states what its users rely on; \<open>SetPodBindingResult\<close> is an interpretation.
\<close>

section \<open>Definitions\<close>

definition Validate :: "PlacementRequest \<Rightarrow> string option" where
  "Validate pr =
     (if length (Bindings (Spec pr)) = 0 then Some ''the placement request has no bindings''
      else if Policy (Spec pr) \<noteq> PlacementRequestPolicyLenient
        then Some (''unsupported policy: '' @ Policy (Spec pr))
      else None)"

text \<open>The loop over the results: the first one of the pod is replaced; \<open>None\<close> if there is none.\<close>

fun replace_result ::
  "PlacementRequestBindingResult list \<Rightarrow> PlacementRequestBindingResult \<Rightarrow> PlacementRequestBindingResult list option" where
  "replace_result [] v = None"
| "replace_result (b # bs) v =
     (if PodUID (br_Binding b) = PodUID (br_Binding v) then Some (v # bs)
      else map_option (\<lambda>bs'. b # bs') (replace_result bs v))"

definition set_results :: "PlacementRequest \<Rightarrow> PlacementRequestBindingResult list \<Rightarrow> PlacementRequest" where
  "set_results pr bs = pr\<lparr>Status := (Status pr)\<lparr>st_Bindings := bs\<rparr>\<rparr>"

definition SetPodBindingResult ::
  "PlacementRequest \<Rightarrow> Binding \<Rightarrow> PlacementRequestResult \<Rightarrow> string \<Rightarrow> string \<Rightarrow> PlacementRequest" where
  "SetPodBindingResult pr binding result reason msg =
     (let v = \<lparr>br_Binding = binding, br_Result = result, br_Reason = reason, br_Message = msg\<rparr> in
      case replace_result (st_Bindings (Status pr)) v of
        Some bs \<Rightarrow> set_results pr bs
      | None \<Rightarrow> set_results pr (st_Bindings (Status pr) @ [v]))"

definition SetPodBindingFailure :: "PlacementRequest \<Rightarrow> Binding \<Rightarrow> string \<Rightarrow> string \<Rightarrow> PlacementRequest" where
  "SetPodBindingFailure pr binding reason msg =
     SetPodBindingResult pr binding PlacementRequestResultFailure reason msg"

definition SetPodBindingSuccess :: "PlacementRequest \<Rightarrow> Binding \<Rightarrow> string \<Rightarrow> string \<Rightarrow> PlacementRequest" where
  "SetPodBindingSuccess pr binding reason msg =
     SetPodBindingResult pr binding PlacementRequestResultSuccess reason msg"

fun count_successes :: "nat \<Rightarrow> PlacementRequestBindingResult list \<Rightarrow> nat" where
  "count_successes n [] = n"
| "count_successes n (b # bs) =
     count_successes (if br_Result b = PlacementRequestResultSuccess then n + 1 else n) bs"

definition AssessResult :: "PlacementRequest \<Rightarrow> PlacementRequestResult \<times> string" where
  "AssessResult pr =
     (let bs = st_Bindings (Status pr) in
      if length bs = 0 then (PlacementRequestResultRejected, ''No bindings'')
      else
        let successes = count_successes 0 bs in
        if successes = 0 then (PlacementRequestResultFailure, ''All bindings failed'')
        else if successes = length bs then (PlacementRequestResultSuccess, ''All bindings succeeded'')
        else (PlacementRequestResultPartialSuccess,
              itoa successes @ '' of '' @ itoa (length bs) @ '' bindings succeeded''))"

section \<open>A table of results\<close>

definition result_for :: "PlacementRequest \<Rightarrow> string \<Rightarrow> PlacementRequestBindingResult option" where
  "result_for pr uid = find (\<lambda>b. PodUID (br_Binding b) = uid) (st_Bindings (Status pr))"

definition result_uids :: "PlacementRequest \<Rightarrow> string list" where
  "result_uids pr = map (\<lambda>b. PodUID (br_Binding b)) (st_Bindings (Status pr))"

text \<open>
  The contract: setting the result of a pod changes what is found for that pod and nothing else, adds
  a key at the end at most, and keeps the rest of the request. The lemmas follow a sequence of
  bindings whose results are set one after the other.
\<close>

locale result_table =
  fixes set_result :: "'t \<Rightarrow> Binding \<Rightarrow> 'v \<Rightarrow> 't"
    and lookup :: "'t \<Rightarrow> string \<Rightarrow> (Binding \<times> 'v) option"
    and keys :: "'t \<Rightarrow> string list"
  assumes lookup_set: "lookup (set_result t b v) uid = (if uid = PodUID b then Some (b, v) else lookup t uid)"
    and keys_set: "keys (set_result t b v) = (if PodUID b \<in> set (keys t) then keys t else keys t @ [PodUID b])"
    and lookup_keys: "lookup t uid \<noteq> None \<longleftrightarrow> uid \<in> set (keys t)"
begin

definition set_all :: "'t \<Rightarrow> (Binding \<times> 'v) list \<Rightarrow> 't" where
  "set_all t bvs = foldl (\<lambda>t (b, v). set_result t b v) t bvs"

lemma set_all_simps [simp]:
  "set_all t [] = t" "set_all t ((b, v) # bvs) = set_all (set_result t b v) bvs"
  "set_all t (bvs @ [(b, v)]) = set_result (set_all t bvs) b v"
  by (simp_all add: set_all_def)

lemma distinct_keys_set: "distinct (keys t) \<Longrightarrow> distinct (keys (set_result t b v))"
  by (simp add: keys_set)

lemma set_all_distinct: "distinct (keys t) \<Longrightarrow> distinct (keys (set_all t bvs))"
  by (induction bvs rule: rev_induct) (auto simp: distinct_keys_set)

lemma set_all_keys: "set (keys (set_all t bvs)) = set (keys t) \<union> (\<lambda>(b, v). PodUID b) ` set bvs"
  by (induction bvs rule: rev_induct) (auto simp: keys_set split: if_splits)

text \<open>The last result set for a pod is the one found.\<close>

lemma set_all_last:
  "lookup (set_all t bvs) uid =
     (let xs = filter (\<lambda>(b, v). PodUID b = uid) bvs in if xs = [] then lookup t uid else Some (last xs))"
proof (induction bvs rule: rev_induct)
  case Nil
  then show ?case by simp
next
  case (snoc x bvs)
  obtain b v where x: "x = (b, v)" by fastforce
  with snoc show ?case by (simp add: lookup_set Let_def)
qed

lemma set_all_nth:
  assumes "i < length bvs" and "\<forall>j < length bvs. i < j \<longrightarrow> PodUID (fst (bvs ! j)) \<noteq> PodUID (fst (bvs ! i))"
  shows "lookup (set_all t bvs) (PodUID (fst (bvs ! i))) = Some (bvs ! i)"
  using assms
proof (induction bvs rule: rev_induct)
  case Nil
  then show ?case by simp
next
  case (snoc x bvs)
  obtain b v where x: "x = (b, v)" by (rule prod.exhaust)
  show ?case
  proof (cases "i = length bvs")
    case True
    with x show ?thesis by (simp add: lookup_set)
  next
    case False
    then have i: "i < length bvs" using snoc.prems(1) by simp
    have "\<forall>j < length bvs. i < j \<longrightarrow> PodUID (fst (bvs ! j)) \<noteq> PodUID (fst (bvs ! i))"
      using snoc.prems(2) i by (metis length_append less_SucI nth_append length_Cons list.size(3) add_0_right add_Suc_right)
    moreover have "PodUID b \<noteq> PodUID (fst (bvs ! i))"
      using snoc.prems(2) [rule_format, of "length bvs"] i x by (simp add: nth_append)
    ultimately show ?thesis using snoc.IH i x by (simp add: lookup_set nth_append)
  qed
qed

lemma set_all_fresh_keys:
  assumes "keys t = []" and "distinct (map (\<lambda>(b, v). PodUID b) bvs)"
  shows "keys (set_all t bvs) = map (\<lambda>(b, v). PodUID b) bvs"
  using assms
proof (induction bvs rule: rev_induct)
  case Nil
  then show ?case by simp
next
  case (snoc x bvs)
  obtain b v where x: "x = (b, v)" by fastforce
  then have "PodUID b \<notin> set (keys (set_all t bvs))" using snoc by auto
  with snoc x show ?case by (simp add: keys_set)
qed

end

section \<open>The status is such a table\<close>

lemma replace_result_None:
  "replace_result bs v = None \<longleftrightarrow> PodUID (br_Binding v) \<notin> (\<lambda>b. PodUID (br_Binding b)) ` set bs"
  by (induction bs v rule: replace_result.induct) auto

lemma replace_result_Some:
  "replace_result bs v = Some bs' \<Longrightarrow>
     map (\<lambda>b. PodUID (br_Binding b)) bs' = map (\<lambda>b. PodUID (br_Binding b)) bs \<and>
     find (\<lambda>b. PodUID (br_Binding b) = uid) bs' =
       (if uid = PodUID (br_Binding v) then Some v else find (\<lambda>b. PodUID (br_Binding b) = uid) bs)"
  by (induction bs v arbitrary: bs' rule: replace_result.induct) (auto split: if_splits)

lemma find_append: "find P (xs @ ys) = (case find P xs of None \<Rightarrow> find P ys | Some x \<Rightarrow> Some x)"
  by (induction xs) auto

lemma find_uid_None:
  "find (\<lambda>b. PodUID (br_Binding b) = uid) bs = None \<longleftrightarrow> uid \<notin> (\<lambda>b. PodUID (br_Binding b)) ` set bs"
  by (auto simp: find_None_iff)

lemma set_results_fields [simp]:
  "st_Bindings (Status (set_results pr bs)) = bs" "Spec (set_results pr bs) = Spec pr"
  "Name (set_results pr bs) = Name pr" "Namespace (set_results pr bs) = Namespace pr"
  by (simp_all add: set_results_def)

lemma SetPodBindingResult_lookup:
  "result_for (SetPodBindingResult pr binding result reason msg) uid =
     (if uid = PodUID binding
      then Some \<lparr>br_Binding = binding, br_Result = result, br_Reason = reason, br_Message = msg\<rparr>
      else result_for pr uid)"
proof -
  let ?v = "\<lparr>br_Binding = binding, br_Result = result, br_Reason = reason, br_Message = msg\<rparr>"
  let ?bs = "st_Bindings (Status pr)"
  show ?thesis
  proof (cases "replace_result ?bs ?v")
    case None
    then have "find (\<lambda>b. PodUID (br_Binding b) = PodUID binding) ?bs = None"
      using replace_result_None [of ?bs ?v] by (simp add: find_uid_None)
    with None show ?thesis
      by (auto simp: SetPodBindingResult_def result_for_def find_append split: option.split)
  next
    case (Some bs)
    then show ?thesis
      using replace_result_Some [OF Some, of uid] by (simp add: SetPodBindingResult_def result_for_def)
  qed
qed

lemma SetPodBindingResult_uids:
  "result_uids (SetPodBindingResult pr binding result reason msg) =
     (if PodUID binding \<in> set (result_uids pr) then result_uids pr else result_uids pr @ [PodUID binding])"
proof -
  let ?v = "\<lparr>br_Binding = binding, br_Result = result, br_Reason = reason, br_Message = msg\<rparr>"
  let ?bs = "st_Bindings (Status pr)"
  have "PodUID binding \<in> set (result_uids pr) \<longleftrightarrow> replace_result ?bs ?v \<noteq> None"
    using replace_result_None [of ?bs ?v] by (simp add: result_uids_def)
  then show ?thesis
    using replace_result_Some [of ?bs ?v] by (auto simp: SetPodBindingResult_def result_uids_def)
qed

type_synonym outcome = "PlacementRequestResult \<times> string \<times> string"

definition set_outcome :: "PlacementRequest \<Rightarrow> Binding \<Rightarrow> outcome \<Rightarrow> PlacementRequest" where
  "set_outcome pr b v = SetPodBindingResult pr b (fst v) (fst (snd v)) (snd (snd v))"

definition lookup_outcome :: "PlacementRequest \<Rightarrow> string \<Rightarrow> (Binding \<times> outcome) option" where
  "lookup_outcome pr uid =
     map_option (\<lambda>r. (br_Binding r, br_Result r, br_Reason r, br_Message r)) (result_for pr uid)"

interpretation status_table: result_table set_outcome lookup_outcome result_uids
proof unfold_locales
  fix pr b v uid
  show "lookup_outcome (set_outcome pr b v) uid = (if uid = PodUID b then Some (b, v) else lookup_outcome pr uid)"
    by (simp add: lookup_outcome_def set_outcome_def SetPodBindingResult_lookup)
  show "result_uids (set_outcome pr b v) = (if PodUID b \<in> set (result_uids pr) then result_uids pr else result_uids pr @ [PodUID b])"
    by (simp add: set_outcome_def SetPodBindingResult_uids)
  show "lookup_outcome pr uid \<noteq> None \<longleftrightarrow> uid \<in> set (result_uids pr)"
    using find_uid_None [of uid "st_Bindings (Status pr)"]
    by (auto simp: lookup_outcome_def result_for_def result_uids_def)
qed

section \<open>The overall result\<close>

lemma count_successes_eq:
  "count_successes n bs = n + length (filter (\<lambda>b. br_Result b = PlacementRequestResultSuccess) bs)"
  by (induction n bs rule: count_successes.induct) auto

section \<open>Properties\<close>

text \<open>
  C36: \<open>SetPodBindingResult\<close> is an update of a table keyed by pod UID: afterwards the result found for
  the pod is the one set, the results of all other pods are as before, a pod has at most one result
  if it had, and the spec of the request is unchanged.
\<close>

theorem SetPodBindingResult_table:
  "result_for (SetPodBindingResult pr binding result reason msg) uid =
     (if uid = PodUID binding
      then Some \<lparr>br_Binding = binding, br_Result = result, br_Reason = reason, br_Message = msg\<rparr>
      else result_for pr uid) \<and>
   (distinct (result_uids (SetPodBindingResult pr binding result reason msg)) = distinct (result_uids pr)) \<and>
   Spec (SetPodBindingResult pr binding result reason msg) = Spec pr"
proof -
  have "Spec (SetPodBindingResult pr binding result reason msg) = Spec pr"
    by (simp add: SetPodBindingResult_def Let_def split: option.split)
  then show ?thesis by (simp add: SetPodBindingResult_lookup SetPodBindingResult_uids)
qed

text \<open>
  \<open>AssessResult\<close> gives \<open>Success\<close> exactly if there are results and all of them are successes,
  \<open>Failure\<close> exactly if there are results and none is a success, \<open>Rejected\<close> exactly if there are none,
  and \<open>PartialSuccess\<close> otherwise, with a message that reports the number of successes and of results.
\<close>

theorem AssessResult_spec:
  "let bs = st_Bindings (Status pr); ok = filter (\<lambda>b. br_Result b = PlacementRequestResultSuccess) bs in
   (fst (AssessResult pr) = PlacementRequestResultRejected \<longleftrightarrow> bs = []) \<and>
   (fst (AssessResult pr) = PlacementRequestResultSuccess \<longleftrightarrow> bs \<noteq> [] \<and> ok = bs) \<and>
   (fst (AssessResult pr) = PlacementRequestResultFailure \<longleftrightarrow> bs \<noteq> [] \<and> ok = []) \<and>
   (fst (AssessResult pr) = PlacementRequestResultPartialSuccess \<longleftrightarrow> ok \<noteq> [] \<and> ok \<noteq> bs) \<and>
   snd (AssessResult pr) =
     (if bs = [] then ''No bindings'' else if ok = [] then ''All bindings failed''
      else if ok = bs then ''All bindings succeeded''
      else itoa (length ok) @ '' of '' @ itoa (length bs) @ '' bindings succeeded'')"
proof -
  let ?bs = "st_Bindings (Status pr)" and ?P = "\<lambda>b. br_Result b = PlacementRequestResultSuccess"
  have l: "length (filter ?P ?bs) = length ?bs \<longleftrightarrow> filter ?P ?bs = ?bs"
    by (metis filter_True length_filter_less less_irrefl)
  have e: "filter ?P ?bs \<noteq> [] \<Longrightarrow> ?bs \<noteq> []" by auto
  show ?thesis
    unfolding AssessResult_def Let_def count_successes_eq
    using l e by (cases "?bs = []"; cases "filter ?P ?bs = []"; cases "filter ?P ?bs = ?bs") (auto simp: result_defs)
qed

end
