(* ===== verification/Priority_Queue.thy ===== *)
theory Priority_Queue
  imports Kombiner_Base
begin

text \<open>
  \<open>pkg/queue/prioritized.go\<close>: the \<open>PriorityQueue\<close>, a slice of prioritized items with the five
  methods of \<open>heap.Interface\<close>, and the operations of Go's \<open>container/heap\<close> that the program
  calls on it (\<open>heap.Init\<close>, \<open>heap.Push\<close>, \<open>heap.Pop\<close> with their loops \<open>up\<close> and \<open>down\<close>), written
  over those methods as the standard library writes them.

  The method \<open>Priority()\<close> of an item is the argument \<open>prio\<close>; \<open>None\<close> is a call that panics. Every
  operation returns \<open>None\<close> when an index is out of range or a method panics. The lemmas show that
  none of this happens on the queues the program builds, that push and pop keep the heap
  property, and that pop takes an item of least priority number. They end in the interface
  \<open>min_queue\<close>, the contract the rest of the development uses, and its interpretation.
\<close>

section \<open>The slice and its methods\<close>

record 'a PriorityQueue =
  items :: "'a list"

definition pq_Len :: "'a PriorityQueue \<Rightarrow> nat" where
  "pq_Len q = length (items q)"

definition pq_Less :: "('a \<Rightarrow> int option) \<Rightarrow> 'a PriorityQueue \<Rightarrow> nat \<Rightarrow> nat \<Rightarrow> bool option" where
  "pq_Less prio q i j =
     (if i < length (items q) \<and> j < length (items q)
      then do { a \<leftarrow> prio (items q ! i); b \<leftarrow> prio (items q ! j); Some (a < b) }
      else None)"

definition pq_Swap :: "'a PriorityQueue \<Rightarrow> nat \<Rightarrow> nat \<Rightarrow> 'a PriorityQueue option" where
  "pq_Swap q i j =
     (if i < length (items q) \<and> j < length (items q)
      then Some (q\<lparr>items := list_swap (items q) i j\<rparr>) else None)"

text \<open>\<open>Push(pr any)\<close>: the argument is \<open>None\<close> when its dynamic type is not prioritized.\<close>

definition pq_Push :: "'a PriorityQueue \<Rightarrow> 'a option \<Rightarrow> 'a PriorityQueue option" where
  "pq_Push q pr = (case pr of None \<Rightarrow> None | Some x \<Rightarrow> Some (q\<lparr>items := items q @ [x]\<rparr>))"

definition pq_Pop :: "'a PriorityQueue \<Rightarrow> ('a \<times> 'a PriorityQueue) option" where
  "pq_Pop q =
     (let num = length (items q) in
      if num = 0 then None
      else Some (items q ! (num - 1), q\<lparr>items := take (num - 1) (items q)\<rparr>))"

section \<open>container/heap\<close>

fun heap_up :: "('a \<Rightarrow> int option) \<Rightarrow> 'a PriorityQueue \<Rightarrow> nat \<Rightarrow> 'a PriorityQueue option" where
  "heap_up prio h j =
     (let i = (j - 1) div 2 in
      if i = j then Some h
      else do {
        less \<leftarrow> pq_Less prio h j i;
        if \<not> less then Some h
        else do { h' \<leftarrow> pq_Swap h i j; heap_up prio h' i }
      })"

function heap_down :: "('a \<Rightarrow> int option) \<Rightarrow> 'a PriorityQueue \<Rightarrow> nat \<Rightarrow> nat \<Rightarrow> 'a PriorityQueue option"
  where
  "heap_down prio h i n =
     (let j1 = 2 * i + 1 in
      if j1 \<ge> n then Some h
      else do {
        right \<leftarrow> (if j1 + 1 < n then pq_Less prio h (j1 + 1) j1 else Some False);
        let j = (if right then j1 + 1 else j1);
        less \<leftarrow> pq_Less prio h j i;
        if \<not> less then Some h
        else do { h' \<leftarrow> pq_Swap h i j; heap_down prio h' j n }
      })"
  by pat_completeness auto
termination
  by (relation "measure (\<lambda>(prio, h, i, n). n - i)") auto

declare heap_up.simps [simp del] heap_down.simps [simp del]

text \<open>\<open>heap.Init\<close>: sift down every inner node, from the last one to the root.\<close>

fun heap_init_loop :: "('a \<Rightarrow> int option) \<Rightarrow> 'a PriorityQueue \<Rightarrow> nat \<Rightarrow> 'a PriorityQueue option" where
  "heap_init_loop prio h 0 = Some h"
| "heap_init_loop prio h (Suc i) =
     do { h' \<leftarrow> heap_down prio h i (pq_Len h); heap_init_loop prio h' i }"

definition heap_Init :: "('a \<Rightarrow> int option) \<Rightarrow> 'a PriorityQueue \<Rightarrow> 'a PriorityQueue option" where
  "heap_Init prio h = heap_init_loop prio h (pq_Len h div 2)"

definition heap_Push ::
  "('a \<Rightarrow> int option) \<Rightarrow> 'a PriorityQueue \<Rightarrow> 'a option \<Rightarrow> 'a PriorityQueue option" where
  "heap_Push prio h x = do { h' \<leftarrow> pq_Push h x; heap_up prio h' (pq_Len h' - 1) }"

definition heap_Pop ::
  "('a \<Rightarrow> int option) \<Rightarrow> 'a PriorityQueue \<Rightarrow> ('a \<times> 'a PriorityQueue) option" where
  "heap_Pop prio h =
     do { h1 \<leftarrow> pq_Swap h 0 (pq_Len h - 1);
          h2 \<leftarrow> heap_down prio h1 0 (pq_Len h - 1);
          pq_Pop h2 }"

definition newPriorityQueue :: "('a \<Rightarrow> int option) \<Rightarrow> 'a PriorityQueue option" where
  "newPriorityQueue prio = heap_Init prio \<lparr>items = []\<rparr>"

section \<open>The heap property\<close>

text \<open>The items whose \<open>Priority()\<close> returns; \<open>pr_at\<close> reads the value off at an index.\<close>

definition prio_ok :: "('a \<Rightarrow> int option) \<Rightarrow> 'a list \<Rightarrow> bool" where
  "prio_ok prio xs \<longleftrightarrow> (\<forall>x \<in> set xs. prio x \<noteq> None)"

definition pr_at :: "('a \<Rightarrow> int option) \<Rightarrow> 'a list \<Rightarrow> nat \<Rightarrow> int" where
  "pr_at prio xs i = the (prio (xs ! i))"

text \<open>
  The heap property speaks of the priorities by index only. \<open>heap_from f lo n\<close>: below \<open>n\<close>, no node
  whose parent is at or after \<open>lo\<close> is less than its parent; \<open>is_heap\<close> is the case of all nodes.
  \<open>heap_above\<close> leaves out the edge above \<open>j\<close>, as the loop \<open>up\<close> does; \<open>heap_below\<close> leaves out the
  edges below \<open>i\<close>, as the loop \<open>down\<close> does. Both keep the order across the gap.
\<close>

definition heap_from :: "(nat \<Rightarrow> int) \<Rightarrow> nat \<Rightarrow> nat \<Rightarrow> bool" where
  "heap_from f lo n \<longleftrightarrow>
     (\<forall>k < n. 0 < k \<longrightarrow> lo \<le> (k - 1) div 2 \<longrightarrow> f ((k - 1) div 2) \<le> f k)"

definition is_heap :: "(nat \<Rightarrow> int) \<Rightarrow> nat \<Rightarrow> bool" where
  "is_heap f n \<longleftrightarrow> (\<forall>k < n. 0 < k \<longrightarrow> f ((k - 1) div 2) \<le> f k)"

definition heap_above :: "(nat \<Rightarrow> int) \<Rightarrow> nat \<Rightarrow> nat \<Rightarrow> bool" where
  "heap_above f n j \<longleftrightarrow>
     (\<forall>k < n. 0 < k \<longrightarrow> k \<noteq> j \<longrightarrow> f ((k - 1) div 2) \<le> f k) \<and>
     (\<forall>k < n. 0 < k \<longrightarrow> 0 < j \<longrightarrow> (k - 1) div 2 = j \<longrightarrow> f ((j - 1) div 2) \<le> f k)"

definition heap_below :: "(nat \<Rightarrow> int) \<Rightarrow> nat \<Rightarrow> nat \<Rightarrow> nat \<Rightarrow> bool" where
  "heap_below f lo n i \<longleftrightarrow>
     (\<forall>k < n. 0 < k \<longrightarrow> lo \<le> (k - 1) div 2 \<longrightarrow> (k - 1) div 2 \<noteq> i \<longrightarrow> f ((k - 1) div 2) \<le> f k) \<and>
     (\<forall>k < n. 0 < k \<longrightarrow> 0 < i \<longrightarrow> lo \<le> (i - 1) div 2 \<longrightarrow> (k - 1) div 2 = i \<longrightarrow>
        f ((i - 1) div 2) \<le> f k)"

lemma heap_from_0: "heap_from f 0 n = is_heap f n"
  by (simp add: heap_from_def is_heap_def)

lemma parent_less: "k < n \<Longrightarrow> (k - 1) div 2 < (n :: nat)"
  by linarith

lemma heap_from_cong: "(\<And>k. k < n \<Longrightarrow> f k = g k) \<Longrightarrow> heap_from f lo n = heap_from g lo n"
  unfolding heap_from_def using parent_less by auto

lemma heap_above_cong:
  assumes "\<And>k. k < n \<Longrightarrow> f k = g k" and "j < n"
  shows "heap_above f n j = heap_above g n j"
  unfolding heap_above_def using assms parent_less [of _ n] by auto

lemma heap_below_cong:
  assumes "\<And>k. k < n \<Longrightarrow> f k = g k" and "i < n"
  shows "heap_below f lo n i = heap_below g lo n i"
  unfolding heap_below_def using assms parent_less [of _ n] by auto

lemma heap_above_root: "heap_above f n 0 = is_heap f n"
  by (auto simp: heap_above_def is_heap_def)

lemma heap_above_done:
  "heap_above f n j \<Longrightarrow> j < n \<Longrightarrow> \<not> f j < f ((j - 1) div 2) \<Longrightarrow> is_heap f n"
  unfolding heap_above_def is_heap_def by force

lemma heap_above_step:
  assumes h: "heap_above f n j" and j: "0 < j" "j < n" and less: "f j < f ((j - 1) div 2)"
  shows "heap_above (f((j - 1) div 2 := f j, j := f ((j - 1) div 2))) n ((j - 1) div 2)"
    (is "heap_above ?g n ?i")
proof -
  have ij: "?i < j" using j by linarith
  have edge: "f ((k - 1) div 2) \<le> f k" if "k < n" "0 < k" "k \<noteq> j" for k
    using h that by (auto simp: heap_above_def)
  have gap: "f ?i \<le> f k" if "k < n" "0 < k" "(k - 1) div 2 = j" for k
    using h that j by (auto simp: heap_above_def)
  have "?g ((k - 1) div 2) \<le> ?g k" if k: "k < n" "0 < k" "k \<noteq> ?i" for k
  proof (cases "k = j")
    case True
    then show ?thesis using ij less by auto
  next
    case False
    then show ?thesis using k ij less edge [of k] gap [of k] by auto
  qed
  moreover have "?g ((?i - 1) div 2) \<le> ?g k" if k: "k < n" "0 < k" "0 < ?i" "(k - 1) div 2 = ?i" for k
  proof -
    have up: "(?i - 1) div 2 < ?i" using k(3) by linarith
    have "f ((?i - 1) div 2) \<le> f ?i" using edge [of ?i] k(3) ij j by linarith
    then show ?thesis using k ij up edge [of k] by auto
  qed
  ultimately show ?thesis unfolding heap_above_def by blast
qed

text \<open>The child that \<open>down\<close> exchanges with node \<open>i\<close>: the smaller one.\<close>

definition small_child :: "(nat \<Rightarrow> int) \<Rightarrow> nat \<Rightarrow> nat \<Rightarrow> nat" where
  "small_child f i n =
     (if 2 * i + 2 < n \<and> f (2 * i + 2) < f (2 * i + 1) then 2 * i + 2 else 2 * i + 1)"

lemma small_child_parent: "(small_child f i n - 1) div 2 = i"
  by (simp add: small_child_def)

lemma small_child_gt: "i < small_child f i n"
  by (simp add: small_child_def)

lemma small_child_bound: "2 * i + 1 < n \<Longrightarrow> small_child f i n < n"
  by (simp add: small_child_def)

lemma small_child_least:
  assumes "k < n" and "0 < k" and "(k - 1) div 2 = i"
  shows "f (small_child f i n) \<le> f k"
proof -
  have "k = 2 * i + 1 \<or> k = 2 * i + 2" using assms(2,3) by linarith
  with assms(1) show ?thesis by (auto simp: small_child_def)
qed

lemma heap_below_leaf:
  assumes "heap_below f lo n i" and "n \<le> 2 * i + 1"
  shows "heap_from f lo n"
proof -
  have "(k - 1) div 2 \<noteq> i" if "k < n" "0 < k" for k
    using assms(2) that by linarith
  with assms(1) show ?thesis unfolding heap_below_def heap_from_def by blast
qed

lemma heap_below_done:
  assumes "heap_below f lo n i" and "\<not> f (small_child f i n) < f i"
  shows "heap_from f lo n"
  using assms small_child_least [of _ n i f] unfolding heap_below_def heap_from_def
  by (metis linorder_not_less order_trans)

lemma heap_below_step:
  assumes h: "heap_below f lo n i" and n: "2 * i + 1 < n"
    and c: "c = small_child f i n" and less: "f c < f i"
  shows "heap_below (f(i := f c, c := f i)) lo n c" (is "heap_below ?g lo n c")
proof -
  have ci: "i < c" "(c - 1) div 2 = i" "c < n"
    using c n small_child_parent [of f i n] by (simp_all add: small_child_gt small_child_bound)
  have edge: "f ((k - 1) div 2) \<le> f k"
    if "k < n" "0 < k" "lo \<le> (k - 1) div 2" "(k - 1) div 2 \<noteq> i" for k
    using h that by (auto simp: heap_below_def)
  have gap: "f ((i - 1) div 2) \<le> f k"
    if "k < n" "0 < k" "0 < i" "lo \<le> (i - 1) div 2" "(k - 1) div 2 = i" for k
    using h that by (auto simp: heap_below_def)
  have least: "f c \<le> f k" if "k < n" "0 < k" "(k - 1) div 2 = i" for k
    using small_child_least that c by blast
  have "?g ((k - 1) div 2) \<le> ?g k"
    if k: "k < n" "0 < k" "lo \<le> (k - 1) div 2" "(k - 1) div 2 \<noteq> c" for k
  proof (cases "(k - 1) div 2 = i")
    case True
    then have "k \<noteq> i" using k(2) by linarith
    then show ?thesis using True least [of k] k ci less by auto
  next
    case False
    then show ?thesis using edge [of k] gap [of c] k ci by auto
  qed
  moreover have "?g ((c - 1) div 2) \<le> ?g k"
    if k: "k < n" "0 < k" "lo \<le> (c - 1) div 2" "(k - 1) div 2 = c" for k
  proof -
    have "k \<noteq> c" "k \<noteq> i" using k(2,4) ci(1) by linarith+
    then show ?thesis using edge [of k] k ci by auto
  qed
  ultimately show ?thesis unfolding heap_below_def by blast
qed

lemma heap_root_least:
  assumes "is_heap f n" and "k < n"
  shows "f 0 \<le> f k"
  using assms(2)
proof (induction k rule: less_induct)
  case (less k)
  show ?case
  proof (cases "k = 0")
    case False
    then have "f 0 \<le> f ((k - 1) div 2)" using less by (intro less.IH) linarith+
    also have "\<dots> \<le> f k" using assms(1) less.prems False by (auto simp: is_heap_def)
    finally show ?thesis .
  qed simp
qed

section \<open>The loops on queues\<close>

lemma prio_ok_mset: "mset xs = mset ys \<Longrightarrow> prio_ok prio xs = prio_ok prio ys"
  unfolding prio_ok_def by (metis set_mset_mset)

lemma pq_Less_ok:
  assumes "prio_ok prio (items q)" and "i < length (items q)" and "j < length (items q)"
  shows "pq_Less prio q i j = Some (pr_at prio (items q) i < pr_at prio (items q) j)"
proof -
  from assms obtain a b where "prio (items q ! i) = Some a" "prio (items q ! j) = Some b"
    unfolding prio_ok_def by (meson nth_mem not_None_eq)
  with assms show ?thesis by (simp add: pq_Less_def pr_at_def)
qed

lemma pq_Swap_ok:
  "i < length (items q) \<Longrightarrow> j < length (items q) \<Longrightarrow>
   pq_Swap q i j = Some (q\<lparr>items := list_swap (items q) i j\<rparr>)"
  by (simp add: pq_Swap_def)

lemma pr_at_swap:
  assumes "i < length xs" and "j < length xs" and "k < length xs"
  shows "pr_at prio (list_swap xs i j) k = ((pr_at prio xs)(i := pr_at prio xs j, j := pr_at prio xs i)) k"
  using assms by (auto simp: pr_at_def)

lemma heap_above_swap:
  assumes "i < length xs" and "j < length xs" and "n \<le> length xs" and "m < n"
  shows "heap_above (pr_at prio (list_swap xs i j)) n m =
    heap_above ((pr_at prio xs)(i := pr_at prio xs j, j := pr_at prio xs i)) n m"
  by (rule heap_above_cong) (use assms in \<open>auto simp: pr_at_swap\<close>)

lemma heap_below_swap:
  assumes "i < length xs" and "j < length xs" and "n \<le> length xs" and "m < n"
  shows "heap_below (pr_at prio (list_swap xs i j)) lo n m =
    heap_below ((pr_at prio xs)(i := pr_at prio xs j, j := pr_at prio xs i)) lo n m"
  by (rule heap_below_cong) (use assms in \<open>auto simp: pr_at_swap\<close>)

lemma heap_up_correct:
  assumes "prio_ok prio (items h)" and "j < length (items h)"
    and "heap_above (pr_at prio (items h)) (length (items h)) j"
  shows "\<exists>h'. heap_up prio h j = Some h' \<and> mset (items h') = mset (items h) \<and>
              is_heap (pr_at prio (items h')) (length (items h'))"
  using assms
proof (induction j arbitrary: h rule: less_induct)
  case (less j)
  let ?i = "(j - 1) div 2" and ?f = "pr_at prio (items h)" and ?n = "length (items h)"
  let ?h' = "h\<lparr>items := list_swap (items h) ?i j\<rparr>"
  have i: "?i < ?n" using less.prems(2) by linarith
  show ?case
  proof (cases "?i = j \<or> \<not> ?f j < ?f ?i")
    case True
    have "is_heap ?f ?n"
    proof (cases "j = 0")
      case j0: False
      then have "?i \<noteq> j" by linarith
      with True show ?thesis using less.prems heap_above_done by blast
    qed (use less.prems(3) heap_above_root in auto)
    moreover have "heap_up prio h j = Some h"
      using True pq_Less_ok [OF less.prems(1) less.prems(2) i]
      by (subst heap_up.simps) (auto simp: Let_def)
    ultimately show ?thesis by auto
  next
    case False
    then have ij: "?i < j" by linarith
    have "heap_above (pr_at prio (items ?h')) (length (items ?h')) ?i"
      using heap_above_step [OF less.prems(3)] False ij less.prems(2) i
      by (simp add: heap_above_swap)
    moreover have "prio_ok prio (items ?h')"
      using less.prems(1,2) i prio_ok_mset [of "list_swap (items h) ?i j"] by simp
    ultimately obtain h' where "heap_up prio ?h' ?i = Some h'" "mset (items h') = mset (items ?h')"
        "is_heap (pr_at prio (items h')) (length (items h'))"
      using less.IH [OF ij, of ?h'] i by auto
    moreover have "heap_up prio h j = heap_up prio ?h' ?i"
      using False pq_Less_ok [OF less.prems(1) less.prems(2) i] pq_Swap_ok [OF i less.prems(2)]
      by (subst heap_up.simps) (simp add: Let_def)
    ultimately show ?thesis using i less.prems(2) by auto
  qed
qed

lemma heap_down_child:
  assumes ok: "prio_ok prio (items h)" and n: "n \<le> length (items h)" "2 * i + 1 < n"
  shows "heap_down prio h i n =
    (let c = small_child (pr_at prio (items h)) i n in
     if pr_at prio (items h) c < pr_at prio (items h) i
     then heap_down prio (h\<lparr>items := list_swap (items h) i c\<rparr>) c n else Some h)"
proof -
  let ?f = "pr_at prio (items h)" and ?c = "small_child (pr_at prio (items h)) i n"
  have c: "?c < length (items h)" "i < length (items h)"
    using small_child_bound [OF n(2), of ?f] n by auto
  have right: "(if 2 * i + 1 + 1 < n then pq_Less prio h (2 * i + 1 + 1) (2 * i + 1) else Some False)
      = Some (2 * i + 2 < n \<and> ?f (2 * i + 2) < ?f (2 * i + 1))"
    using n pq_Less_ok [OF ok, of "2 * i + 2" "2 * i + 1"] by simp
  have child: "(if 2 * i + 2 < n \<and> ?f (2 * i + 2) < ?f (2 * i + 1) then 2 * i + 1 + 1 else 2 * i + 1) = ?c"
    by (simp add: small_child_def)
  show ?thesis
    using n pq_Less_ok [OF ok c] pq_Swap_ok [OF c(2,1)]
    by (subst heap_down.simps) (simp only: Let_def right child Option.bind.bind_lunit not_le if_False, auto)
qed

lemma heap_down_correct:
  assumes "prio_ok prio (items h)" and "n \<le> length (items h)"
    and "heap_below (pr_at prio (items h)) lo n i"
  shows "\<exists>h'. heap_down prio h i n = Some h' \<and> mset (items h') = mset (items h) \<and>
              drop n (items h') = drop n (items h) \<and> heap_from (pr_at prio (items h')) lo n"
  using assms
proof (induction "n - i" arbitrary: h i rule: less_induct)
  case less
  let ?f = "pr_at prio (items h)" and ?c = "small_child (pr_at prio (items h)) i n"
  let ?h' = "h\<lparr>items := list_swap (items h) i ?c\<rparr>"
  show ?case
  proof (cases "2 * i + 1 < n")
    case False
    then show ?thesis
      using less.prems heap_below_leaf by (subst heap_down.simps) (auto simp: Let_def)
  next
    case n: True
    have c: "i < ?c" "?c < n" using small_child_bound [OF n] by (simp_all add: small_child_gt)
    note down = heap_down_child [OF less.prems(1,2) n, unfolded Let_def]
    show ?thesis
    proof (cases "?f ?c < ?f i")
      case False
      then show ?thesis using down heap_below_done [OF less.prems(3)] by auto
    next
      case True
      have len: "i < length (items h)" "?c < length (items h)" using c n less.prems(2) by auto
      have "heap_below (pr_at prio (items ?h')) lo n ?c"
        using heap_below_step [OF less.prems(3) n refl True] c len less.prems(2)
        by (simp add: heap_below_swap)
      moreover have "prio_ok prio (items ?h')"
        using less.prems(1) len prio_ok_mset [of "list_swap (items h) i ?c"] by simp
      moreover have dec: "n - ?c < n - i" using c by linarith
      ultimately obtain h' where h': "heap_down prio ?h' ?c n = Some h'"
          "mset (items h') = mset (items ?h')" "drop n (items h') = drop n (items ?h')"
          "heap_from (pr_at prio (items h')) lo n"
        using less.hyps [of ?c ?h'] dec less.prems(2) len by auto
      moreover have "drop n (items ?h') = drop n (items h)"
        using c n by (simp add: list_swap_def)
      ultimately show ?thesis using down True len by auto
    qed
  qed
qed

section \<open>The operations of container/heap\<close>

definition pq_inv :: "('a \<Rightarrow> int option) \<Rightarrow> 'a PriorityQueue \<Rightarrow> bool" where
  "pq_inv prio q \<longleftrightarrow> prio_ok prio (items q) \<and> is_heap (pr_at prio (items q)) (length (items q))"

lemma pq_inv_rank_min:
  assumes "pq_inv prio q" and "items q \<noteq> []" and "y \<in> set (items q)"
  shows "the (prio (items q ! 0)) \<le> the (prio y)"
  using assms heap_root_least [of "pr_at prio (items q)" "length (items q)"]
  unfolding pq_inv_def pr_at_def by (metis in_set_conv_nth)

lemma heap_Push_correct:
  assumes inv: "pq_inv prio q" and x: "prio x \<noteq> None"
  shows "\<exists>q'. heap_Push prio q (Some x) = Some q' \<and> pq_inv prio q' \<and>
              mset (items q') = add_mset x (mset (items q))"
proof -
  let ?h = "q\<lparr>items := items q @ [x]\<rparr>" and ?j = "length (items q)"
  have ok: "prio_ok prio (items ?h)" using inv x by (auto simp: pq_inv_def prio_ok_def)
  have "pr_at prio (items ?h) k = pr_at prio (items q) k" if "k < ?j" for k
    using that by (simp add: pr_at_def nth_append)
  then have "heap_above (pr_at prio (items ?h)) (length (items ?h)) ?j"
    using inv by (auto simp: heap_above_def pq_inv_def is_heap_def parent_less)
  from heap_up_correct [OF ok _ this] obtain q' where "heap_up prio ?h ?j = Some q'"
      "mset (items q') = mset (items ?h)" "is_heap (pr_at prio (items q')) (length (items q'))"
    by auto
  with ok prio_ok_mset [of "items q'" "items ?h"] show ?thesis
    by (auto simp: heap_Push_def pq_Push_def pq_Len_def pq_inv_def)
qed

lemma heap_Pop_correct:
  assumes inv: "pq_inv prio q" and ne: "items q \<noteq> []"
  shows "\<exists>q'. heap_Pop prio q = Some (items q ! 0, q') \<and> pq_inv prio q' \<and>
              mset (items q) = add_mset (items q ! 0) (mset (items q'))"
proof -
  let ?n = "length (items q) - 1"
  let ?xs = "list_swap (items q) 0 ?n" and ?h = "q\<lparr>items := list_swap (items q) 0 ?n\<rparr>"
  have n: "?n < length (items q)" "0 < length (items q)" using ne by simp_all
  have ok: "prio_ok prio (items ?h)"
    using inv n prio_ok_mset [of ?xs "items q"] by (simp add: pq_inv_def)
  have same: "pr_at prio ?xs k = pr_at prio (items q) k" if "0 < k" "k < ?n" for k
    using that n by (simp add: pr_at_def)
  have "pr_at prio ?xs ((k - 1) div 2) \<le> pr_at prio ?xs k"
    if "k < ?n" "0 < k" "(k - 1) div 2 \<noteq> 0" for k
    using that inv same parent_less [of k ?n] by (auto simp: pq_inv_def is_heap_def)
  then have "heap_below (pr_at prio (items ?h)) 0 ?n 0" by (auto simp: heap_below_def)
  from heap_down_correct [OF ok _ this] obtain h' where h': "heap_down prio ?h 0 ?n = Some h'"
      "mset (items h') = mset ?xs" "drop ?n (items h') = drop ?n ?xs"
      "is_heap (pr_at prio (items h')) ?n"
    using n by (auto simp: heap_from_0)
  have len: "length (items h') = length (items q)"
    using h'(2) mset_eq_length by (metis length_list_swap)
  have "items h' ! ?n = ?xs ! ?n"
    using h'(3) len n by (metis add_0_right length_list_swap less_imp_le_nat nth_drop)
  then have lst: "items h' ! ?n = items q ! 0" using n by simp
  let ?q' = "h'\<lparr>items := take ?n (items h')\<rparr>"
  have split: "items h' = take ?n (items h') @ [items q ! 0]"
    using lst len n by (metis Suc_pred' take_Suc_conv_app_nth take_all_iff le_refl)
  have "mset (items q) = mset (items h')" using h'(2) n by simp
  also have "\<dots> = add_mset (items q ! 0) (mset (items ?q'))"
    by (subst split) simp
  finally have bag: "mset (items q) = add_mset (items q ! 0) (mset (items ?q'))" .
  have "is_heap (pr_at prio (items ?q')) (length (items ?q'))"
    using h'(4) len n unfolding is_heap_def by (auto simp: pr_at_def)
  moreover have "prio_ok prio (items ?q')"
    using inv bag unfolding pq_inv_def prio_ok_def by (metis set_mset_mset insertCI set_mset_add_mset_insert)
  moreover have "heap_Pop prio q = Some (items q ! 0, ?q')"
    using h'(1) n lst len ne
    by (auto simp: heap_Pop_def pq_Swap_def pq_Len_def pq_Pop_def Let_def)
  ultimately show ?thesis using bag by (auto simp: pq_inv_def)
qed

lemma heap_Pop_empty: "items q = [] \<Longrightarrow> heap_Pop prio q = None"
  by (simp add: heap_Pop_def pq_Swap_def)

lemma heap_below_from: "heap_from f (Suc i) n \<Longrightarrow> heap_below f i n i"
  unfolding heap_from_def heap_below_def by auto

lemma heap_init_loop_correct:
  assumes "prio_ok prio (items h)" and "heap_from (pr_at prio (items h)) m (length (items h))"
  shows "\<exists>h'. heap_init_loop prio h m = Some h' \<and> mset (items h') = mset (items h) \<and> pq_inv prio h'"
  using assms
proof (induction m arbitrary: h)
  case 0
  then show ?case by (simp add: pq_inv_def heap_from_0)
next
  case (Suc m)
  from heap_down_correct [OF Suc.prems(1) le_refl heap_below_from [OF Suc.prems(2)]]
  obtain h1 where h1: "heap_down prio h m (length (items h)) = Some h1"
      "mset (items h1) = mset (items h)" "heap_from (pr_at prio (items h1)) m (length (items h))"
    by blast
  have len: "length (items h1) = length (items h)" using h1(2) by (rule mset_eq_length)
  have "prio_ok prio (items h1)" using Suc.prems(1) prio_ok_mset [OF h1(2)] by simp
  from Suc.IH [OF this] h1 len show ?case by (auto simp: pq_Len_def)
qed

lemma heap_Init_correct:
  assumes "prio_ok prio (items h)"
  shows "\<exists>h'. heap_Init prio h = Some h' \<and> mset (items h') = mset (items h) \<and> pq_inv prio h'"
proof -
  have "heap_from (pr_at prio (items h)) (length (items h) div 2) (length (items h))"
    unfolding heap_from_def by auto
  from heap_init_loop_correct [OF assms this] show ?thesis by (simp add: heap_Init_def pq_Len_def)
qed

lemma newPriorityQueue_eq: "newPriorityQueue prio = Some \<lparr>items = []\<rparr>"
  by (simp add: newPriorityQueue_def heap_Init_def pq_Len_def)

section \<open>The interface: a queue that serves the least rank first\<close>

text \<open>
  What a client relies on: the contents are a multiset; push adds one item; pop takes an item of
  least rank; neither panics while the invariant holds. \<open>drain\<close> pops a given number of times.
\<close>

locale min_queue =
  fixes new :: "'q option"
    and push :: "'q \<Rightarrow> 'a \<Rightarrow> 'q option"
    and pop :: "'q \<Rightarrow> ('a \<times> 'q) option"
    and len :: "'q \<Rightarrow> nat"
    and invar :: "'q \<Rightarrow> bool"
    and bag :: "'q \<Rightarrow> 'a multiset"
    and acceptable :: "'a \<Rightarrow> bool"
    and rank :: "'a \<Rightarrow> int"
  assumes new_law: "\<exists>q. new = Some q \<and> invar q \<and> bag q = {#}"
    and push_law: "invar q \<Longrightarrow> acceptable x \<Longrightarrow>
      \<exists>q'. push q x = Some q' \<and> invar q' \<and> bag q' = add_mset x (bag q)"
    and pop_law: "invar q \<Longrightarrow> bag q \<noteq> {#} \<Longrightarrow>
      \<exists>x q'. pop q = Some (x, q') \<and> invar q' \<and> bag q = add_mset x (bag q') \<and>
             (\<forall>y. y \<in># bag q \<longrightarrow> rank x \<le> rank y)"
    and len_law: "invar q \<Longrightarrow> len q = size (bag q)"
begin

fun push_all :: "'q \<Rightarrow> 'a list \<Rightarrow> 'q option" where
  "push_all q [] = Some q"
| "push_all q (x # xs) = do { q' \<leftarrow> push q x; push_all q' xs }"

fun drain :: "nat \<Rightarrow> 'q \<Rightarrow> 'a list option" where
  "drain 0 q = Some []"
| "drain (Suc n) q = do { (x, q') \<leftarrow> pop q; xs \<leftarrow> drain n q'; Some (x # xs) }"

lemma push_all_total:
  assumes "invar q" and "\<forall>x \<in> set xs. acceptable x"
  shows "\<exists>q'. push_all q xs = Some q' \<and> invar q' \<and> bag q' = bag q + mset xs"
  using assms
proof (induction xs arbitrary: q)
  case Nil
  then show ?case by simp
next
  case (Cons x xs)
  then obtain q1 where "push q x = Some q1" "invar q1" "bag q1 = add_mset x (bag q)"
    using push_law [of q x] by auto
  with Cons.IH [of q1] Cons.prems show ?case by auto
qed

lemma drain_total:
  assumes "invar q" and "n \<le> size (bag q)"
  shows "\<exists>xs. drain n q = Some xs \<and> length xs = n \<and> sorted (map rank xs) \<and> mset xs \<subseteq># bag q \<and>
              (\<forall>x y. x \<in> set xs \<longrightarrow> y \<in># bag q - mset xs \<longrightarrow> rank x \<le> rank y)"
  using assms
proof (induction n arbitrary: q)
  case 0
  then show ?case by simp
next
  case (Suc n)
  then have "bag q \<noteq> {#}" by auto
  with Suc.prems(1) obtain x q' where x: "pop q = Some (x, q')" "invar q'"
      "bag q = add_mset x (bag q')" and least: "\<And>y. y \<in># bag q \<Longrightarrow> rank x \<le> rank y"
    using pop_law [of q] by blast
  from x Suc.prems(2) Suc.IH [of q'] obtain xs where xs: "drain n q' = Some xs" "length xs = n"
      "sorted (map rank xs)" "mset xs \<subseteq># bag q'"
      "\<And>x y. x \<in> set xs \<Longrightarrow> y \<in># bag q' - mset xs \<Longrightarrow> rank x \<le> rank y"
    by auto
  have "y \<in># bag q" if "y \<in> set xs" for y
    using that xs(4) x(3) by (metis insert_DiffM insert_iff mset_subset_eqD set_mset_add_mset_insert set_mset_mset)
  moreover have "y \<in># bag q" if "y \<in># bag q' - mset xs" for y
    using in_diffD [OF that] x(3) by simp
  ultimately show ?case using x xs least by auto
qed

lemma drain_all:
  assumes "invar q"
  shows "\<exists>xs. drain (len q) q = Some xs \<and> sorted (map rank xs) \<and> mset xs = bag q"
proof -
  from drain_total [OF assms order_refl] len_law [OF assms]
  obtain xs where "drain (len q) q = Some xs" "length xs = size (bag q)" "sorted (map rank xs)"
      "mset xs \<subseteq># bag q" by auto
  then show ?thesis by (metis mset_subset_size size_mset subset_mset.le_less nat_less_le)
qed

end

interpretation heap_queue: min_queue
  "newPriorityQueue prio" "\<lambda>q x. heap_Push prio q (Some x)" "heap_Pop prio" pq_Len "pq_inv prio"
  "\<lambda>q. mset (items q)" "\<lambda>x. prio x \<noteq> None" "\<lambda>x. the (prio x)"
  for prio :: "'a \<Rightarrow> int option"
proof unfold_locales
  show "\<exists>q. newPriorityQueue prio = Some q \<and> pq_inv prio q \<and> mset (items q) = {#}"
    by (simp add: newPriorityQueue_eq pq_inv_def prio_ok_def is_heap_def)
next
  fix q :: "'a PriorityQueue" and x :: 'a
  assume "pq_inv prio q" "prio x \<noteq> None"
  then show "\<exists>q'. heap_Push prio q (Some x) = Some q' \<and> pq_inv prio q' \<and>
      mset (items q') = add_mset x (mset (items q))"
    by (rule heap_Push_correct)
next
  fix q :: "'a PriorityQueue"
  assume inv: "pq_inv prio q" and "mset (items q) \<noteq> {#}"
  then have ne: "items q \<noteq> []" by simp
  show "\<exists>x q'. heap_Pop prio q = Some (x, q') \<and> pq_inv prio q' \<and>
      mset (items q) = add_mset x (mset (items q')) \<and>
      (\<forall>y. y \<in># mset (items q) \<longrightarrow> the (prio x) \<le> the (prio y))"
    using heap_Pop_correct [OF inv ne] pq_inv_rank_min [OF inv ne] by (metis set_mset_mset)
next
  fix q :: "'a PriorityQueue"
  assume "pq_inv prio q"
  then show "pq_Len q = size (mset (items q))" by (simp add: pq_Len_def)
qed

section \<open>Heaps see nothing of an item but its priority\<close>

text \<open>
  Replacing the items of a heap by others with the same priorities commutes with every operation: the
  same exchanges are made, ties included.
\<close>

definition map_items :: "('a \<Rightarrow> 'b) \<Rightarrow> 'a PriorityQueue \<Rightarrow> 'b PriorityQueue" where
  "map_items g h = \<lparr>items = map g (items h)\<rparr>"

lemma pq_Len_map [simp]: "pq_Len (map_items g h) = pq_Len h"
  by (simp add: pq_Len_def map_items_def)

lemma pq_Less_map:
  assumes "\<And>x. prio' (g x) = prio x"
  shows "pq_Less prio' (map_items g h) i j = pq_Less prio h i j"
  using assms by (simp add: pq_Less_def map_items_def)

lemma pq_Swap_map: "pq_Swap (map_items g h) i j = map_option (map_items g) (pq_Swap h i j)"
  by (simp add: pq_Swap_def map_items_def list_swap_def map_update)

lemma heap_up_map:
  assumes "\<And>x. prio' (g x) = prio x"
  shows "heap_up prio' (map_items g h) j = map_option (map_items g) (heap_up prio h j)"
  using assms
proof (induction prio h j rule: heap_up.induct)
  case (1 prio h j)
  note less = pq_Less_map [of prio' g prio, OF "1.prems"]
  show ?case
    using "1.IH" [OF refl _ _ _ _ "1.prems"]
    by (subst (1 2) heap_up.simps) (auto simp: Let_def less pq_Swap_map map_option_bind bind_map_option intro!: Option.bind_cong [OF refl])
qed

lemma heap_down_map:
  assumes "\<And>x. prio' (g x) = prio x"
  shows "heap_down prio' (map_items g h) i n = map_option (map_items g) (heap_down prio h i n)"
  using assms
proof (induction prio h i n rule: heap_down.induct)
  case (1 prio h i n)
  note less = pq_Less_map [of prio' g prio, OF "1.prems"]
  show ?case
    using "1.IH" [OF refl _ _ refl _ _ _ "1.prems"]
    by (subst (1 2) heap_down.simps) (auto simp: Let_def less pq_Swap_map map_option_bind bind_map_option intro!: Option.bind_cong [OF refl])
qed

lemma heap_Push_map:
  assumes "\<And>x. prio' (g x) = prio x"
  shows "heap_Push prio' (map_items g h) (Some (g x)) = map_option (map_items g) (heap_Push prio h (Some x))"
proof -
  have "pq_Push (map_items g h) (Some (g x)) = map_option (map_items g) (pq_Push h (Some x))"
    by (simp add: pq_Push_def map_items_def)
  then show ?thesis using heap_up_map [of prio' g prio, OF assms]
    by (simp add: heap_Push_def map_option_bind bind_map_option comp_def)
qed

lemma heap_Pop_map:
  assumes "\<And>x. prio' (g x) = prio x"
  shows "heap_Pop prio' (map_items g h) = map_option (map_prod g (map_items g)) (heap_Pop prio h)"
proof -
  have "pq_Pop (map_items g q) = map_option (map_prod g (map_items g)) (pq_Pop q)" for q
    by (simp add: pq_Pop_def map_items_def Let_def take_map)
  then show ?thesis using heap_down_map [of prio' g prio, OF assms]
    by (simp add: heap_Pop_def pq_Swap_map map_option_bind bind_map_option comp_def)
qed

section \<open>Properties\<close>

fun heap_pops :: "('a \<Rightarrow> int option) \<Rightarrow> nat \<Rightarrow> 'a PriorityQueue \<Rightarrow> 'a list option" where
  "heap_pops prio 0 q = Some []"
| "heap_pops prio (Suc n) q = do { (x, q') \<leftarrow> heap_Pop prio q; xs \<leftarrow> heap_pops prio n q'; Some (x # xs) }"

lemma heap_pops_drain: "heap_pops prio n q = heap_queue.drain prio n q"
  by (induction n arbitrary: q) simp_all

text \<open>
  \<open>heap.Init\<close> on any slice of items followed by \<open>heap.Pop\<close> until the heap is empty sorts the items
  by \<open>Priority()\<close>: no index is ever out of range, the result is a permutation of the items, and it is
  in ascending order of priority values.
\<close>

theorem heap_Init_Pop_sorts:
  assumes "prio_ok prio xs"
  shows "\<exists>q ys. heap_Init prio \<lparr>items = xs\<rparr> = Some q \<and> heap_pops prio (length xs) q = Some ys \<and>
     mset ys = mset xs \<and> sorted (map (\<lambda>x. the (prio x)) ys)"
proof -
  obtain q where q: "heap_Init prio \<lparr>items = xs\<rparr> = Some q" "mset (items q) = mset xs" "pq_inv prio q"
    using heap_Init_correct [of prio "\<lparr>items = xs\<rparr>"] assms by auto
  have "pq_Len q = length xs" using mset_eq_length [OF q(2)] by (simp add: pq_Len_def)
  with heap_queue.drain_all [OF q(3)] q show ?thesis by (auto simp: heap_pops_drain)
qed

theorem heap_Init_Pop_sorts_witness:
  "\<exists>q ys. heap_Init Some \<lparr>items = [5, 2, 8, 1]\<rparr> = Some q \<and> heap_pops Some 4 q = Some ys \<and>
     mset ys = mset [5, 2, 8, 1] \<and> sorted ys"
proof -
  have "prio_ok Some [5, 2, 8, 1 :: int]" "length [5, 2, 8, 1 :: int] = 4" by (simp_all add: prio_ok_def)
  with heap_Init_Pop_sorts [of Some "[5, 2, 8, 1]"] show ?thesis by (simp only: option.sel list.map_ident)
qed

end
