(* ===== verification/Placement_Queue.thy ===== *)
theory Placement_Queue
  imports Api_Types Priority_Queue
begin

text \<open>
  \<open>pkg/queue/placement-request.go\<close>: the queue of placement requests of one scheduler, a
  \<open>PriorityQueue\<close> of wrapped requests, ordered by creation time, with handlers that run after
  every push. The methods hold the queue's mutex from start to end, so each is one atomic step;
  the mutex itself appears in the step relation of \<open>Queue_Iterator\<close>.

  A \<open>*PlacementRequest\<close> is an \<open>option\<close>, \<open>None\<close> for nil. A push handler is a value of the type
  \<open>'h\<close>; calling it is the argument \<open>call\<close>, which changes the state \<open>'s\<close> outside the queue. Queues
  are shared by pointer (by the controller's map, the iterator and its readers), so they live in
  a store: a list of queues, in which a \<open>*PlacementRequestQueue\<close> is \<open>None\<close> or an index.
\<close>

section \<open>One queue\<close>

datatype PrioritizedPlacementRequest = PPR (ppr_ref: "PlacementRequest option")

text \<open>\<open>Priority()\<close> dereferences the wrapped pointer; \<open>None\<close> is the panic on nil.\<close>

definition Priority :: "PrioritizedPlacementRequest \<Rightarrow> int option" where
  "Priority p = map_option (\<lambda>pr. UnixNano (CreationTimestamp pr)) (ppr_ref p)"

record 'h PlacementRequestQueue =
  queue :: "PrioritizedPlacementRequest PriorityQueue"
  pushHandlers :: "'h list"

definition Push ::
  "('h \<Rightarrow> 's \<Rightarrow> 's) \<Rightarrow> 'h PlacementRequestQueue \<Rightarrow> 's \<Rightarrow> PlacementRequest option \<Rightarrow>
   ('h PlacementRequestQueue \<times> 's) option" where
  "Push call q s pr =
     (if pr = None then None
      else do {
        h \<leftarrow> heap_Push Priority (queue q) (Some (PPR pr));
        Some (q\<lparr>queue := h\<rparr>, fold call (pushHandlers q) s)
      })"

definition Pop ::
  "'h PlacementRequestQueue \<Rightarrow> (PlacementRequest option \<times> 'h PlacementRequestQueue) option" where
  "Pop q =
     (if pq_Len (queue q) = 0 then Some (None, q)
      else do {
        (result, h) \<leftarrow> heap_Pop Priority (queue q);
        if ppr_ref result = None then None
        else Some (ppr_ref result, q\<lparr>queue := h\<rparr>)
      })"

definition AddPushHandler :: "'h PlacementRequestQueue \<Rightarrow> 'h \<Rightarrow> 'h PlacementRequestQueue" where
  "AddPushHandler q handler = q\<lparr>pushHandlers := pushHandlers q @ [handler]\<rparr>"

definition Len :: "'h PlacementRequestQueue \<Rightarrow> nat" where
  "Len q = pq_Len (queue q)"

definition NewPlacementRequestQueue :: "'h PlacementRequestQueue option" where
  "NewPlacementRequestQueue =
     do { h \<leftarrow> newPriorityQueue Priority; Some \<lparr>queue = h, pushHandlers = []\<rparr> }"

section \<open>Correctness of one queue\<close>

definition prq_inv :: "'h PlacementRequestQueue \<Rightarrow> bool" where
  "prq_inv q \<longleftrightarrow> pq_inv Priority (queue q)"

text \<open>The requests that wait in a queue, and the order in which they should leave it.\<close>

definition requests :: "'h PlacementRequestQueue \<Rightarrow> PlacementRequest multiset" where
  "requests q = image_mset (\<lambda>p. the (ppr_ref p)) (mset (items (queue q)))"

abbreviation age_rank :: "PlacementRequest \<Rightarrow> int" where
  "age_rank pr \<equiv> UnixNano (CreationTimestamp pr)"

lemma Priority_PPR [simp]: "Priority (PPR (Some pr)) = Some (age_rank pr)"
  by (simp add: Priority_def)

lemma Priority_None [simp]: "Priority p \<noteq> None \<longleftrightarrow> ppr_ref p \<noteq> None"
  by (simp add: Priority_def)

lemma NewPlacementRequestQueue_eq:
  "NewPlacementRequestQueue = Some \<lparr>queue = \<lparr>items = []\<rparr>, pushHandlers = []\<rparr>"
  by (simp add: NewPlacementRequestQueue_def newPriorityQueue_eq)

lemma new_queue_inv: "prq_inv \<lparr>queue = \<lparr>items = []\<rparr>, pushHandlers = hs\<rparr>"
  by (simp add: prq_inv_def pq_inv_def prio_ok_def is_heap_def)

lemma Len_requests: "Len q = size (requests q)"
  by (simp add: Len_def pq_Len_def requests_def)

lemma requests_empty_iff: "requests q = {#} \<longleftrightarrow> Len q = 0"
  by (simp add: Len_requests)

lemma Push_correct:
  assumes "prq_inv q"
  shows "\<exists>q'. Push call q s (Some pr) = Some (q', fold call (pushHandlers q) s) \<and> prq_inv q' \<and>
              requests q' = add_mset pr (requests q) \<and> pushHandlers q' = pushHandlers q"
  using heap_Push_correct [of Priority "queue q" "PPR (Some pr)"] assms
  by (auto simp: Push_def prq_inv_def requests_def)

lemma Push_nil [simp]: "Push call q s None = None"
  by (simp add: Push_def)

lemma Pop_empty [simp]: "Len q = 0 \<Longrightarrow> Pop q = Some (None, q)"
  by (simp add: Pop_def Len_def)

lemma Pop_correct:
  assumes inv: "prq_inv q" and ne: "Len q \<noteq> 0"
  shows "\<exists>pr q'. Pop q = Some (Some pr, q') \<and> prq_inv q' \<and> requests q = add_mset pr (requests q') \<and>
              pushHandlers q' = pushHandlers q \<and> (\<forall>y. y \<in># requests q \<longrightarrow> age_rank pr \<le> age_rank y)"
proof -
  have items: "items (queue q) \<noteq> []" using ne by (simp add: Len_def pq_Len_def)
  have q: "pq_inv Priority (queue q)" using inv by (simp add: prq_inv_def)
  let ?p = "items (queue q) ! 0"
  have "?p \<in> set (items (queue q))" using items by simp
  then obtain pr where pr: "ppr_ref ?p = Some pr"
    using q by (fastforce simp: pq_inv_def prio_ok_def Priority_def)
  from heap_Pop_correct [OF q items] obtain h where h: "heap_Pop Priority (queue q) = Some (?p, h)"
      "pq_inv Priority h" "mset (items (queue q)) = add_mset ?p (mset (items h))" by blast
  have "age_rank pr \<le> age_rank y" if y: "y \<in># requests q" for y
  proof -
    from y obtain p where p: "p \<in> set (items (queue q))" "y = the (ppr_ref p)"
      by (auto simp: requests_def)
    moreover from p(1) q have "Priority p \<noteq> None" by (simp add: pq_inv_def prio_ok_def)
    ultimately show ?thesis
      using pq_inv_rank_min [OF q items p(1)] pr by (auto simp: Priority_def)
  qed
  moreover have "Pop q = Some (Some pr, q\<lparr>queue := h\<rparr>)"
    using h(1) pr ne by (simp add: Pop_def Len_def)
  ultimately show ?thesis
    using h pr by (auto simp: prq_inv_def requests_def)
qed

text \<open>The queue of requests meets the contract of a least-rank-first queue.\<close>

interpretation request_queue: min_queue
  NewPlacementRequestQueue "\<lambda>q pr. map_option fst (Push (\<lambda>_ s. s) q () (Some pr))"
  "\<lambda>q. do { (r, q') \<leftarrow> Pop q; pr \<leftarrow> r; Some (pr, q') }" Len prq_inv requests
  "\<lambda>_. True" age_rank
proof unfold_locales
  show "\<exists>q. NewPlacementRequestQueue = Some q \<and> prq_inv q \<and> requests q = {#}"
    by (simp add: NewPlacementRequestQueue_eq new_queue_inv requests_def)
next
  fix q :: "'a PlacementRequestQueue" and pr
  assume "prq_inv q"
  then show "\<exists>q'. map_option fst (Push (\<lambda>_ s. s) q () (Some pr)) = Some q' \<and> prq_inv q' \<and>
      requests q' = add_mset pr (requests q)"
    using Push_correct [of q "\<lambda>_ s. s" "()" pr] by auto
next
  fix q :: "'a PlacementRequestQueue"
  assume "prq_inv q" "requests q \<noteq> {#}"
  then show "\<exists>x q'. do { (r, q') \<leftarrow> Pop q; pr \<leftarrow> r; Some (pr, q') } = Some (x, q') \<and> prq_inv q' \<and>
      requests q = add_mset x (requests q') \<and> (\<forall>y. y \<in># requests q \<longrightarrow> age_rank x \<le> age_rank y)"
    using Pop_correct [of q] by (fastforce simp: requests_empty_iff)
next
  fix q :: "'a PlacementRequestQueue"
  show "Len q = size (requests q)" by (rule Len_requests)
qed

section \<open>The store of queues\<close>

type_synonym 'h qstore = "'h PlacementRequestQueue list"
type_synonym qref = "nat option"

definition deref :: "'h qstore \<Rightarrow> qref \<Rightarrow> 'h PlacementRequestQueue option" where
  "deref st r = do { a \<leftarrow> r; if a < length st then Some (st ! a) else None }"

definition ref_Len :: "'h qstore \<Rightarrow> qref \<Rightarrow> nat option" where
  "ref_Len st r = map_option Len (deref st r)"

definition ref_Pop :: "'h qstore \<Rightarrow> qref \<Rightarrow> (PlacementRequest option \<times> 'h qstore) option" where
  "ref_Pop st r = do { q \<leftarrow> deref st r; (pr, q') \<leftarrow> Pop q; Some (pr, st[the r := q']) }"

definition ref_Push ::
  "('h \<Rightarrow> 's \<Rightarrow> 's) \<Rightarrow> 'h qstore \<Rightarrow> qref \<Rightarrow> 's \<Rightarrow> PlacementRequest option \<Rightarrow> ('h qstore \<times> 's) option"
  where
  "ref_Push call st r s pr =
     do { q \<leftarrow> deref st r; (q', s') \<leftarrow> Push call q s pr; Some (st[the r := q'], s') }"

definition ref_AddPushHandler :: "'h qstore \<Rightarrow> qref \<Rightarrow> 'h \<Rightarrow> 'h qstore option" where
  "ref_AddPushHandler st r handler =
     do { q \<leftarrow> deref st r; Some (st[the r := AddPushHandler q handler]) }"

definition store_inv :: "'h qstore \<Rightarrow> bool" where
  "store_inv st \<longleftrightarrow> (\<forall>q \<in> set st. prq_inv q)"

lemma store_invD: "store_inv st \<Longrightarrow> a < length st \<Longrightarrow> prq_inv (st ! a)"
  by (simp add: store_inv_def)

lemma store_inv_update: "store_inv st \<Longrightarrow> prq_inv q \<Longrightarrow> store_inv (st[a := q])"
  unfolding store_inv_def using set_update_subset_insert by fastforce

lemma deref_Some [simp]: "a < length st \<Longrightarrow> deref st (Some a) = Some (st ! a)"
  by (simp add: deref_def)

lemma ref_Len_Some [simp]: "a < length st \<Longrightarrow> ref_Len st (Some a) = Some (Len (st ! a))"
  by (simp add: ref_Len_def)

lemma ref_Pop_empty: "a < length st \<Longrightarrow> Len (st ! a) = 0 \<Longrightarrow> ref_Pop st (Some a) = Some (None, st)"
  by (simp add: ref_Pop_def)

lemma ref_Pop_nonempty:
  assumes "store_inv st" and "a < length st" and "Len (st ! a) \<noteq> 0"
  shows "\<exists>pr q'. Pop (st ! a) = Some (Some pr, q') \<and> ref_Pop st (Some a) = Some (Some pr, st[a := q']) \<and>
     store_inv (st[a := q']) \<and> requests (st ! a) = add_mset pr (requests q') \<and>
     (\<forall>y. y \<in># requests (st ! a) \<longrightarrow> age_rank pr \<le> age_rank y)"
proof -
  from Pop_correct [OF store_invD [OF assms(1,2)] assms(3)] obtain pr q' where
    "Pop (st ! a) = Some (Some pr, q')" "prq_inv q'" "requests (st ! a) = add_mset pr (requests q')"
    "\<forall>y. y \<in># requests (st ! a) \<longrightarrow> age_rank pr \<le> age_rank y" by blast
  then show ?thesis using assms by (auto simp: ref_Pop_def store_inv_update)
qed

section \<open>Properties\<close>

text \<open>Pushing a list of requests, and popping until nil.\<close>

fun push_requests ::
  "('h \<Rightarrow> 's \<Rightarrow> 's) \<Rightarrow> 'h PlacementRequestQueue \<Rightarrow> 's \<Rightarrow> PlacementRequest list \<Rightarrow> ('h PlacementRequestQueue \<times> 's) option" where
  "push_requests call q s [] = Some (q, s)"
| "push_requests call q s (pr # prs) = do { (q', s') \<leftarrow> Push call q s (Some pr); push_requests call q' s' prs }"

fun pop_requests :: "nat \<Rightarrow> 'h PlacementRequestQueue \<Rightarrow> PlacementRequest list option" where
  "pop_requests 0 q = None"
| "pop_requests (Suc n) q =
     do { (r, q') \<leftarrow> Pop q;
          case r of None \<Rightarrow> Some [] | Some pr \<Rightarrow> do { prs \<leftarrow> pop_requests n q'; Some (pr # prs) } }"

lemma push_requests_total:
  "prq_inv q \<Longrightarrow> \<exists>q' s'. push_requests call q s prs = Some (q', s') \<and> prq_inv q' \<and> requests q' = requests q + mset prs"
proof (induction prs arbitrary: q s)
  case Nil
  then show ?case by simp
next
  case (Cons pr prs)
  from Push_correct [OF Cons.prems, of call s pr] obtain q1 where
    "Push call q s (Some pr) = Some (q1, fold call (pushHandlers q) s)" "prq_inv q1"
    "requests q1 = add_mset pr (requests q)" by blast
  with Cons.IH [of q1 "fold call (pushHandlers q) s"] show ?case by auto
qed

lemma pop_requests_total:
  "prq_inv q \<Longrightarrow> Len q < n \<Longrightarrow>
   \<exists>prs. pop_requests n q = Some prs \<and> mset prs = requests q \<and> sorted (map age_rank prs)"
proof (induction n arbitrary: q)
  case 0
  then show ?case by simp
next
  case (Suc n)
  show ?case
  proof (cases "Len q = 0")
    case True
    then show ?thesis by (simp add: requests_empty_iff)
  next
    case False
    from Pop_correct [OF Suc.prems(1) False] obtain pr q' where
      p: "Pop q = Some (Some pr, q')" "prq_inv q'" "requests q = add_mset pr (requests q')"
        "\<forall>y. y \<in># requests q \<longrightarrow> age_rank pr \<le> age_rank y" by blast
    with Suc.prems(2) have "Len q' < n" by (simp add: Len_requests)
    with Suc.IH [OF p(2)] obtain prs where
      r: "pop_requests n q' = Some prs" "mset prs = requests q'" "sorted (map age_rank prs)" by blast
    have "age_rank pr \<le> age_rank y" if "y \<in> set prs" for y
      using p(3,4) r(2) that by (metis insert_iff set_mset_add_mset_insert set_mset_mset)
    with p r show ?thesis by simp
  qed
qed

text \<open>
  C9: a queue serves its requests oldest first. Pushing any requests, in any order, into a new queue and
  popping until nil never panics and returns exactly the requests pushed, each once, in order of
  their creation times (for times whose nanoseconds fit an \<open>int64\<close>, the years 1678 to 2262).
\<close>

theorem queue_serves_oldest_first:
  assumes "\<forall>pr \<in> set prs. nano_time (CreationTimestamp pr)"
  shows "\<exists>q q' s' out. NewPlacementRequestQueue = Some q \<and> push_requests call q s prs = Some (q', s') \<and>
     pop_requests (Suc (length prs)) q' = Some out \<and> mset out = mset prs \<and> sorted (map CreationTimestamp out)"
proof -
  let ?q = "\<lparr>queue = \<lparr>items = []\<rparr>, pushHandlers = []\<rparr>"
  have "requests ?q = {#}" by (simp add: requests_def)
  with push_requests_total [OF new_queue_inv, of call "[]" s prs] obtain q' s' where
    q': "push_requests call ?q s prs = Some (q', s')" "prq_inv q'" "requests q' = mset prs" by auto
  then have "Len q' < Suc (length prs)" by (simp add: Len_requests)
  from pop_requests_total [OF q'(2) this] q'(3) obtain out where
    o: "pop_requests (Suc (length prs)) q' = Some out" "mset out = mset prs" "sorted (map age_rank out)" by auto
  have "set out = set prs" using o(2) by (rule mset_eq_setD)
  then have nano: "\<forall>x \<in> set out. nano_time (CreationTimestamp x)" using assms by simp
  have "sorted (map CreationTimestamp out)"
    using o(3) nano by (simp add: sorted_iff_nth_mono) (metis UnixNano_mono nth_mem order_le_less_trans)
  with q' o show ?thesis by (auto simp: NewPlacementRequestQueue_eq)
qed

definition prioritized_request :: "string \<Rightarrow> int \<Rightarrow> int \<Rightarrow> PlacementRequest" where
  "prioritized_request name secs priority =
     \<lparr>Name = name, Namespace = '''', CreationTimestamp = Time secs 0, DeletionTimestamp = None, OwnerReferences = [],
      Spec = \<lparr>Policy = PlacementRequestPolicyLenient, spec_Priority = priority, SchedulerName = '''', Bindings = []\<rparr>,
      Status = \<lparr>Result = '''', Reason = '''', Message = '''', st_Bindings = []\<rparr>\<rparr>"

text \<open>Changing requests in a way that keeps their creation times commutes with the operations.\<close>

definition map_queue :: "(PlacementRequest \<Rightarrow> PlacementRequest) \<Rightarrow> 'h PlacementRequestQueue \<Rightarrow> 'h PlacementRequestQueue" where
  "map_queue f q = q\<lparr>queue := map_items (\<lambda>x. PPR (map_option f (ppr_ref x))) (queue q)\<rparr>"

lemma Priority_map:
  assumes "\<And>pr. CreationTimestamp (f pr) = CreationTimestamp pr"
  shows "Priority (PPR (map_option f (ppr_ref x))) = Priority x"
  using assms by (simp add: Priority_def option.map_comp comp_def)

lemma Push_map:
  assumes "\<And>pr. CreationTimestamp (f pr) = CreationTimestamp pr"
  shows "Push call (map_queue f q) s (Some (f pr)) = map_option (map_prod (map_queue f) id) (Push call q s (Some pr))"
  using heap_Push_map [of Priority "\<lambda>x. PPR (map_option f (ppr_ref x))" Priority "queue q" "PPR (Some pr)", OF Priority_map [OF assms]]
  by (simp add: Push_def map_queue_def map_option_bind bind_map_option comp_def)

lemma Pop_map:
  assumes "\<And>pr. CreationTimestamp (f pr) = CreationTimestamp pr"
  shows "Pop (map_queue f q) = map_option (map_prod (map_option f) (map_queue f)) (Pop q)"
  using heap_Pop_map [of Priority "\<lambda>x. PPR (map_option f (ppr_ref x))" Priority "queue q", OF Priority_map [OF assms]]
  by (auto simp: Pop_def map_queue_def map_option_bind bind_map_option comp_def intro!: Option.bind_cong)

lemma push_requests_map:
  assumes "\<And>pr. CreationTimestamp (f pr) = CreationTimestamp pr"
  shows "push_requests call (map_queue f q) s (map f prs) = map_option (map_prod (map_queue f) id) (push_requests call q s prs)"
  by (induction prs arbitrary: q s) (auto simp: Push_map [OF assms] map_option_bind bind_map_option comp_def split_beta)

lemma pop_requests_map:
  assumes "\<And>pr. CreationTimestamp (f pr) = CreationTimestamp pr"
  shows "pop_requests n (map_queue f q) = map_option (map f) (pop_requests n q)"
  by (induction n arbitrary: q)
     (auto simp: Pop_map [OF assms] map_option_bind bind_map_option comp_def split_beta intro!: Option.bind_cong split: option.splits)

text \<open>The same requests with other values of \<open>Spec.Priority\<close>.\<close>

abbreviation reprioritize :: "(PlacementRequest \<Rightarrow> int) \<Rightarrow> PlacementRequest \<Rightarrow> PlacementRequest" where
  "reprioritize p pr \<equiv> pr\<lparr>Spec := (Spec pr)\<lparr>spec_Priority := p pr\<rparr>\<rparr>"

text \<open>
  C40: the priority of a request in its spec plays no role in the order. Push any requests into a new
  queue and pop until nil; then do the same with arbitrary other values of \<open>Spec.Priority\<close>. Neither run
  panics, the handlers are called alike, and the requests leave the queue in the same order, also those
  created at the same time.
\<close>

theorem spec_priority_ignored:
  "\<exists>q q1 q2 s' out. NewPlacementRequestQueue = Some q \<and>
     push_requests call q s prs = Some (q1, s') \<and> pop_requests (Suc (length prs)) q1 = Some out \<and>
     push_requests call q s (map (reprioritize p) prs) = Some (q2, s') \<and>
     pop_requests (Suc (length prs)) q2 = Some (map (reprioritize p) out) \<and> mset out = mset prs"
proof -
  let ?q = "\<lparr>queue = \<lparr>items = []\<rparr>, pushHandlers = []\<rparr>"
  let ?f = "reprioritize p"
  have f: "CreationTimestamp (?f pr) = CreationTimestamp pr" for pr by simp
  have new: "map_queue ?f ?q = ?q" by (simp add: map_queue_def map_items_def)
  have "requests ?q = {#}" by (simp add: requests_def)
  with push_requests_total [OF new_queue_inv, of call "[]" s prs] obtain q1 s' where
    q1: "push_requests call ?q s prs = Some (q1, s')" "prq_inv q1" "requests q1 = mset prs" by auto
  then have "Len q1 < Suc (length prs)" by (simp add: Len_requests)
  from pop_requests_total [OF q1(2) this] q1(3) obtain out where
    out: "pop_requests (Suc (length prs)) q1 = Some out" "mset out = mset prs" by auto
  have "push_requests call ?q s (map ?f prs) = Some (map_queue ?f q1, s')"
    using push_requests_map [of ?f call ?q s prs, OF f] q1(1) unfolding new by simp
  moreover have "pop_requests (Suc (length prs)) (map_queue ?f q1) = Some (map ?f out)"
    using pop_requests_map [of ?f "Suc (length prs)" q1, OF f] out(1) by simp
  ultimately show ?thesis using q1(1) out by (auto simp: NewPlacementRequestQueue_eq)
qed

theorem queue_serves_oldest_first_witness:
  "\<exists>q q' s' out. NewPlacementRequestQueue = Some q \<and>
     push_requests (\<lambda>(_ :: unit) s. s) q () [prioritized_request ''young'' 20 0, prioritized_request ''old'' 10 0] = Some (q', s') \<and>
     pop_requests 3 q' = Some out \<and> mset out = mset [prioritized_request ''young'' 20 0, prioritized_request ''old'' 10 0] \<and>
     sorted (map CreationTimestamp out)"
proof -
  let ?prs = "[prioritized_request ''young'' 20 0, prioritized_request ''old'' 10 0]"
  have "\<forall>pr \<in> set ?prs. nano_time (CreationTimestamp pr)"
    by (simp add: prioritized_request_def nano_time_def)
  moreover have "Suc (length ?prs) = 3" by simp
  ultimately show ?thesis
    using queue_serves_oldest_first [of ?prs "\<lambda>(_ :: unit) s. s" "()"] by (simp only:)
qed

end
