(* ===== verification/Queue_Config.thy ===== *)
theory Queue_Config
  imports Placement_Queue
begin

text \<open>
  \<open>pkg/queue/config.go\<close>: a queue configuration is the configured \<open>Queue\<close> (embedded, hence a record
  extension) with the reference to its queue object. Errors are values of \<open>config_error\<close>, one
  constructor for each \<open>fmt.Errorf\<close>. The lemmas characterise what a successful validation means,
  what the name map holds, and which queue objects a configuration from the file owns.
\<close>

section \<open>Definitions\<close>

record QueueConfig = Queue +
  QueueRef :: qref

type_synonym QueueConfigs = "QueueConfig list"

datatype config_error =
  EmptyQueueName
| ZeroWeight
| ZeroMaxSize
| NilQueueRef
| DuplicateConfig string
| InvalidConfig string config_error

definition QueueConfig_Validate :: "QueueConfig \<Rightarrow> config_error option" where
  "QueueConfig_Validate c =
     (if q_SchedulerName c = '''' then Some EmptyQueueName
      else if Weight c = 0 then Some ZeroWeight
      else if MaxSize c = 0 then Some ZeroMaxSize
      else if QueueRef c = None then Some NilQueueRef
      else None)"

definition ToMap :: "QueueConfigs \<Rightarrow> (string \<rightharpoonup> QueueConfig)" where
  "ToMap cs = foldl (\<lambda>m cfg. m(q_SchedulerName cfg \<mapsto> cfg)) Map.empty cs"

fun QueueConfigs_AddPushHandler :: "'h qstore \<Rightarrow> QueueConfigs \<Rightarrow> 'h \<Rightarrow> 'h qstore option" where
  "QueueConfigs_AddPushHandler st [] handler = Some st"
| "QueueConfigs_AddPushHandler st (c # cs) handler =
     do { st' \<leftarrow> ref_AddPushHandler st (QueueRef c) handler;
          QueueConfigs_AddPushHandler st' cs handler }"

fun validate_loop :: "string set \<Rightarrow> QueueConfigs \<Rightarrow> config_error option" where
  "validate_loop seen [] = None"
| "validate_loop seen (cfg # cs) =
     (if q_SchedulerName cfg \<in> seen then Some (DuplicateConfig (q_SchedulerName cfg))
      else case QueueConfig_Validate cfg of
        Some err \<Rightarrow> Some (InvalidConfig (q_SchedulerName cfg) err)
      | None \<Rightarrow> validate_loop (insert (q_SchedulerName cfg) seen) cs)"

definition QueueConfigs_Validate :: "QueueConfigs \<Rightarrow> config_error option" where
  "QueueConfigs_Validate cs = validate_loop {} cs"

fun from_queues_loop ::
  "QueueConfigs \<Rightarrow> 'h qstore \<Rightarrow> Queue list \<Rightarrow> (QueueConfigs \<times> 'h qstore) option" where
  "from_queues_loop configs st [] = Some (configs, st)"
| "from_queues_loop configs st (config # rest) =
     do { q \<leftarrow> NewPlacementRequestQueue;
          from_queues_loop
            (configs @ [Queue.extend config \<lparr>QueueRef = Some (length st)\<rparr>]) (st @ [q]) rest }"

definition QueueConfigFromV1Alpha1Config ::
  "'h qstore \<Rightarrow> Configuration \<Rightarrow> (QueueConfigs \<times> 'h qstore) option" where
  "QueueConfigFromV1Alpha1Config st raw = from_queues_loop [] st (Queues raw)"

section \<open>Validation\<close>

definition config_ok :: "QueueConfig \<Rightarrow> bool" where
  "config_ok c \<longleftrightarrow>
     q_SchedulerName c \<noteq> '''' \<and> 0 < uint (Weight c) \<and> 0 < uint (MaxSize c) \<and> QueueRef c \<noteq> None"

lemma uint_pos_iff: "0 < uint (u :: uint) \<longleftrightarrow> u \<noteq> 0"
  by (metis less_eq_int_code(1) linorder_not_less uint_0_iff uint_ge_0 order_antisym_conv)

lemma QueueConfig_Validate_None: "QueueConfig_Validate c = None \<longleftrightarrow> config_ok c"
  by (simp add: QueueConfig_Validate_def config_ok_def uint_pos_iff)

lemma validate_loop_None:
  "validate_loop seen cs = None \<longleftrightarrow>
     (\<forall>c \<in> set cs. config_ok c) \<and> distinct (map q_SchedulerName cs) \<and>
     set (map q_SchedulerName cs) \<inter> seen = {}"
  by (induction seen cs rule: validate_loop.induct)
     (auto simp flip: QueueConfig_Validate_None split: option.splits)

lemma QueueConfigs_Validate_None:
  "QueueConfigs_Validate cs = None \<longleftrightarrow>
     (\<forall>c \<in> set cs. config_ok c) \<and> distinct (map q_SchedulerName cs)"
  by (simp add: QueueConfigs_Validate_def validate_loop_None)

text \<open>A failing validation reports the first entry that is wrong, a repeated name before all else.\<close>

lemma validate_loop_first:
  assumes "validate_loop seen cs = Some e"
  shows "\<exists>pre c post. cs = pre @ c # post \<and> validate_loop seen pre = None \<and>
     (if q_SchedulerName c \<in> seen \<union> set (map q_SchedulerName pre)
      then e = DuplicateConfig (q_SchedulerName c)
      else \<exists>e'. QueueConfig_Validate c = Some e' \<and> e = InvalidConfig (q_SchedulerName c) e')"
  using assms
proof (induction seen cs rule: validate_loop.induct)
  case (1 seen)
  then show ?case by simp
next
  case (2 seen cfg cs)
  show ?case
  proof (cases "q_SchedulerName cfg \<in> seen \<or> QueueConfig_Validate cfg \<noteq> None")
    case True
    then have "cfg # cs = [] @ cfg # cs \<and> validate_loop seen [] = None \<and>
        (if q_SchedulerName cfg \<in> seen \<union> set (map q_SchedulerName [])
         then e = DuplicateConfig (q_SchedulerName cfg)
         else \<exists>e'. QueueConfig_Validate cfg = Some e' \<and> e = InvalidConfig (q_SchedulerName cfg) e')"
      using "2.prems" by (auto split: if_splits option.splits)
    then show ?thesis by blast
  next
    case False
    with "2.prems" have "validate_loop (insert (q_SchedulerName cfg) seen) cs = Some e" by simp
    from "2.IH" [OF _ _ this] False obtain pre c post where
      "cs = pre @ c # post" "validate_loop (insert (q_SchedulerName cfg) seen) pre = None"
      "if q_SchedulerName c \<in> insert (q_SchedulerName cfg) seen \<union> set (map q_SchedulerName pre)
       then e = DuplicateConfig (q_SchedulerName c)
       else \<exists>e'. QueueConfig_Validate c = Some e' \<and> e = InvalidConfig (q_SchedulerName c) e'"
      by auto
    with False show ?thesis by (intro exI [of _ "cfg # pre"] exI [of _ c] exI [of _ post]) auto
  qed
qed

section \<open>The map by name\<close>

lemma ToMap_snoc: "ToMap (cs @ [c]) = (ToMap cs)(q_SchedulerName c \<mapsto> c)"
  by (simp add: ToMap_def)

text \<open>The last entry of a name wins.\<close>

lemma ToMap_last:
  "ToMap cs name = (if name \<in> set (map q_SchedulerName cs)
     then Some (last (filter (\<lambda>c. q_SchedulerName c = name) cs)) else None)"
proof (induction cs rule: rev_induct)
  case Nil
  then show ?case by (simp add: ToMap_def)
next
  case (snoc c cs)
  then show ?case by (auto simp: ToMap_snoc)
qed

lemma ToMap_distinct:
  assumes "distinct (map q_SchedulerName cs)"
  shows "ToMap cs name = Some c \<longleftrightarrow> c \<in> set cs \<and> q_SchedulerName c = name"
  using assms
proof (induction cs rule: rev_induct)
  case Nil
  then show ?case by (simp add: ToMap_def)
next
  case (snoc x cs)
  then show ?case by (auto simp: ToMap_snoc) (metis imageI)
qed

section \<open>Configurations from the file\<close>

definition config_refs :: "QueueConfigs \<Rightarrow> qref list" where
  "config_refs cs = map QueueRef cs"

text \<open>Every entry gets a queue of its own: the references are the fresh addresses, in order.\<close>

lemma from_queues_loop_eq:
  "from_queues_loop configs st qs =
     Some (configs @ map (\<lambda>(i, c). Queue.extend c \<lparr>QueueRef = Some i\<rparr>) (enumerate (length st) qs),
           st @ replicate (length qs) \<lparr>queue = \<lparr>items = []\<rparr>, pushHandlers = []\<rparr>)"
  by (induction configs st qs rule: from_queues_loop.induct)
     (simp_all add: NewPlacementRequestQueue_eq)

lemma QueueConfigFromV1Alpha1Config_eq:
  "QueueConfigFromV1Alpha1Config st raw =
     Some (map (\<lambda>(i, c). Queue.extend c \<lparr>QueueRef = Some i\<rparr>) (enumerate (length st) (Queues raw)),
           st @ replicate (length (Queues raw)) \<lparr>queue = \<lparr>items = []\<rparr>, pushHandlers = []\<rparr>)"
  by (simp add: QueueConfigFromV1Alpha1Config_def from_queues_loop_eq)

lemma extend_fields [simp]:
  "q_SchedulerName (Queue.extend c r) = q_SchedulerName c"
  "Weight (Queue.extend c r) = Weight c" "MaxSize (Queue.extend c r) = MaxSize c"
  "QueueRef (Queue.extend c \<lparr>QueueRef = x\<rparr>) = x"
  by (simp_all add: Queue.extend_def)

lemma map_enumerate_fields:
  "map q_SchedulerName (map (\<lambda>(i, c). Queue.extend c \<lparr>QueueRef = Some i\<rparr>) (enumerate n qs)) =
     map q_SchedulerName qs"
  "config_refs (map (\<lambda>(i, c). Queue.extend c \<lparr>QueueRef = Some i\<rparr>) (enumerate n qs)) =
     map Some [n ..< n + length qs]"
  by (induction qs arbitrary: n) (simp_all add: config_refs_def upt_rec)

definition queue_ok :: "Queue \<Rightarrow> bool" where
  "queue_ok q \<longleftrightarrow> q_SchedulerName q \<noteq> '''' \<and> 0 < uint (Weight q) \<and> 0 < uint (MaxSize q)"

lemma enumerate_config_ok:
  "(\<forall>c \<in> set (map (\<lambda>(i, c). Queue.extend c \<lparr>QueueRef = Some i\<rparr>) (enumerate n qs)). config_ok c) \<longleftrightarrow>
     (\<forall>q \<in> set qs. queue_ok q)"
  by (induction qs arbitrary: n) (simp_all add: config_ok_def queue_ok_def)

text \<open>The configuration read from the file passes the queue validation exactly if it should.\<close>

lemma from_file_Validate:
  assumes "QueueConfigFromV1Alpha1Config st raw = Some (cs, st')"
  shows "QueueConfigs_Validate cs = None \<longleftrightarrow>
     (\<forall>q \<in> set (Queues raw). queue_ok q) \<and> distinct (map q_SchedulerName (Queues raw))"
  using assms enumerate_config_ok [of "length st" "Queues raw"] map_enumerate_fields(1) [of "length st" "Queues raw"]
  by (auto simp: QueueConfigFromV1Alpha1Config_eq QueueConfigs_Validate_None simp del: map_map)

section \<open>Push handlers\<close>

lemma ref_AddPushHandler_in_range:
  "a < length st \<Longrightarrow>
   ref_AddPushHandler st (Some a) h = Some (st[a := AddPushHandler (st ! a) h])"
  by (simp add: ref_AddPushHandler_def)

lemma AddPushHandler_frame [simp]:
  "Len (AddPushHandler q h) = Len q" "requests (AddPushHandler q h) = requests q"
  "prq_inv (AddPushHandler q h) = prq_inv q"
  by (simp_all add: AddPushHandler_def Len_def requests_def prq_inv_def)

text \<open>With distinct references every configured queue gets the handler once; contents stay.\<close>

lemma QueueConfigs_AddPushHandler_correct:
  assumes "distinct (config_refs cs)" and "\<forall>c \<in> set cs. \<exists>a < length st. QueueRef c = Some a"
  shows "\<exists>st'. QueueConfigs_AddPushHandler st cs h = Some st' \<and> length st' = length st \<and>
     (\<forall>a < length st. st' ! a =
        (if Some a \<in> set (config_refs cs) then AddPushHandler (st ! a) h else st ! a))"
  using assms
proof (induction cs arbitrary: st)
  case Nil
  then show ?case by (simp add: config_refs_def)
next
  case (Cons c cs)
  then obtain a where a: "a < length st" "QueueRef c = Some a" by auto
  let ?st = "st[a := AddPushHandler (st ! a) h]"
  have "distinct (config_refs cs)" "\<forall>c \<in> set cs. \<exists>b < length ?st. QueueRef c = Some b"
    using Cons.prems by (simp_all add: config_refs_def)
  from Cons.IH [OF this] obtain st' where st': "QueueConfigs_AddPushHandler ?st cs h = Some st'"
      "length st' = length ?st"
      "\<forall>b < length ?st. st' ! b =
        (if Some b \<in> set (config_refs cs) then AddPushHandler (?st ! b) h else ?st ! b)" by blast
  have "Some a \<notin> set (config_refs cs)" using Cons.prems(1) a by (simp add: config_refs_def)
  with st' a show ?case
    by (auto simp: ref_AddPushHandler_in_range config_refs_def nth_list_update)
qed

section \<open>Properties\<close>

text \<open>
  What each message of \<open>QueueConfig.Validate\<close> says of an entry: the fault it names is there, and none
  of those that come before it.
\<close>

fun first_fault :: "QueueConfig \<Rightarrow> config_error \<Rightarrow> bool" where
  "first_fault c EmptyQueueName \<longleftrightarrow> q_SchedulerName c = ''''"
| "first_fault c ZeroWeight \<longleftrightarrow> q_SchedulerName c \<noteq> '''' \<and> uint (Weight c) = 0"
| "first_fault c ZeroMaxSize \<longleftrightarrow> q_SchedulerName c \<noteq> '''' \<and> 0 < uint (Weight c) \<and> uint (MaxSize c) = 0"
| "first_fault c NilQueueRef \<longleftrightarrow>
     q_SchedulerName c \<noteq> '''' \<and> 0 < uint (Weight c) \<and> 0 < uint (MaxSize c) \<and> QueueRef c = None"
| "first_fault c (DuplicateConfig _) \<longleftrightarrow> False"
| "first_fault c (InvalidConfig _ _) \<longleftrightarrow> False"

lemma QueueConfig_Validate_first_fault: "QueueConfig_Validate c = Some e \<longleftrightarrow> first_fault c e"
  by (cases e) (auto simp: QueueConfig_Validate_def uint_0_iff word_neq_0_conv word_less_def)

text \<open>
  C37: \<open>QueueConfigs.Validate\<close> accepts exactly the configurations in which every entry has a name, a positive
  weight, a positive maximal size and a queue, and no name occurs twice. Otherwise it reports the first
  offending entry: as a duplicate if its name occurred before, else with the first of its faults, in the
  order empty name, zero weight, zero maximal size, no queue.
\<close>

theorem QueueConfigs_Validate_spec:
  "(QueueConfigs_Validate cs = None \<longleftrightarrow> (\<forall>c \<in> set cs. config_ok c) \<and> distinct (map q_SchedulerName cs)) \<and>
   (\<forall>e. QueueConfigs_Validate cs = Some e \<longrightarrow>
      (\<exists>pre c post. cs = pre @ c # post \<and> QueueConfigs_Validate pre = None \<and>
         (if q_SchedulerName c \<in> set (map q_SchedulerName pre) then e = DuplicateConfig (q_SchedulerName c)
          else \<exists>e'. first_fault c e' \<and> e = InvalidConfig (q_SchedulerName c) e')))"
  unfolding QueueConfig_Validate_first_fault [symmetric]
  using QueueConfigs_Validate_None [of cs] validate_loop_first [of "{}" cs]
  by (simp add: QueueConfigs_Validate_def)

text \<open>An entry with three faults is reported for the first.\<close>

theorem QueueConfigs_Validate_spec_witness:
  "let bad = \<lparr>q_SchedulerName = ''a'', Weight = 0, MaxSize = 0, q_Plugins = \<lparr>plug_Validate = \<lparr>Enabled = [], Disabled = []\<rparr>\<rparr>,
       QueueRef = None\<rparr> in
   \<exists>e. QueueConfigs_Validate [bad] = Some (InvalidConfig ''a'' e) \<and> first_fault bad e \<and> e = ZeroWeight"
proof -
  let ?bad = "\<lparr>q_SchedulerName = ''a'', Weight = 0, MaxSize = 0, q_Plugins = \<lparr>plug_Validate = \<lparr>Enabled = [], Disabled = []\<rparr>\<rparr>,
    QueueRef = None\<rparr> :: QueueConfig"
  have "\<not> config_ok ?bad" by (simp add: config_ok_def)
  with QueueConfigs_Validate_spec [of "[?bad]"] obtain e' where
    "QueueConfigs_Validate [?bad] = Some (InvalidConfig ''a'' e')" "first_fault ?bad e'"
    by (auto simp: Cons_eq_append_conv)
  moreover from this(2) have "e' = ZeroWeight" by (cases e') simp_all
  ultimately show ?thesis unfolding Let_def by blast
qed

text \<open>
  \<open>QueueConfigFromV1Alpha1Config\<close> never fails and makes, for each configured queue in order, an entry with its
  name, weight and maximal size and a new, empty queue of its own; the map \<open>ToMap\<close> then finds for a name
  the last entry configured with it, and nothing for other names.
\<close>

theorem queues_from_config:
  "\<exists>cs st'. QueueConfigFromV1Alpha1Config st raw = Some (cs, st') \<and> length cs = length (Queues raw) \<and>
     take (length st) st' = st \<and> length st' = length st + length (Queues raw) \<and>
     map (\<lambda>c. (q_SchedulerName c, Weight c, MaxSize c)) cs = map (\<lambda>q. (q_SchedulerName q, Weight q, MaxSize q)) (Queues raw) \<and>
     map QueueRef cs = map Some [length st ..< length st'] \<and>
     map requests (drop (length st) st') = replicate (length cs) {#} \<and>
     ToMap cs = (\<lambda>name. if name \<in> set (map q_SchedulerName (Queues raw))
       then Some (last (filter (\<lambda>c. q_SchedulerName c = name) cs)) else None)"
proof -
  let ?cs = "map (\<lambda>(i, c). Queue.extend c \<lparr>QueueRef = Some i\<rparr>) (enumerate (length st) (Queues raw))"
  have fields: "map (\<lambda>c. (q_SchedulerName c, Weight c, MaxSize c)) (map (\<lambda>(i, c). Queue.extend c \<lparr>QueueRef = Some i\<rparr>) (enumerate n qs)) =
      map (\<lambda>q. (q_SchedulerName q, Weight q, MaxSize q)) qs" for n and qs :: "Queue list"
    by (induction qs arbitrary: n) simp_all
  have "map QueueRef ?cs = map Some [length st ..< length st + length (Queues raw)]"
    using map_enumerate_fields(2) [of "length st" "Queues raw"] unfolding config_refs_def .
  moreover have "ToMap ?cs = (\<lambda>name. if name \<in> set (map q_SchedulerName (Queues raw))
       then Some (last (filter (\<lambda>c. q_SchedulerName c = name) ?cs)) else None)"
    unfolding ToMap_last [abs_def] map_enumerate_fields(1) ..
  ultimately show ?thesis
    unfolding QueueConfigFromV1Alpha1Config_eq using fields [of "length st" "Queues raw"]
    by (intro exI [of _ ?cs] exI [of _ "st @ replicate (length (Queues raw)) \<lparr>queue = \<lparr>items = []\<rparr>, pushHandlers = []\<rparr>"])
       (simp add: requests_def del: map_map)
qed

end
