(* ===== verification/Reader_Interface.thy ===== *)
theory Reader_Interface
  imports Queue_Config
begin

text \<open>
  \<open>pkg/queue/reader.go\<close>: the \<open>Reader\<close> interface, as a locale. A reader owns a private state and
  serves a set of queues of the store; \<open>Read\<close> pops one request from one of them, or returns nil if
  there is nothing to read. The locale's laws are the contract stated in the comment of the
  interface, sharpened: nil is returned only when every queue served is empty and a request comes
  from the front of one queue, the others untouched. Its lemma is what the iterator relies on:
  reading until nil returns every waiting request exactly once, oldest first within each queue.
  Both readers of the program are interpretations of it.
\<close>

definition pops_one :: "'h qstore \<Rightarrow> nat set \<Rightarrow> nat \<Rightarrow> PlacementRequest \<Rightarrow> 'h qstore \<Rightarrow> bool" where
  "pops_one st S a pr st' \<longleftrightarrow>
     a \<in> S \<and> (\<exists>q'. Pop (st ! a) = Some (Some pr, q') \<and> st' = st[a := q'])"

definition all_empty :: "'h qstore \<Rightarrow> nat set \<Rightarrow> bool" where
  "all_empty st S \<longleftrightarrow> (\<forall>a \<in> S. Len (st ! a) = 0)"

definition served_ok :: "'h qstore \<Rightarrow> nat set \<Rightarrow> bool" where
  "served_ok st S \<longleftrightarrow> store_inv st \<and> S \<subseteq> {..<length st}"

text \<open>The addresses a list of queue configurations refers to.\<close>

definition addresses :: "('a QueueConfig_scheme) list \<Rightarrow> nat set" where
  "addresses cs = {a. \<exists>c \<in> set cs. QueueRef c = Some a}"

definition refs_ok :: "'h qstore \<Rightarrow> ('a QueueConfig_scheme) list \<Rightarrow> bool" where
  "refs_ok st cs \<longleftrightarrow> store_inv st \<and> (\<forall>c \<in> set cs. \<exists>a < length st. QueueRef c = Some a)"

lemma addresses_image: "addresses cs = {a. Some a \<in> QueueRef ` set cs}"
  by (auto simp: addresses_def image_iff) metis

lemma refs_ok_image: "refs_ok st cs \<longleftrightarrow> store_inv st \<and> (\<forall>x \<in> QueueRef ` set cs. \<exists>a < length st. x = Some a)"
  by (auto simp: refs_ok_def)

lemma refs_ok_served: "refs_ok st cs \<Longrightarrow> served_ok st (addresses cs)"
  by (auto simp: refs_ok_def served_ok_def addresses_def)

lemma Pop_nonempty_of_Some: "Pop q = Some (Some pr, q') \<Longrightarrow> Len q \<noteq> 0"
  using Pop_empty [of q] by auto

lemma Pop_Some_inv:
  assumes "prq_inv q" and "Pop q = Some (Some pr, q')"
  shows "prq_inv q' \<and> requests q = add_mset pr (requests q') \<and>
     pushHandlers q' = pushHandlers q \<and> (\<forall>y. y \<in># requests q \<longrightarrow> age_rank pr \<le> age_rank y)"
  using Pop_correct [OF assms(1) Pop_nonempty_of_Some [OF assms(2)]] assms(2) by auto

lemma pops_one_served_ok:
  assumes "served_ok st S" and "pops_one st S a pr st'"
  shows "served_ok st' S"
  using assms Pop_Some_inv [of "st ! a" pr]
  by (auto simp: served_ok_def pops_one_def store_inv_update store_invD subset_eq)

lemma pops_one_contents:
  assumes "served_ok st S" and "pops_one st S a pr st'"
  shows "requests (st ! a) = add_mset pr (requests (st' ! a))"
    and "b \<noteq> a \<Longrightarrow> st' ! b = st ! b"
    and "y \<in># requests (st ! a) \<Longrightarrow> age_rank pr \<le> age_rank y"
  using assms Pop_Some_inv [of "st ! a" pr]
  by (auto simp: served_ok_def pops_one_def store_invD subset_eq)

text \<open>How many requests wait in the queues of a set.\<close>

definition backlog :: "'h qstore \<Rightarrow> nat set \<Rightarrow> nat" where
  "backlog st S = (\<Sum>a \<in> S. Len (st ! a))"

lemma served_finite: "served_ok st S \<Longrightarrow> finite S"
  unfolding served_ok_def using finite_subset by blast

lemma pops_one_backlog:
  assumes "served_ok st S" and "pops_one st S a pr st'"
  shows "backlog st S = Suc (backlog st' S)"
proof -
  have "a \<in> S" using assms(2) by (simp add: pops_one_def)
  moreover have "Len (st ! a) = Suc (Len (st' ! a))"
    using pops_one_contents(1) [OF assms] by (simp add: Len_requests)
  moreover have "(\<Sum>b \<in> S - {a}. Len (st ! b)) = (\<Sum>b \<in> S - {a}. Len (st' ! b))"
    using pops_one_contents(2) [OF assms] by (intro sum.cong) auto
  ultimately show ?thesis
    using served_finite [OF assms(1)] by (simp add: backlog_def sum.remove)
qed

lemma backlog_0: "served_ok st S \<Longrightarrow> backlog st S = 0 \<longleftrightarrow> all_empty st S"
  using served_finite [of st S] by (auto simp: backlog_def all_empty_def)

text \<open>What a read of the queues \<open>S\<close> may return, and how it changes the store.\<close>

definition read_result :: "'h qstore \<Rightarrow> nat set \<Rightarrow> PlacementRequest option \<Rightarrow> 'h qstore \<Rightarrow> bool" where
  "read_result st S res st' \<longleftrightarrow>
     (case res of None \<Rightarrow> st' = st \<and> all_empty st S | Some pr \<Rightarrow> \<exists>a. pops_one st S a pr st')"

lemma read_result_insert:
  "Len (st ! a) = 0 \<Longrightarrow> read_result st S res st' \<Longrightarrow> read_result st (insert a S) res st'"
  by (auto simp: read_result_def all_empty_def pops_one_def split: option.splits)

lemma read_result_refs_ok:
  assumes "refs_ok st cs" and "read_result st (addresses cs) res st'"
  shows "refs_ok st' cs"
proof (cases res)
  case None
  then show ?thesis using assms by (simp add: read_result_def)
next
  case (Some pr)
  with assms(2) obtain a where a: "pops_one st (addresses cs) a pr st'" by (auto simp: read_result_def)
  then have "length st' = length st" by (auto simp: pops_one_def)
  moreover have "store_inv st'"
    using pops_one_served_ok [OF refs_ok_served [OF assms(1)] a] by (simp add: served_ok_def)
  ultimately show ?thesis using assms(1) by (simp add: refs_ok_def)
qed

section \<open>Reading until nil\<close>

text \<open>
  The iterator's loop over a reader, \<open>for p := reader.Read(ctx); p != nil; p = reader.Read(ctx)\<close>, with
  the requests it yields collected in a list and at most \<open>n\<close> reads.
\<close>

fun read_loop ::
  "('r \<Rightarrow> 'h qstore \<Rightarrow> (PlacementRequest option \<times> 'r \<times> 'h qstore) option) \<Rightarrow> nat \<Rightarrow> 'r \<Rightarrow> 'h qstore \<Rightarrow>
   (PlacementRequest list \<times> 'r \<times> 'h qstore) option" where
  "read_loop read 0 r st = None"
| "read_loop read (Suc n) r st =
     do { (res, r', st') \<leftarrow> read r st;
          case res of
            None \<Rightarrow> Some ([], r', st')
          | Some pr \<Rightarrow> do { (prs, r'', st'') \<leftarrow> read_loop read n r' st'; Some (pr # prs, r'', st'') } }"

text \<open>
  The list \<open>prs\<close> splits over the queues: \<open>tags\<close> names the queue each request came from, and for
  every queue the requests with its tag are its contents, in order of age.
\<close>

definition delivers :: "'h qstore \<Rightarrow> nat set \<Rightarrow> PlacementRequest list \<Rightarrow> bool" where
  "delivers st S prs \<longleftrightarrow>
     (\<exists>tags. length tags = length prs \<and> set tags \<subseteq> S \<and>
        (\<forall>a \<in> S. let mine = map snd (filter (\<lambda>(t, _). t = a) (zip tags prs)) in
           mset mine = requests (st ! a) \<and> sorted (map age_rank mine)))"

lemma delivers_empty:
  assumes "all_empty st S"
  shows "delivers st S []"
proof -
  have "requests (st ! a) = {#}" if "a \<in> S" for a
    using assms that by (simp add: all_empty_def requests_empty_iff)
  then show ?thesis unfolding delivers_def by (intro exI [of _ "[]"]) simp
qed

lemma delivers_pop:
  assumes ok: "served_ok st S" and pop: "pops_one st S a pr st'" and rest: "delivers st' S prs"
  shows "delivers st S (pr # prs)"
proof -
  from rest obtain tags where tags: "length tags = length prs" "set tags \<subseteq> S"
      "\<And>b. b \<in> S \<Longrightarrow> mset (map snd (filter (\<lambda>(t, _). t = b) (zip tags prs))) = requests (st' ! b)"
      "\<And>b. b \<in> S \<Longrightarrow> sorted (map age_rank (map snd (filter (\<lambda>(t, _). t = b) (zip tags prs))))"
    unfolding delivers_def by (auto simp: Let_def)
  note c = pops_one_contents [OF ok pop]
  have aS: "a \<in> S" using pop by (simp add: pops_one_def)
  have least: "age_rank pr \<le> age_rank y"
    if "y \<in> set (map snd (filter (\<lambda>(t, _). t = a) (zip tags prs)))" for y
  proof -
    have "y \<in># mset (map snd (filter (\<lambda>(t, _). t = a) (zip tags prs)))"
      using that by (simp only: set_mset_mset)
    then show ?thesis using c(1,3) tags(3) [OF aS] by (metis insert_iff set_mset_add_mset_insert)
  qed
  have "mset (map snd (filter (\<lambda>(t, _). t = b) (zip (a # tags) (pr # prs)))) = requests (st ! b) \<and>
        sorted (map age_rank (map snd (filter (\<lambda>(t, _). t = b) (zip (a # tags) (pr # prs)))))"
    if "b \<in> S" for b
    using tags(3,4) [OF that] c(1) c(2) [of b] least by (cases "b = a") auto
  moreover have "length (a # tags) = length (pr # prs)" "set (a # tags) \<subseteq> S"
    using tags aS by auto
  ultimately show ?thesis unfolding delivers_def Let_def by blast
qed

section \<open>The contract\<close>

locale queue_reader =
  fixes read :: "'r \<Rightarrow> 'h qstore \<Rightarrow> (PlacementRequest option \<times> 'r \<times> 'h qstore) option"
    and ready :: "'r \<Rightarrow> 'h qstore \<Rightarrow> bool"
    and serves :: "'r \<Rightarrow> nat set"
  assumes ready_law: "ready r st \<Longrightarrow> served_ok st (serves r)"
    and read_law: "ready r st \<Longrightarrow>
      \<exists>res r' st'. read r st = Some (res, r', st') \<and> ready r' st' \<and> serves r' = serves r \<and>
        read_result st (serves r) res st'"
begin

lemma read_loop_delivers:
  assumes "ready r st" and "backlog st (serves r) < n"
  shows "\<exists>prs r' st'. read_loop read n r st = Some (prs, r', st') \<and> ready r' st' \<and> serves r' = serves r \<and>
     all_empty st' (serves r) \<and> delivers st (serves r) prs"
  using assms
proof (induction n arbitrary: r st)
  case 0
  then show ?case by simp
next
  case (Suc n)
  note ok = ready_law [OF Suc.prems(1)]
  from read_law [OF Suc.prems(1)] obtain res r1 st1 where
    rd: "read r st = Some (res, r1, st1)" "ready r1 st1" "serves r1 = serves r"
      "read_result st (serves r) res st1" by blast
  show ?case
  proof (cases res)
    case None
    with rd delivers_empty show ?thesis by (auto simp: read_result_def)
  next
    case (Some pr)
    with rd obtain a where pop: "pops_one st (serves r) a pr st1" by (auto simp: read_result_def)
    have "backlog st1 (serves r1) < n"
      using pops_one_backlog [OF ok pop] Suc.prems(2) rd(3) by simp
    from Suc.IH [OF rd(2) this] obtain prs r2 st2 where
      "read_loop read n r1 st1 = Some (prs, r2, st2)" "ready r2 st2" "serves r2 = serves r"
      "all_empty st2 (serves r)" "delivers st1 (serves r) prs" by (auto simp: rd(3))
    with rd(1) Some delivers_pop [OF ok pop] show ?thesis by auto
  qed
qed

end

end
