(* ===== verification/Samples.thy ===== *)
theory Samples
  imports Reader_Interface
begin

text \<open>
  Small concrete data shared by the witnesses: requests with a creation time and one binding for each
  pod name, queues with at most one request, two validated queue configurations.
\<close>

definition sample_request :: "string \<Rightarrow> int \<Rightarrow> string list \<Rightarrow> PlacementRequest" where
  "sample_request name secs pods =
     \<lparr>Name = name, Namespace = ''default'', CreationTimestamp = Time secs 0, DeletionTimestamp = None,
      OwnerReferences = [],
      Spec = \<lparr>Policy = PlacementRequestPolicyLenient, spec_Priority = 0, SchedulerName = ''a'',
        Bindings = map (\<lambda>p. \<lparr>PodName = p, PodUID = ''uid-'' @ p, NodeName = ''node''\<rparr>) pods\<rparr>,
      Status = \<lparr>Result = PlacementRequestResultUnknown, Reason = '''', Message = '''', st_Bindings = []\<rparr>\<rparr>"

definition sample_queue :: "PlacementRequest list \<Rightarrow> unit PlacementRequestQueue" where
  "sample_queue prs = \<lparr>queue = \<lparr>items = map (\<lambda>pr. PPR (Some pr)) prs\<rparr>, pushHandlers = []\<rparr>"

definition first_request :: PlacementRequest where
  "first_request = sample_request ''first'' 10 [''p'', ''q'']"

definition second_request :: PlacementRequest where
  "second_request = sample_request ''second'' 20 [''r'']"

definition sample_store :: "unit qstore" where
  "sample_store = [sample_queue [first_request], sample_queue [second_request]]"

definition sample_config :: "string \<Rightarrow> uint \<Rightarrow> nat \<Rightarrow> QueueConfig" where
  "sample_config name weight a =
     \<lparr>q_SchedulerName = name, Weight = weight, MaxSize = 100,
      q_Plugins = \<lparr>plug_Validate = \<lparr>Enabled = [], Disabled = []\<rparr>\<rparr>, QueueRef = Some a\<rparr>"

definition sample_configs :: QueueConfigs where
  "sample_configs = [sample_config ''a'' 1 0, sample_config ''b'' 3 1]"

lemma prq_inv_sample [simp]: "length prs \<le> 1 \<Longrightarrow> prq_inv (sample_queue prs)"
  by (cases prs) (auto simp: sample_queue_def prq_inv_def pq_inv_def prio_ok_def is_heap_def)

lemma Len_sample [simp]: "Len (sample_queue prs) = length prs"
  by (simp add: sample_queue_def Len_def pq_Len_def)

lemma store_inv_sample [simp]: "store_inv sample_store"
  by (simp add: store_inv_def sample_store_def)

lemma sample_store_simps [simp]:
  "length sample_store = 2" "sample_store ! 0 = sample_queue [first_request]"
  "sample_store ! 1 = sample_queue [second_request]" "sample_store ! Suc 0 = sample_queue [second_request]"
  by (simp_all add: sample_store_def)

lemma sample_config_simps [simp]:
  "q_SchedulerName (sample_config n w a) = n" "Weight (sample_config n w a) = w"
  "QueueRef (sample_config n w a) = Some a" "MaxSize (sample_config n w a) = 100"
  by (simp_all add: sample_config_def)

lemma refs_ok_samples [simp]: "refs_ok sample_store sample_configs"
  by (simp add: refs_ok_def sample_configs_def)

lemma addresses_samples [simp]: "addresses sample_configs = {0, 1}"
  by (auto simp: addresses_def sample_configs_def)

lemma backlog_samples [simp]: "backlog sample_store {0, Suc 0} = 2"
  by (simp add: backlog_def)

end
