(* ===== verification/Uniform_Reader.thy ===== *)
theory Uniform_Reader
  imports Samples
begin

text \<open>
  \<open>pkg/queue/uniform.go\<close>: the reader that picks queues at random, by weight. The random numbers
  are an infinite supply \<open>\<omega>\<close> of natural numbers, one for each call of \<open>rand.Intn\<close>, reduced into the
  range asked for: every sequence of results \<open>rand.Intn\<close> can return is that of some \<open>\<omega>\<close>, so a
  statement for all \<open>\<omega>\<close> is one for every outcome. \<open>rand.Intn\<close> panics on a range that is not
  positive.

  The lemmas show that the selection never fails on validated weights whose sum fits an \<open>int\<close>, that
  of the \<open>total\<close> equally likely numbers exactly \<open>Weight\<close> many select a queue, and that the reader
  meets the contract of \<open>queue_reader\<close>.
\<close>

section \<open>Definitions\<close>

type_synonym rand_source = "nat \<Rightarrow> nat"

definition rand_Intn :: "rand_source \<Rightarrow> int \<Rightarrow> (int \<times> rand_source) option" where
  "rand_Intn \<omega> n = (if n \<le> 0 then None else Some (int (\<omega> 0) mod n, \<lambda>k. \<omega> (Suc k)))"

fun total_loop :: "int \<Rightarrow> QueueConfigs \<Rightarrow> int" where
  "total_loop tot [] = tot"
| "total_loop tot (config # cs) = total_loop (wrap64 (tot + sint (Weight config))) cs"

fun select_loop :: "int \<Rightarrow> int \<Rightarrow> nat \<Rightarrow> QueueConfigs \<Rightarrow> nat option" where
  "select_loop selected sm i [] = None"
| "select_loop selected sm i (config # cs) =
     (let sm' = wrap64 (sm + sint (Weight config)) in
      if selected \<le> sm' then Some i else select_loop selected sm' (Suc i) cs)"

definition uniform_next :: "rand_source \<Rightarrow> QueueConfigs \<Rightarrow> (nat \<times> rand_source) option" where
  "uniform_next \<omega> configs =
     do { (r, \<omega>') \<leftarrow> rand_Intn \<omega> (total_loop 0 configs);
          i \<leftarrow> select_loop (wrap64 (r + 1)) 0 0 configs;
          Some (i, \<omega>') }"

text \<open>\<open>slices.Delete(configs, i, i+1)\<close> panics out of range.\<close>

definition slices_Delete :: "'a list \<Rightarrow> nat \<Rightarrow> 'a list option" where
  "slices_Delete xs i = (if i < length xs then Some (take i xs @ drop (Suc i) xs) else None)"

fun uniform_loop ::
  "nat \<Rightarrow> QueueConfigs \<Rightarrow> rand_source \<Rightarrow> 'h qstore \<Rightarrow>
   (PlacementRequest option \<times> rand_source \<times> 'h qstore) option" where
  "uniform_loop 0 configs \<omega> st = Some (None, \<omega>, st)"
| "uniform_loop (Suc n) configs \<omega> st =
     do { (qidx, \<omega>') \<leftarrow> uniform_next \<omega> configs;
          cfg \<leftarrow> (if qidx < length configs then Some (configs ! qidx) else None);
          (pr, st') \<leftarrow> ref_Pop st (QueueRef cfg);
          if pr \<noteq> None then Some (pr, \<omega>', st')
          else do { configs' \<leftarrow> slices_Delete configs qidx; uniform_loop n configs' \<omega>' st' } }"

record UniformReader =
  u_configs :: QueueConfigs

definition uniform_Read ::
  "UniformReader \<Rightarrow> rand_source \<Rightarrow> 'h qstore \<Rightarrow>
   (PlacementRequest option \<times> rand_source \<times> 'h qstore) option" where
  "uniform_Read u \<omega> st = uniform_loop (length (u_configs u)) ([] @ u_configs u) \<omega> st"

definition NewUniformReader :: "QueueConfigs \<Rightarrow> UniformReader" where
  "NewUniformReader configs = \<lparr>u_configs = configs\<rparr>"

section \<open>Selection by weight\<close>

definition weight_sum :: "QueueConfigs \<Rightarrow> int" where
  "weight_sum cs = (\<Sum>c \<leftarrow> cs. uint (Weight c))"

definition weights_ok :: "QueueConfigs \<Rightarrow> bool" where
  "weights_ok cs \<longleftrightarrow> (\<forall>c \<in> set cs. 0 < uint (Weight c)) \<and> weight_sum cs < 2 ^ 63"

lemma weight_sum_simps [simp]:
  "weight_sum [] = 0" "weight_sum (c # cs) = uint (Weight c) + weight_sum cs"
  "weight_sum (cs @ ds) = weight_sum cs + weight_sum ds"
  by (simp_all add: weight_sum_def)

lemma weight_sum_nonneg: "0 \<le> weight_sum cs"
  by (induction cs) simp_all

lemma weight_sum_pos: "weights_ok cs \<Longrightarrow> cs \<noteq> [] \<Longrightarrow> 0 < weight_sum cs"
  by (cases cs) (auto simp: weights_ok_def add_pos_nonneg weight_sum_nonneg)

lemma sint_Weight:
  assumes "weight_sum (c # cs) < 2 ^ 63"
  shows "sint (Weight c) = uint (Weight c)"
  using assms weight_sum_nonneg [of cs] by (intro sint_uint_small) simp

lemma wrap64_weight:
  assumes "0 \<le> s" and "s + weight_sum (c # cs) < 2 ^ 63"
  shows "wrap64 (s + sint (Weight c)) = s + uint (Weight c)"
proof -
  have "weight_sum (c # cs) < 2 ^ 63" using assms by simp
  from sint_Weight [OF this] have "s + sint (Weight c) = s + uint (Weight c)" by simp
  moreover have "0 \<le> s + uint (Weight c)" using assms(1) by simp
  moreover have "s + uint (Weight c) < 2 ^ 63" using assms(2) weight_sum_nonneg [of cs] by simp
  ultimately show ?thesis by (simp only:) (rule wrap64_id, linarith+)
qed

lemma total_loop_eq:
  assumes "0 \<le> t" and "t + weight_sum cs < 2 ^ 63"
  shows "total_loop t cs = t + weight_sum cs"
  using assms
proof (induction t cs rule: total_loop.induct)
  case (1 t)
  then show ?case by simp
next
  case (2 t c cs)
  note w = wrap64_weight [OF "2.prems"]
  show ?case using "2.IH" "2.prems" by (simp only: total_loop.simps w) simp
qed

text \<open>
  The number \<open>selected\<close> chooses the queue in whose share it falls: queue \<open>i\<close> owns the numbers after
  the weights before it, up to and with its own.
\<close>

definition owns :: "QueueConfigs \<Rightarrow> int \<Rightarrow> nat \<Rightarrow> bool" where
  "owns cs selected i \<longleftrightarrow> i < length cs \<and>
     weight_sum (take i cs) < selected \<and> selected \<le> weight_sum (take (Suc i) cs)"

lemma owns_Cons:
  assumes "0 < selected"
  shows "owns (c # cs) selected i \<longleftrightarrow>
    (case i of 0 \<Rightarrow> selected \<le> uint (Weight c)
     | Suc j \<Rightarrow> uint (Weight c) < selected \<and> owns cs (selected - uint (Weight c)) j)"
  using assms weight_sum_nonneg by (auto simp: owns_def split: nat.split) (smt (verit) weight_sum_nonneg)

lemma select_loop_owns:
  assumes "0 \<le> sm" and "sm < selected" and "sm + weight_sum cs < 2 ^ 63"
  shows "select_loop selected sm k cs = Some j \<longleftrightarrow> (\<exists>i. j = k + i \<and> owns cs (selected - sm) i)"
  using assms
proof (induction selected sm k cs rule: select_loop.induct)
  case (1 selected sm k)
  then show ?case by (simp add: owns_def)
next
  case (2 selected sm k c cs)
  note w = wrap64_weight [OF "2.prems"(1,3)]
  have pos: "0 < selected - sm" using "2.prems" by simp
  show ?case
  proof (cases "selected \<le> sm + uint (Weight c)")
    case True
    then have "owns (c # cs) (selected - sm) i \<longleftrightarrow> i = 0" for i
      using pos by (cases i) (simp_all add: owns_Cons)
    with True show ?thesis by (auto simp: w Let_def)
  next
    case False
    have "select_loop selected (sm + uint (Weight c)) (Suc k) cs = Some j \<longleftrightarrow>
        (\<exists>i. j = Suc k + i \<and> owns cs (selected - (sm + uint (Weight c))) i)"
      using "2.IH" [OF refl] False "2.prems" by (simp add: w)
    also have "\<dots> \<longleftrightarrow> (\<exists>i. j = k + i \<and> owns (c # cs) (selected - sm) i)"
    proof -
      have "owns (c # cs) (selected - sm) 0 = False" using False pos by (simp add: owns_Cons)
      moreover have "owns (c # cs) (selected - sm) (Suc i) = owns cs (selected - (sm + uint (Weight c))) i" for i
        using False pos by (simp add: owns_Cons algebra_simps)
      ultimately show ?thesis by (metis add_Suc_right add_Suc_shift not0_implies_Suc)
    qed
    finally show ?thesis using False by (simp add: w Let_def)
  qed
qed

lemma owner_exists:
  assumes "0 < selected" and "selected \<le> weight_sum cs"
  shows "\<exists>i. owns cs selected i"
  using assms
proof (induction cs arbitrary: selected)
  case Nil
  then show ?case by simp
next
  case (Cons c cs)
  show ?case
  proof (cases "selected \<le> uint (Weight c)")
    case True
    then show ?thesis using Cons.prems by (intro exI [of _ 0]) (simp add: owns_Cons)
  next
    case False
    then obtain i where "owns cs (selected - uint (Weight c)) i" using Cons by fastforce
    with False show ?thesis using Cons.prems by (intro exI [of _ "Suc i"]) (simp add: owns_Cons)
  qed
qed

lemma select_in_range:
  assumes "weights_ok cs" and "0 \<le> r" and "r < weight_sum cs"
  shows "select_loop (wrap64 (r + 1)) 0 0 cs = Some i \<longleftrightarrow> owns cs (r + 1) i"
proof -
  have "wrap64 (r + 1) = r + 1" using assms by (simp add: weights_ok_def)
  then show ?thesis using assms select_loop_owns [of 0 "r + 1" cs 0] by (simp add: weights_ok_def)
qed

lemma uniform_next_correct:
  assumes "weights_ok cs" and "cs \<noteq> []"
  shows "\<exists>i. i < length cs \<and> uniform_next \<omega> cs = Some (i, \<lambda>k. \<omega> (Suc k)) \<and>
             owns cs (int (\<omega> 0) mod weight_sum cs + 1) i"
proof -
  let ?r = "int (\<omega> 0) mod weight_sum cs"
  have pos: "0 < weight_sum cs" using weight_sum_pos [OF assms] .
  then have r: "0 \<le> ?r" "?r < weight_sum cs" by simp_all
  obtain i where i: "owns cs (?r + 1) i" using owner_exists [of "?r + 1" cs] r by auto
  then have "select_loop (wrap64 (?r + 1)) 0 0 cs = Some i" using select_in_range [OF assms(1) r] by simp
  moreover have "total_loop 0 cs = weight_sum cs" using assms by (simp add: total_loop_eq weights_ok_def)
  ultimately have "uniform_next \<omega> cs = Some (i, \<lambda>k. \<omega> (Suc k))"
    using pos by (simp add: uniform_next_def rand_Intn_def)
  then show ?thesis using i by (auto simp: owns_def)
qed

section \<open>The reader meets its contract\<close>

lemma delete_weights_ok:
  assumes "weights_ok cs" and "i < length cs"
  shows "weights_ok (take i cs @ drop (Suc i) cs)"
proof -
  have "weight_sum cs = weight_sum (take i cs @ drop (Suc i) cs) + uint (Weight (cs ! i))"
    using assms(2) by (subst id_take_nth_drop [OF assms(2)]) simp
  then have "weight_sum (take i cs @ drop (Suc i) cs) \<le> weight_sum cs" by simp
  then show ?thesis
    using assms(1) set_take_subset [of i cs] set_drop_subset [of "Suc i" cs]
    by (auto simp: weights_ok_def simp del: weight_sum_simps)
qed

lemma delete_addresses:
  assumes "i < length cs" and "QueueRef (cs ! i) = Some a"
  shows "addresses cs = insert a (addresses (take i cs @ drop (Suc i) cs))"
proof -
  have "set cs = insert (cs ! i) (set (take i cs @ drop (Suc i) cs))"
    using assms(1) by (subst id_take_nth_drop [OF assms(1)]) auto
  then show ?thesis using assms(2) by (auto simp: addresses_def)
qed

lemma delete_refs_ok: "refs_ok st cs \<Longrightarrow> refs_ok st (take i cs @ drop (Suc i) cs)"
  using set_take_subset [of i cs] set_drop_subset [of "Suc i" cs] by (auto simp: refs_ok_def)

lemma uniform_loop_step:
  assumes "uniform_next \<omega> cs = Some (i, \<omega>')" and "i < length cs" and "QueueRef (cs ! i) = Some a"
    and "ref_Pop st (Some a) = Some (pr, st')"
  shows "uniform_loop (Suc n) cs \<omega> st =
    (if pr \<noteq> None then Some (pr, \<omega>', st') else uniform_loop n (take i cs @ drop (Suc i) cs) \<omega>' st')"
  using assms by (simp add: slices_Delete_def)

lemma uniform_loop_correct:
  assumes "weights_ok cs" and "refs_ok st cs"
  shows "\<exists>res \<omega>' st'. uniform_loop (length cs) cs \<omega> st = Some (res, \<omega>', st') \<and>
     read_result st (addresses cs) res st'"
  using assms
proof (induction "length cs" arbitrary: cs \<omega>)
  case 0
  then show ?case by (simp add: read_result_def all_empty_def addresses_def)
next
  case (Suc n)
  then have "cs \<noteq> []" by auto
  from uniform_next_correct [OF Suc.prems(1) this] obtain i where
    i: "i < length cs" "uniform_next \<omega> cs = Some (i, \<lambda>k. \<omega> (Suc k))" by blast
  obtain a where a: "a < length st" "QueueRef (cs ! i) = Some a"
    using Suc.prems(2) nth_mem [OF i(1)] unfolding refs_ok_def by blast
  have st: "store_inv st" using Suc.prems(2) by (simp add: refs_ok_def)
  have aS: "a \<in> addresses cs" using a i(1) by (auto simp: addresses_def intro!: bexI [of _ "cs ! i"])
  let ?cs = "take i cs @ drop (Suc i) cs" and ?\<omega> = "\<lambda>k. \<omega> (Suc k)"
  show ?case
  proof (cases "Len (st ! a) = 0")
    case True
    have "n = length ?cs" using Suc.hyps(2) i(1) by simp
    from Suc.hyps(1) [OF this delete_weights_ok [OF Suc.prems(1) i(1)] delete_refs_ok [OF Suc.prems(2)], of ?\<omega>]
    obtain res \<omega>' st' where "uniform_loop (length ?cs) ?cs ?\<omega> st = Some (res, \<omega>', st')"
      "read_result st (addresses ?cs) res st'" by blast
    moreover have "uniform_loop (length cs) cs \<omega> st = uniform_loop (length ?cs) ?cs ?\<omega> st"
      unfolding Suc.hyps(2) [symmetric] \<open>n = length ?cs\<close> [symmetric]
      using uniform_loop_step [OF i(2,1) a(2) ref_Pop_empty [OF a(1) True]] by simp
    ultimately show ?thesis
      using read_result_insert [OF True] delete_addresses [OF i(1) a(2)] by auto
  next
    case False
    from ref_Pop_nonempty [OF st a(1) False] obtain pr q' where
      "Pop (st ! a) = Some (Some pr, q')" "ref_Pop st (Some a) = Some (Some pr, st[a := q'])" by blast
    then have "uniform_loop (length cs) cs \<omega> st = Some (Some pr, ?\<omega>, st[a := q']) \<and>
        pops_one st (addresses cs) a pr (st[a := q'])"
      unfolding Suc.hyps(2) [symmetric] using aS i a by (simp add: pops_one_def)
    then show ?thesis by (auto simp: read_result_def)
  qed
qed

text \<open>The reader's state is its configuration together with the rest of the random numbers.\<close>

definition uniform_step ::
  "UniformReader \<times> rand_source \<Rightarrow> 'h qstore \<Rightarrow>
   (PlacementRequest option \<times> (UniformReader \<times> rand_source) \<times> 'h qstore) option" where
  "uniform_step r st =
     do { (res, \<omega>', st') \<leftarrow> uniform_Read (fst r) (snd r) st; Some (res, (fst r, \<omega>'), st') }"

definition uniform_ready :: "UniformReader \<times> rand_source \<Rightarrow> 'h qstore \<Rightarrow> bool" where
  "uniform_ready r st \<longleftrightarrow> weights_ok (u_configs (fst r)) \<and> refs_ok st (u_configs (fst r))"

interpretation uniform: queue_reader
  uniform_step uniform_ready "\<lambda>r. addresses (u_configs (fst r))"
proof unfold_locales
  fix r and st :: "'h qstore"
  assume "uniform_ready r st"
  then show "served_ok st (addresses (u_configs (fst r)))"
    by (simp add: uniform_ready_def refs_ok_served)
next
  fix r and st :: "'h qstore"
  assume rdy: "uniform_ready r st"
  let ?cs = "u_configs (fst r)"
  from rdy uniform_loop_correct [of ?cs st "snd r"] obtain res \<omega>' st' where
    u: "uniform_loop (length ?cs) ?cs (snd r) st = Some (res, \<omega>', st')"
      "read_result st (addresses ?cs) res st'" by (auto simp: uniform_ready_def)
  have "uniform_step r st = Some (res, (fst r, \<omega>'), st')"
    using u(1) by (simp add: uniform_step_def uniform_Read_def)
  moreover have "uniform_ready (fst r, \<omega>') st'"
    using rdy read_result_refs_ok [OF _ u(2)] by (simp add: uniform_ready_def)
  ultimately show "\<exists>res r' st'. uniform_step r st = Some (res, r', st') \<and> uniform_ready r' st' \<and>
      addresses (u_configs (fst r')) = addresses (u_configs (fst r)) \<and>
      read_result st (addresses (u_configs (fst r))) res st'"
    using u(2) by (intro exI [of _ res] exI [of _ "(fst r, \<omega>')"] exI [of _ st']) simp
qed

section \<open>Properties\<close>




text \<open>
  C14: reading until nil with the uniform reader delivers everything. On validated weights whose sum
  fits an \<open>int\<close> and queues of the store, for every sequence of random numbers, the loop that reads
  until nil ends after as many reads as there are requests, plus one, without a panic; it empties the
  queues, and the requests it returned are exactly those that were waiting, in order of age within
  each queue.
\<close>

theorem uniform_reads_everything:
  assumes "weights_ok cs" and "refs_ok st cs" and "backlog st (addresses cs) < n"
  shows "\<exists>prs r' st'. read_loop uniform_step n (NewUniformReader cs, \<omega>) st = Some (prs, r', st') \<and>
     all_empty st' (addresses cs) \<and> delivers st (addresses cs) prs"
  using uniform.read_loop_delivers [of "(NewUniformReader cs, \<omega>)" st n] assms
  by (auto simp: uniform_ready_def NewUniformReader_def)

theorem uniform_reads_everything_witness:
  "\<exists>prs r' st'. read_loop uniform_step 3 (NewUniformReader sample_configs, \<lambda>k. 5 * k) sample_store = Some (prs, r', st') \<and>
     all_empty st' (addresses sample_configs) \<and> delivers sample_store (addresses sample_configs) prs"
proof -
  have "weights_ok sample_configs" by (simp add: weights_ok_def sample_configs_def)
  then show ?thesis using uniform_reads_everything [of sample_configs sample_store 3 "\<lambda>k. 5 * k"] by simp
qed

end
