(* ===== verification/Go_Float64.thy ===== *)
theory Go_Float64
  imports Complex_Main "HOL-Library.Log_Nat" Kombiner_Base
begin

text \<open>
  The fragment of Go's \<open>float64\<close> arithmetic that \<open>pkg/queue/round-robin.go\<close> uses: conversion of an
  unsigned integer, division, multiplication, \<open>math.Ceil\<close> and conversion back to \<open>int\<close>. Every value
  there is a positive normal number between \<open>2 powi -64\<close> and \<open>2 powi 70\<close>, so a float is the rational
  number it denotes, and each operation is the exact result rounded by \<open>rnd64\<close>: 53 significant
  bits, to nearest, ties to even (IEEE 754 binary64, without the exponent bounds, which the
  values never meet). Zeros, infinities and NaN do not occur: the divisor is checked to be
  nonzero before the division.
\<close>

section \<open>Rounding\<close>

definition rne :: "rat \<Rightarrow> int" where
  "rne x =
     (let f = \<lfloor>x\<rfloor>; d = x - of_int f in
      if d < 1 / 2 then f else if 1 / 2 < d then f + 1 else if even f then f else f + 1)"

definition ilog2 :: "rat \<Rightarrow> int" where
  "ilog2 x =
     (let (a, b) = quotient_of x; e = bitlen a - bitlen b in
      if 2 powi e \<le> x then e else e - 1)"

definition rnd64 :: "rat \<Rightarrow> rat" where
  "rnd64 x =
     (if x \<le> 0 then 0
      else let e = ilog2 x - 52 in of_int (rne (x / 2 powi e)) * 2 powi e)"

definition float64_of_uint :: "uint \<Rightarrow> rat" where
  "float64_of_uint u = rnd64 (of_int (uint u))"

definition float64_div :: "rat \<Rightarrow> rat \<Rightarrow> rat" where
  "float64_div x y = rnd64 (x / y)"

definition float64_mult :: "rat \<Rightarrow> rat \<Rightarrow> rat" where
  "float64_mult x y = rnd64 (x * y)"

text \<open>
  The conversion of a float to \<open>int\<close> truncates. Out of the range of \<open>int\<close> the result depends on
  the implementation; it is the parameter \<open>oor\<close>.
\<close>

definition int_of_float64 :: "(rat \<Rightarrow> int) \<Rightarrow> rat \<Rightarrow> int" where
  "int_of_float64 oor x =
     (let n = (if x < 0 then \<lceil>x\<rceil> else \<lfloor>x\<rfloor>) in
      if - (2 ^ 63) \<le> n \<and> n < 2 ^ 63 then n else oor x)"

section \<open>Rounding to an integer\<close>

lemma rne_of_int [simp]: "rne (of_int n) = n"
  by (simp add: rne_def)

lemma rne_bounds: "of_int (rne x) - 1 / 2 \<le> x" "x \<le> of_int (rne x) + 1 / 2"
proof -
  have "of_int \<lfloor>x\<rfloor> \<le> x" "x < of_int \<lfloor>x\<rfloor> + 1" by linarith+
  then show "of_int (rne x) - 1 / 2 \<le> x" "x \<le> of_int (rne x) + 1 / 2"
    by (auto simp: rne_def Let_def; linarith)+
qed

lemma rne_mono:
  assumes "x \<le> y"
  shows "rne x \<le> rne y"
proof (cases "\<lfloor>x\<rfloor> = \<lfloor>y\<rfloor>")
  case True
  then show ?thesis using assms by (auto simp: rne_def Let_def)
next
  case False
  then have "\<lfloor>x\<rfloor> + 1 \<le> \<lfloor>y\<rfloor>" using floor_mono [OF assms] by linarith
  moreover have "rne x \<le> \<lfloor>x\<rfloor> + 1" "\<lfloor>y\<rfloor> \<le> rne y" by (auto simp: rne_def Let_def)
  ultimately show ?thesis by linarith
qed

lemma rne_unique:
  assumes "x - 1 / 2 < of_int n" and "of_int n < x + 1 / 2"
  shows "rne x = n"
proof -
  have "of_int (rne x) < (of_int n :: rat) + 1" "of_int n < (of_int (rne x) :: rat) + 1"
    using rne_bounds [of x] assms by linarith+
  then show ?thesis by linarith
qed

text \<open>At a tie the even neighbour is taken.\<close>

lemma rne_tie:
  assumes "even n" and "x = of_int n + 1 / 2 \<or> x = of_int n - 1 / 2"
  shows "rne x = n"
proof (cases "x = of_int n + 1 / 2")
  case True
  then have "\<lfloor>x\<rfloor> = n" by linarith
  with True assms(1) show ?thesis by (simp add: rne_def)
next
  case False
  with assms have x: "x = of_int n - 1 / 2" by simp
  then have "\<lfloor>x\<rfloor> = n - 1" by linarith
  with x assms(1) show ?thesis by (simp add: rne_def)
qed

section \<open>The exponent\<close>

lemma powi_shift: "(2 :: rat) powi (e + int k) = 2 ^ k * 2 powi e"
  by (simp add: power_int_add)

lemma powi_split: "(2 :: rat) powi e = 2 ^ 52 * 2 powi (e - 52)"
  "(2 :: rat) powi (e + 1) = 2 ^ 53 * 2 powi (e - 52)"
  using powi_shift [of "e - 52" 52] powi_shift [of "e - 52" 53] by (simp_all add: add.commute)

lemma powi_less_iff: "(2 :: rat) powi m < 2 powi n \<longleftrightarrow> m < n"
proof
  show "m < n \<Longrightarrow> (2 :: rat) powi m < 2 powi n" by (simp add: power_int_strict_increasing)
  show "(2 :: rat) powi m < 2 powi n \<Longrightarrow> m < n"
    using power_int_increasing [of n m "2 :: rat"] by (meson leD leI order_less_imp_le one_le_numeral)
qed

lemma ilog2_bounds:
  assumes "0 < x"
  shows "2 powi ilog2 x \<le> x" "x < 2 powi (ilog2 x + 1)"
proof -
  obtain a b where q: "quotient_of x = (a, b)" by force
  have b: "0 < b" using quotient_of_denom_pos [OF q] .
  have x: "x = of_int a / of_int b" using quotient_of_div [OF q] .
  with assms b have a: "0 < a" by (simp add: zero_less_divide_iff)
  have bit: "2 powi (bitlen n - 1) \<le> (of_int n :: rat)" "(of_int n :: rat) < 2 powi bitlen n"
    if "0 < n" for n :: int
  proof -
    have "2 ^ nat (bitlen n - 1) \<le> n \<and> n < 2 ^ nat (bitlen n)"
      using that by (simp add: bitlen_bounds)
    then have "(of_int (2 ^ nat (bitlen n - 1)) :: rat) \<le> of_int n"
      "(of_int n :: rat) < of_int (2 ^ nat (bitlen n))"
      by (simp_all only: of_int_le_iff of_int_less_iff)
    moreover have "1 \<le> bitlen n" using that by (simp add: bitlen_ge_iff_power)
    ultimately show "2 powi (bitlen n - 1) \<le> (of_int n :: rat)" "(of_int n :: rat) < 2 powi bitlen n"
      by (simp_all add: power_int_def)
  qed
  let ?e = "bitlen a - bitlen b"
  have "x < 2 powi (?e + 1)"
  proof -
    have "x < 2 powi bitlen a / of_int b" using x b bit(2) [OF a] by (simp add: divide_strict_right_mono)
    also have "\<dots> \<le> 2 powi bitlen a / 2 powi (bitlen b - 1)"
      using bit(1) [OF b] by (intro divide_left_mono) (auto simp: b)
    also have "\<dots> = 2 powi (?e + 1)" by (simp add: power_int_diff [symmetric] algebra_simps)
    finally show ?thesis .
  qed
  moreover have "2 powi (?e - 1) \<le> x"
  proof -
    have "2 powi (?e - 1) = (2 powi (bitlen a - 1) :: rat) / 2 powi bitlen b"
      by (simp add: power_int_diff [symmetric] algebra_simps)
    also have "\<dots> \<le> of_int a / 2 powi bitlen b"
      using bit(1) [OF a] by (simp add: divide_right_mono)
    also have "\<dots> \<le> of_int a / of_int b"
      using bit(2) [OF b] a b by (intro divide_left_mono) auto
    finally show ?thesis using x by simp
  qed
  ultimately show "2 powi ilog2 x \<le> x" "x < 2 powi (ilog2 x + 1)"
    by (auto simp: ilog2_def q Let_def)
qed

lemma ilog2_unique:
  assumes "2 powi e \<le> x" and "x < 2 powi (e + 1)"
  shows "ilog2 x = e"
proof -
  have "0 < (2 :: rat) powi e" by simp
  with assms(1) have x: "0 < x" by linarith
  have "(2 :: rat) powi e < 2 powi (ilog2 x + 1)" "(2 :: rat) powi ilog2 x < 2 powi (e + 1)"
    using assms ilog2_bounds [OF x] by linarith+
  then have "e < ilog2 x + 1" "ilog2 x < e + 1"
    by (simp_all only: powi_less_iff)
  then show ?thesis by linarith
qed

lemma ilog2_mono:
  assumes "0 < x" and "x \<le> y"
  shows "ilog2 x \<le> ilog2 y"
proof -
  have "(2 :: rat) powi ilog2 x < 2 powi (ilog2 y + 1)"
    using ilog2_bounds [of x] ilog2_bounds [of y] assms by linarith
  then show ?thesis by (simp only: powi_less_iff zless_add1_eq order_le_less)
qed

section \<open>Properties of rounding\<close>

text \<open>The scaled argument lies between \<open>2 ^ 52\<close> and \<open>2 ^ 53\<close>, and so does its rounding.\<close>

lemma scaled_bounds:
  assumes "0 < x"
  shows "2 ^ 52 \<le> x / 2 powi (ilog2 x - 52)" "x / 2 powi (ilog2 x - 52) < 2 ^ 53"
proof -
  have "0 < (2 :: rat) powi (ilog2 x - 52)" by simp
  with ilog2_bounds [OF assms]
  show "2 ^ 52 \<le> x / 2 powi (ilog2 x - 52)" "x / 2 powi (ilog2 x - 52) < 2 ^ 53"
    unfolding powi_split [of "ilog2 x"] by (simp_all only: pos_le_divide_eq pos_divide_less_eq)
qed

lemma rnd64_pos:
  "0 < x \<Longrightarrow> rnd64 x = of_int (rne (x / 2 powi (ilog2 x - 52))) * 2 powi (ilog2 x - 52)"
  by (simp add: rnd64_def Let_def)

lemma rnd64_binade:
  assumes "0 < x"
  shows "2 powi ilog2 x \<le> rnd64 x" "rnd64 x \<le> 2 powi (ilog2 x + 1)"
proof -
  let ?e = "ilog2 x - 52"
  have "2 ^ 52 \<le> rne (x / 2 powi ?e)" "rne (x / 2 powi ?e) \<le> 2 ^ 53"
    using rne_mono [of "of_int (2 ^ 52)" "x / 2 powi ?e"] rne_mono [of "x / 2 powi ?e" "of_int (2 ^ 53)"]
      scaled_bounds [OF assms] by (simp_all del: of_int_power of_int_numeral add: order_less_imp_le)
  then have "(of_int (2 ^ 52) :: rat) \<le> of_int (rne (x / 2 powi ?e))"
    "(of_int (rne (x / 2 powi ?e)) :: rat) \<le> of_int (2 ^ 53)"
    by (simp_all only: of_int_le_iff)
  then show "2 powi ilog2 x \<le> rnd64 x" "rnd64 x \<le> 2 powi (ilog2 x + 1)"
    unfolding rnd64_pos [OF assms] powi_split [of "ilog2 x"]
    by (simp_all only: of_int_power of_int_numeral mult_right_mono [OF _ zero_le_power_int])
qed

lemma rnd64_mono:
  assumes "0 < x" and "x \<le> y"
  shows "rnd64 x \<le> rnd64 y"
proof (cases "ilog2 x = ilog2 y")
  case True
  have "x / 2 powi (ilog2 x - 52) \<le> y / 2 powi (ilog2 x - 52)"
    using assms(2) by (simp add: divide_right_mono)
  then show ?thesis
    using rne_mono assms True by (simp add: rnd64_pos mult_right_mono)
next
  case False
  with ilog2_mono [OF assms] have "ilog2 x + 1 \<le> ilog2 y" by linarith
  then have "(2 :: rat) powi (ilog2 x + 1) \<le> 2 powi ilog2 y" by (simp add: power_int_increasing)
  then show ?thesis using rnd64_binade [of x] rnd64_binade [of y] assms by linarith
qed

text \<open>A number with at most 53 significant bits is not changed.\<close>

lemma rnd64_scaled_int:
  assumes "0 < x" and "x = of_int n * 2 powi (ilog2 x - 52)"
  shows "rnd64 x = x"
proof -
  have "(2 :: rat) powi (ilog2 x - 52) \<noteq> 0" by simp
  from nonzero_divide_eq_eq [OF this, of x "of_int n"] assms(2)
  have "x / 2 powi (ilog2 x - 52) = of_int n" by blast
  then have "rnd64 x = of_int n * 2 powi (ilog2 x - 52)"
    using assms(1) by (simp only: rnd64_pos rne_of_int)
  with assms(2) show ?thesis by simp
qed

lemma rnd64_exact:
  assumes "x = of_int m * 2 powi e" and "0 < m" and "m \<le> 2 ^ 53"
  shows "rnd64 x = x"
proof -
  have x: "0 < x" using assms by simp
  have "ilog2 x - 52 \<le> e \<or> m = 2 ^ 53"
  proof (rule ccontr)
    assume "\<not> ?thesis"
    then have m: "m < 2 ^ 53" and e: "e + 53 \<le> ilog2 x" using assms(3) by auto
    have "(of_int m :: rat) < of_int (2 ^ 53)" using m by (simp only: of_int_less_iff)
    then have "x < of_int (2 ^ 53) * 2 powi e" unfolding assms(1) by simp
    also have "\<dots> = 2 powi (e + 53)" using powi_shift [of e 53] by simp
    also have "\<dots> \<le> 2 powi ilog2 x" using e by (simp add: power_int_increasing)
    finally show False using ilog2_bounds(1) [OF x] by linarith
  qed
  then show ?thesis
  proof
    assume "ilog2 x - 52 \<le> e"
    then obtain k where k: "e = ilog2 x - 52 + int k" by (metis zle_iff_zadd)
    have "x = of_int (m * 2 ^ k) * 2 powi (ilog2 x - 52)"
      using assms(1) powi_shift [of "ilog2 x - 52" k] k by simp
    with x show ?thesis by (rule rnd64_scaled_int)
  next
    assume "m = 2 ^ 53"
    then have p: "x = 2 powi (e + 53)" using assms(1) powi_shift [of e 53] by simp
    then have "ilog2 x = e + 53" by (intro ilog2_unique) (simp_all add: power_int_strict_increasing)
    then have "x = of_int (2 ^ 52) * 2 powi (ilog2 x - 52)" using p powi_split(1) [of "e + 53"] by simp
    with x show ?thesis by (rule rnd64_scaled_int)
  qed
qed

lemma rnd64_of_int: "0 < m \<Longrightarrow> m \<le> 2 ^ 53 \<Longrightarrow> rnd64 (of_int m) = of_int m"
  by (rule rnd64_exact [where m = m and e = 0]) simp_all

lemma rnd64_ge_int: "0 < m \<Longrightarrow> m \<le> 2 ^ 53 \<Longrightarrow> of_int m \<le> x \<Longrightarrow> of_int m \<le> rnd64 x"
  using rnd64_mono [of "of_int m" x] by (simp add: rnd64_of_int)

text \<open>The relative error is at most \<open>1 / 2 ^ 53\<close>.\<close>

lemma rnd64_error:
  assumes "0 < x"
  shows "rnd64 x \<le> x * (1 + 1 / 2 ^ 53)" "x * (1 - 1 / 2 ^ 53) \<le> rnd64 x"
proof -
  let ?s = "(2 :: rat) powi (ilog2 x - 52)" and ?y = "x / 2 powi (ilog2 x - 52)"
  have s: "0 < ?s" by simp
  have x: "x = ?y * ?s" by simp
  have half: "1 / 2 \<le> ?y * (1 / 2 ^ 53)" using scaled_bounds(1) [OF assms] by (simp add: field_simps)
  have "of_int (rne ?y) \<le> ?y + ?y * (1 / 2 ^ 53)" "?y - ?y * (1 / 2 ^ 53) \<le> of_int (rne ?y)"
    using rne_bounds [of ?y] half by linarith+
  then have "rnd64 x \<le> (?y + ?y * (1 / 2 ^ 53)) * ?s" "(?y - ?y * (1 / 2 ^ 53)) * ?s \<le> rnd64 x"
    unfolding rnd64_pos [OF assms] by (simp_all only: mult_right_mono [OF _ order_less_imp_le [OF s]])
  moreover have "(?y + ?y * (1 / 2 ^ 53)) * ?s = x * (1 + 1 / 2 ^ 53)"
    "(?y - ?y * (1 / 2 ^ 53)) * ?s = x * (1 - 1 / 2 ^ 53)"
    by (simp_all add: algebra_simps)
  ultimately show "rnd64 x \<le> x * (1 + 1 / 2 ^ 53)" "x * (1 - 1 / 2 ^ 53) \<le> rnd64 x"
    by linarith+
qed

lemma rnd64_gt_0:
  assumes "0 < x"
  shows "0 < rnd64 x"
proof -
  have "0 < (2 :: rat) powi ilog2 x" by simp
  then show ?thesis using rnd64_binade(1) [OF assms] by linarith
qed

section \<open>Scaling by ten\<close>

text \<open>
  The round-robin reader computes \<open>ceil(w / l * 10)\<close> in floating point. Ten is a sum of two powers
  of two, and for such a factor a division followed by the multiplication restores an integer
  (an observation of Kahan's); the next lemma is that fact for the factor ten.
\<close>

lemma rnd64_by_exponent:
  assumes "2 powi (e + 52) \<le> y" and "y < 2 powi (e + 53)" and "rne (y / 2 powi e) = n"
  shows "rnd64 y = of_int n * 2 powi e"
proof -
  have "ilog2 y = e + 52" using assms(1,2) by (intro ilog2_unique) (simp_all add: add.assoc)
  moreover have "0 < y" using assms(1) by (rule order_less_le_trans [rotated]) simp
  ultimately show ?thesis using assms(3) rnd64_pos [of y] by simp
qed

lemma rne_near:
  assumes "even n \<or> -4 < r" and "even n \<or> r < 4" and "-4 \<le> r" and "r \<le> 4"
  shows "rne (of_int n + of_int r / 8) = n"
proof (cases "r = 4 \<or> r = -4")
  case True
  then show ?thesis using assms by (intro rne_tie) auto
next
  case False
  then have "-4 < r" "r < 4" using assms by auto
  then have "(of_int (-4) :: rat) < of_int r" "(of_int r :: rat) < of_int 4"
    by (simp_all only: of_int_less_iff)
  then show ?thesis by (intro rne_unique) simp_all
qed

lemma tenth_decompose:
  assumes k: "0 < k" "k < 2 ^ 52"
  obtains e q t r where "rnd64 (of_int k / 10) = of_int q * 2 powi e" and "2 ^ 52 \<le> q" and "q \<le> 2 ^ 53"
    and "(of_int k :: rat) = 16 * of_int t * 2 powi e" and "10 * q = 16 * t + r" and "-4 \<le> r" and "r \<le> 4"
proof -
  define x :: rat where "x = of_int k / 10"
  define e where "e = ilog2 x - 52"
  define q where "q = rne (x / 2 powi e)"
  have x: "0 < x" using k by (simp add: x_def)
  have qb: "2 ^ 52 \<le> q" "q \<le> 2 ^ 53"
    using rne_mono [of "of_int (2 ^ 52)" "x / 2 powi e"] rne_mono [of "x / 2 powi e" "of_int (2 ^ 53)"]
      scaled_bounds [OF x] unfolding e_def q_def
    by (simp_all del: of_int_power of_int_numeral add: order_less_imp_le)
  have "(of_int k :: rat) < of_int (2 ^ 52)" using k(2) by (simp only: of_int_less_iff)
  then have "(2 :: rat) powi ilog2 x < 2 powi 49" using ilog2_bounds(1) [OF x] by (simp add: x_def)
  then have "e \<le> -4" by (simp only: powi_less_iff e_def)
  define m where "m = nat (-4 - e)"
  have m: "e = -4 - int m" using \<open>e \<le> -4\<close> by (simp add: m_def)
  define t where "t = k * 2 ^ m"
  have scale: "(of_int k :: rat) = 16 * of_int t * 2 powi e"
    by (simp add: t_def m power_int_diff power_int_minus)
  define r where "r = 10 * q - 16 * t"
  have "x / 2 powi e = 16 * of_int t / 10" using scale by (simp add: x_def)
  then have "of_int q - 1 / 2 \<le> (16 * of_int t / 10 :: rat)" "(16 * of_int t / 10 :: rat) \<le> of_int q + 1 / 2"
    using rne_bounds [of "x / 2 powi e"] by (simp_all only: q_def)
  then have "(of_int r :: rat) \<le> of_int 5" "of_int (-5) \<le> (of_int r :: rat)" by (simp_all add: r_def)
  then have "r \<le> 5" "-5 \<le> r" by (simp_all only: of_int_le_iff)
  moreover have "even r" by (simp add: r_def)
  ultimately have r4: "-4 \<le> r" "r \<le> 4" by presburger+
  have rnd: "rnd64 (of_int k / 10) = of_int q * 2 powi e"
    using x by (simp add: rnd64_pos q_def e_def flip: x_def)
  have ten: "10 * q = 16 * t + r" by (simp add: r_def)
  show thesis by (rule that [OF rnd qb scale ten r4])
qed

lemma scaled_int_range:
  assumes "2 ^ a \<le> n" and "n < (2 :: int) ^ b"
  shows "2 powi (e + int a) \<le> (of_int n * 2 powi e :: rat)" "(of_int n * 2 powi e :: rat) < 2 powi (e + int b)"
proof -
  have "(of_int (2 ^ a) :: rat) \<le> of_int n" "(of_int n :: rat) < of_int (2 ^ b)"
    using assms by (simp_all only: of_int_le_iff of_int_less_iff)
  then show "2 powi (e + int a) \<le> (of_int n * 2 powi e :: rat)" "(of_int n * 2 powi e :: rat) < 2 powi (e + int b)"
    unfolding powi_shift by simp_all
qed

lemma tenth_times_ten_exact:
  assumes k: "0 < k" "k < 2 ^ 52"
  shows "rnd64 (rnd64 (of_int k / 10) * 10) = of_int k"
  using tenth_decompose [OF k]
proof cases
  case (1 e q t r)
  define y :: rat where "y = of_int (10 * q) * 2 powi e"
  have y10: "rnd64 (of_int k / 10) * 10 = y" by (simp add: y_def 1(1))
  have yr: "y = of_int (16 * t + r) * 2 powi e" by (simp only: y_def 1(5))
  have "rnd64 y = of_int k"
  proof (cases "10 * q < 2 ^ 56")
    case True
    have "2 powi (e + 3 + 52) \<le> y" "y < 2 powi (e + 3 + 53)"
      using scaled_int_range [of 55 "10 * q" 56 e] True 1(2) by (simp_all add: y_def add.assoc)
    moreover have "y / 2 powi (e + 3) = of_int (2 * t) + of_int r / 8"
      unfolding yr using powi_shift [of e 3] by (simp add: field_simps)
    then have "rne (y / 2 powi (e + 3)) = 2 * t" using rne_near [of "2 * t" r] 1(6,7) by simp
    ultimately have "rnd64 y = of_int (2 * t) * 2 powi (e + 3)" by (rule rnd64_by_exponent)
    then show ?thesis using 1(4) powi_shift [of e 3] by simp
  next
    case False
    then have "2 powi (e + 4 + 52) \<le> y" "y < 2 powi (e + 4 + 53)"
      using scaled_int_range [of 56 "10 * q" 57 e] 1(3) by (simp_all add: y_def add.assoc)
    moreover have "y / 2 powi (e + 4) = of_int t + of_int r / 16"
      unfolding yr using powi_shift [of e 4] by (simp add: field_simps)
    moreover have "(of_int (-4) :: rat) \<le> of_int r" "(of_int r :: rat) \<le> of_int 4"
      using 1(6,7) by (simp_all only: of_int_le_iff)
    then have "rne (of_int t + of_int r / 16) = t" by (intro rne_unique) simp_all
    ultimately have "rnd64 y = of_int t * 2 powi (e + 4)" by (intro rnd64_by_exponent) simp_all
    then show ?thesis using 1(4) powi_shift [of e 4] by simp
  qed
  then show ?thesis by (simp add: y10)
qed

text \<open>
  Off the integers the rounding errors are too small to reach one: for weights below \<open>2 ^ 48\<close> the
  computed ceiling is the exact one.
\<close>

lemma twice_rounded_near:
  assumes "0 < x"
  shows "\<bar>rnd64 (rnd64 x * 10) - 10 * x\<bar> \<le> 10 * x * (3 / 2 ^ 53)"
proof -
  have v: "rnd64 x \<le> x * (1 + 1 / 2 ^ 53)" "x * (1 - 1 / 2 ^ 53) \<le> rnd64 x" "0 < rnd64 x"
    using rnd64_error [OF assms] rnd64_gt_0 [OF assms] by simp_all
  then have "0 < rnd64 x * 10" by simp
  note w = rnd64_error [OF this]
  show ?thesis by (rule abs_leI) (use v w assms in \<open>simp_all add: field_simps\<close>)
qed

lemma float_share_exact:
  assumes l: "0 < l" "l \<le> w" and w: "w < (2 :: int) ^ 48"
  shows "\<lceil>rnd64 (rnd64 (of_int w / of_int l) * 10)\<rceil> = \<lceil>of_int (10 * w) / (of_int l :: rat)\<rceil>"
proof (cases "l dvd 10 * w")
  case True
  then obtain k where k: "10 * w = l * k" by (auto elim: dvdE)
  have "0 < l * k" using k l by linarith
  then have k0: "0 < k" using l by (simp add: zero_less_mult_iff)
  moreover have "1 * k \<le> l * k" using l k0 by (intro mult_right_mono) simp_all
  then have "k \<le> 10 * w" using k by simp
  ultimately have "0 < k" "k < 2 ^ 52" using w by simp_all
  moreover have "(of_int (10 * w) :: rat) = of_int l * of_int k" unfolding k by simp
  then have "of_int w / of_int l = (of_int k / 10 :: rat)" using l by (simp add: field_simps)
  moreover have "of_int (10 * w) / of_int l = (of_int k :: rat)" unfolding k using l by simp
  ultimately show ?thesis by (simp only: tenth_times_ten_exact ceiling_of_int)
next
  case False
  define n where "n = 10 * w div l"
  define X where "X = (of_int (10 * w) / of_int l :: rat)"
  have "10 * w mod l \<noteq> 0" using False by (simp add: dvd_eq_mod_eq_0)
  moreover have "0 \<le> 10 * w mod l" "10 * w mod l < l" using l by simp_all
  moreover have "10 * w = n * l + 10 * w mod l" by (simp add: n_def)
  moreover have "(n + 1) * l = n * l + l" by (simp add: algebra_simps)
  ultimately have "n * l + 1 \<le> 10 * w" "10 * w + 1 \<le> (n + 1) * l" by linarith+
  then have "(of_int (n * l + 1) :: rat) \<le> of_int (10 * w)" "(of_int (10 * w + 1) :: rat) \<le> of_int ((n + 1) * l)"
    by (simp_all only: of_int_le_iff)
  then have "of_int (n * l + 1) / of_int l \<le> X" "of_int (10 * w + 1) / of_int l \<le> (of_int ((n + 1) * l) / of_int l :: rat)"
    using l unfolding X_def by (simp_all only: divide_right_mono of_int_0_le_iff order_less_imp_le)
  then have X: "of_int n + 1 / of_int l \<le> X" "X \<le> of_int n + 1 - 1 / of_int l"
    using l by (simp_all add: X_def add_divide_distrib)
  have "(of_int (10 * w) :: rat) < of_int (10 * 2 ^ 48)" using w by (simp only: of_int_less_iff)
  then have "X * (3 / 2 ^ 53) < 1 / of_int l" using l by (simp add: X_def field_simps)
  moreover have "\<bar>rnd64 (rnd64 (of_int w / of_int l) * 10) - X\<bar> \<le> X * (3 / 2 ^ 53)"
    using twice_rounded_near [of "of_int w / of_int l"] l by (simp add: X_def)
  ultimately have near: "of_int n < rnd64 (rnd64 (of_int w / of_int l) * 10)"
      "rnd64 (rnd64 (of_int w / of_int l) * 10) < of_int n + 1"
    using X unfolding abs_le_iff by linarith+
  have "0 < (1 :: rat) / of_int l" using l by simp
  then have "of_int n < X" "X \<le> of_int (n + 1)" using X by linarith+
  then have "\<lceil>X\<rceil> = n + 1" by (intro ceiling_unique) simp_all
  moreover have "\<lceil>rnd64 (rnd64 (of_int w / of_int l) * 10)\<rceil> = n + 1"
    using near by (intro ceiling_unique) simp_all
  ultimately show ?thesis by (simp add: X_def)
qed

text \<open>Bounds that hold for all weights: the share is at least ten, and it fits an \<open>int\<close>.\<close>

lemma float_share_ge_ten:
  assumes "0 < y" and "y \<le> x"
  shows "10 \<le> rnd64 (rnd64 (x / y) * 10)"
proof -
  have "1 \<le> x / y" using assms by simp
  then have "1 \<le> rnd64 (x / y)" using rnd64_ge_int [of 1 "x / y"] by simp
  then show ?thesis using rnd64_ge_int [of 10 "rnd64 (x / y) * 10"] by simp
qed

lemma float_share_upper:
  assumes "0 < x"
  shows "rnd64 (rnd64 x * 10) \<le> 11 * x"
  using twice_rounded_near [OF assms] assms unfolding abs_le_iff by (simp add: field_simps)

end
