(* ===== verification/Reader_Programs.thy ===== *)
theory Reader_Programs
  imports Uniform_Reader Round_Robin_Reader
begin

text \<open>
  The readers' \<open>Read\<close> methods as programs over the atomic queue operations. A \<open>Read\<close> takes the mutex
  of one queue at a time, for one \<open>Len\<close> or \<open>Pop\<close>, so requests can be pushed between its operations.
  A program is a tree: an operation on a queue with the rest for every answer it may give, or an end.
  Run without interruption, the programs compute the readers' \<open>Read\<close> functions; the iterator runs them
  one operation at a time, with pushes in between.

  \<open>prog_ok S E N p\<close> says what such a program does whatever is pushed while it runs, if it is the only
  one that pops: it never panics or recurses forever, it uses only the queues in \<open>S\<close>, and it returns
  nil only after it saw every queue of \<open>S\<close> empty, and a request as soon as it popped it. \<open>E\<close> are the queues seen empty so far, and \<open>N\<close> those
  that are known to hold a request.
\<close>

section \<open>Definitions\<close>

datatype 'r prog =
  Return "PlacementRequest option" 'r
| Panic
| Diverge
| LenOf qref "nat \<Rightarrow> 'r prog"
| PopOf qref "PlacementRequest option \<Rightarrow> 'r prog"

primrec run_prog :: "'r prog \<Rightarrow> 'h qstore \<Rightarrow> (PlacementRequest option \<times> 'r \<times> 'h qstore) run" where
  "run_prog (Return res r) st = Done (res, r, st)"
| "run_prog Panic st = Panicked"
| "run_prog Diverge st = OutOfFuel"
| "run_prog (LenOf ref k) st =
     (case ref_Len st ref of None \<Rightarrow> Panicked | Some n \<Rightarrow> run_prog (k n) st)"
| "run_prog (PopOf ref k) st =
     (case ref_Pop st ref of None \<Rightarrow> Panicked | Some (pr, st') \<Rightarrow> run_prog (k pr) st')"

fun uniform_prog :: "UniformReader \<Rightarrow> nat \<Rightarrow> QueueConfigs \<Rightarrow> rand_source \<Rightarrow> (UniformReader \<times> rand_source) prog" where
  "uniform_prog u 0 configs \<omega> = Return None (u, \<omega>)"
| "uniform_prog u (Suc n) configs \<omega> =
     (case uniform_next \<omega> configs of
        None \<Rightarrow> Panic
      | Some (qidx, \<omega>') \<Rightarrow>
          if \<not> qidx < length configs then Panic
          else PopOf (QueueRef (configs ! qidx)) (\<lambda>pr.
            if pr \<noteq> None then Return pr (u, \<omega>')
            else case slices_Delete configs qidx of
              None \<Rightarrow> Panic | Some configs' \<Rightarrow> uniform_prog u n configs' \<omega>'))"

definition uniform_read_prog :: "UniformReader \<times> rand_source \<Rightarrow> (UniformReader \<times> rand_source) prog" where
  "uniform_read_prog r = uniform_prog (fst r) (length (u_configs (fst r))) ([] @ u_configs (fst r)) (snd r)"

fun rr_empty_prog :: "ExtendedQueueConfig list \<Rightarrow> (bool \<Rightarrow> 'r prog) \<Rightarrow> 'r prog" where
  "rr_empty_prog [] k = k True"
| "rr_empty_prog (cfg # cs) k =
     LenOf (QueueRef cfg) (\<lambda>n. if n > 0 then k False else rr_empty_prog cs k)"

fun rr_prog :: "nat \<Rightarrow> RoundRobinReader \<Rightarrow> RoundRobinReader prog" where
  "rr_prog 0 r = Diverge"
| "rr_prog (Suc fuel) r =
     rr_empty_prog (rr_configs r) (\<lambda>none.
       if none then Return None r
       else
         let r1 = (if rr_next r < 0 then rr_reset r else r); index = rr_next r1 in
         if index < 0 then Panic
         else
           let i = nat index; cfg = rr_configs r1 ! i in
           PopOf (QueueRef cfg) (\<lambda>res.
             case res of
               Some pr \<Rightarrow> Return (Some pr)
                 (rr_charge r1 i (wrap64 (BindingsRead cfg + int (length (Bindings (Spec pr))))))
             | None \<Rightarrow> rr_prog fuel (rr_charge r1 i (MaximumBindings cfg))))"

declare rr_prog.simps(2) [simp del]

section \<open>The programs compute the readers' functions\<close>

lemma run_uniform_prog:
  "run_prog (uniform_prog u n configs \<omega>) st =
     (case uniform_loop n configs \<omega> st of
        None \<Rightarrow> Panicked | Some (res, \<omega>', st') \<Rightarrow> Done (res, (u, \<omega>'), st'))"
proof (induction n configs \<omega> st rule: uniform_loop.induct)
  case (1 configs \<omega> st)
  then show ?case by simp
next
  case (2 n configs \<omega> st)
  then show ?case by (auto split: option.splits prod.splits if_splits)
qed

lemma run_uniform_read_prog:
  "run_prog (uniform_read_prog r) st = (case uniform_step r st of None \<Rightarrow> Panicked | Some x \<Rightarrow> Done x)"
  by (simp add: uniform_read_prog_def run_uniform_prog uniform_step_def uniform_Read_def split: option.splits prod.splits)

lemma run_rr_empty_prog:
  "run_prog (rr_empty_prog cs k) st = (case rr_empty_loop st cs of None \<Rightarrow> Panicked | Some e \<Rightarrow> run_prog (k e) st)"
  by (induction st cs rule: rr_empty_loop.induct) (auto split: option.splits)

lemma run_rr_prog: "run_prog (rr_prog n r) st = rr_Read n r st"
proof (induction n arbitrary: r st)
  case 0
  then show ?case by simp
next
  case (Suc n)
  show ?case unfolding rr_prog.simps(2) rr_Read.simps(2) run_rr_empty_prog rr_empty_def rr_charge_def
    by (auto simp: Suc Let_def rr_charge_def split: option.splits)
qed

text \<open>
  The programs the iterator runs one queue operation at a time are the readers' \<open>Read\<close> methods: run
  without interruption they give the same result, the same reader, the same queues, the same panics and
  the same endless recursion. So what is shown of \<open>Read\<close> as a function holds of the programs too.
\<close>

lemma read_programs_compute_Read:
  "run_prog (uniform_read_prog u) st = (case uniform_step u st of None \<Rightarrow> Panicked | Some x \<Rightarrow> Done x) \<and>
   run_prog (rr_prog n r) st = rr_Read n r st"
  by (simp add: run_uniform_read_prog run_rr_prog)

section \<open>Programs that tolerate concurrent pushes\<close>

primrec prog_ok :: "('r \<Rightarrow> bool) \<Rightarrow> nat set \<Rightarrow> 'r prog \<Rightarrow> nat set \<Rightarrow> nat set \<Rightarrow> bool" where
  "prog_ok I S (Return res r) E N \<longleftrightarrow> I r \<and> res = None \<and> S \<subseteq> E"
| "prog_ok I S Panic E N \<longleftrightarrow> False"
| "prog_ok I S Diverge E N \<longleftrightarrow> False"
| "prog_ok I S (LenOf ref k) E N \<longleftrightarrow>
     (\<exists>a \<in> S. ref = Some a \<and> (a \<notin> N \<longrightarrow> prog_ok I S (k 0) (insert a E) N) \<and>
        (\<forall>n. 0 < n \<longrightarrow> prog_ok I S (k n) E (insert a N)))"
| "prog_ok I S (PopOf ref k) E N \<longleftrightarrow>
     (\<exists>a \<in> S. ref = Some a \<and> (a \<notin> N \<longrightarrow> prog_ok I S (k None) (insert a E) N) \<and>
        (\<forall>pr. \<exists>r. k (Some pr) = Return (Some pr) r \<and> I r))"

lemma prog_ok_mono: "prog_ok I S p E N \<Longrightarrow> E \<subseteq> E' \<Longrightarrow> N \<subseteq> N' \<Longrightarrow> prog_ok I S p E' N'"
proof (induction p arbitrary: E N E' N')
  case (LenOf ref k)
  from LenOf.prems(1) obtain a where a: "a \<in> S" "ref = Some a"
      "a \<notin> N \<Longrightarrow> prog_ok I S (k 0) (insert a E) N" "\<And>n. 0 < n \<Longrightarrow> prog_ok I S (k n) E (insert a N)" by auto
  have "prog_ok I S (k 0) (insert a E') N'" if "a \<notin> N'"
    using that LenOf.prems(2,3) by (intro LenOf.IH [OF rangeI a(3)]) auto
  moreover have "prog_ok I S (k n) E' (insert a N')" if "0 < n" for n
    using LenOf.prems(2,3) by (intro LenOf.IH [OF rangeI a(4) [OF that]]) auto
  ultimately show ?case using a(1,2) by simp
next
  case (PopOf ref k)
  from PopOf.prems(1) obtain a where a: "a \<in> S" "ref = Some a"
      "a \<notin> N \<Longrightarrow> prog_ok I S (k None) (insert a E) N" "\<forall>pr. \<exists>r. k (Some pr) = Return (Some pr) r \<and> I r" by auto
  have "prog_ok I S (k None) (insert a E') N'" if "a \<notin> N'"
    using that PopOf.prems(2,3) by (intro PopOf.IH [OF rangeI a(3)]) auto
  then show ?case using a(1,2,4) by simp
qed auto

section \<open>The uniform reader\<close>

lemma uniform_prog_ok:
  assumes "weights_ok cs" and "\<forall>c \<in> set cs. \<exists>a \<in> S. QueueRef c = Some a" and "S \<subseteq> E \<union> addresses cs"
    and "\<And>\<omega>. I (u, \<omega>)"
  shows "prog_ok I S (uniform_prog u (length cs) cs \<omega>) E N"
  using assms(1-3)
proof (induction "length cs" arbitrary: cs \<omega> E)
  case 0
  then show ?case using assms(4) by (simp add: addresses_def)
next
  case (Suc n)
  then have "cs \<noteq> []" by auto
  from uniform_next_correct [OF Suc.prems(1) this] obtain i where
    i: "i < length cs" "uniform_next \<omega> cs = Some (i, \<lambda>k. \<omega> (Suc k))" by blast
  obtain a where a: "a \<in> S" "QueueRef (cs ! i) = Some a"
    using Suc.prems(2) nth_mem [OF i(1)] by blast
  let ?cs = "take i cs @ drop (Suc i) cs" and ?\<omega> = "\<lambda>k. \<omega> (Suc k)"
  have "set ?cs \<subseteq> set cs" using set_take_subset [of i cs] set_drop_subset [of "Suc i" cs] by auto
  then have refs: "\<forall>c \<in> set ?cs. \<exists>a \<in> S. QueueRef c = Some a" using Suc.prems(2) by blast
  have n: "n = length ?cs" using Suc.hyps(2) i(1) by simp
  have "S \<subseteq> insert a E \<union> addresses ?cs"
    using Suc.prems(3) delete_addresses [OF i(1) a(2)] by auto
  from Suc.hyps(1) [OF n delete_weights_ok [OF Suc.prems(1) i(1)] refs this, of ?\<omega>]
  have "prog_ok I S (uniform_prog u n ?cs ?\<omega>) (insert a E) N" using n by simp
  then show ?case
    unfolding Suc.hyps(2) [symmetric] using i a assms(4) by (simp add: slices_Delete_def)
qed

definition uniform_inv :: "QueueConfigs \<Rightarrow> UniformReader \<times> rand_source \<Rightarrow> bool" where
  "uniform_inv cs r \<longleftrightarrow> u_configs (fst r) = cs"

lemma addresses_refs: "\<forall>c \<in> set cs. QueueRef c \<noteq> None \<Longrightarrow>
    \<forall>c \<in> set cs. \<exists>a \<in> addresses cs. QueueRef c = Some a"
  unfolding addresses_def by blast

lemma uniform_read_prog_ok:
  assumes "weights_ok cs" and "\<forall>c \<in> set cs. QueueRef c \<noteq> None" and "uniform_inv cs r"
  shows "prog_ok (uniform_inv cs) (addresses cs) (uniform_read_prog r) {} {}"
  using uniform_prog_ok [OF assms(1) addresses_refs [OF assms(2)]] assms(3)
  by (auto simp: uniform_read_prog_def uniform_inv_def)

section \<open>The round robin reader\<close>

lemma rr_empty_prog_ok:
  assumes "\<forall>c \<in> set cs. \<exists>a \<in> S. QueueRef c = Some a"
    and "N \<inter> addresses cs = {} \<Longrightarrow> prog_ok I S (k True) (E \<union> addresses cs) N"
    and "\<And>a. a \<in> addresses cs \<Longrightarrow> prog_ok I S (k False) E (insert a N)"
  shows "prog_ok I S (rr_empty_prog cs k) E N"
  using assms
proof (induction cs arbitrary: E)
  case Nil
  then show ?case by (simp add: addresses_def)
next
  case (Cons c cs)
  then obtain a where a: "a \<in> S" "QueueRef c = Some a" by auto
  have adr: "addresses (c # cs) = insert a (addresses cs)" using a by (auto simp: addresses_def)
  have "prog_ok I S (rr_empty_prog cs k) (insert a E) N" if "a \<notin> N"
  proof (rule Cons.IH)
    show "prog_ok I S (k True) (insert a E \<union> addresses cs) N" if "N \<inter> addresses cs = {}"
      using Cons.prems(2) that \<open>a \<notin> N\<close> by (simp add: adr)
    show "prog_ok I S (k False) (insert a E) (insert b N)" if "b \<in> addresses cs" for b
      using prog_ok_mono [OF Cons.prems(3) [of b], of "insert a E" "insert b N"] that by (simp add: adr subset_insertI)
  qed (use Cons.prems(1) in simp)
  then show ?case using a Cons.prems(3) by (simp add: adr)
qed

definition maxima_ok :: "nat set \<Rightarrow> RoundRobinReader \<Rightarrow> bool" where
  "maxima_ok S r \<longleftrightarrow> S = addresses (rr_configs r) \<and>
     (\<forall>c \<in> set (rr_configs r). 0 < MaximumBindings c \<and> QueueRef c \<noteq> None)"

lemma maxima_ok_same: "same_queues r r' \<Longrightarrow> maxima_ok S r \<Longrightarrow> maxima_ok S r'"
proof -
  assume s: "same_queues r r'" and m: "maxima_ok S r"
  have "addresses (rr_configs r') = addresses (rr_configs r)" using same_queues_ready(2) [OF s] .
  moreover have "0 < MaximumBindings c \<and> QueueRef c \<noteq> None" if "c \<in> set (rr_configs r')" for c
    using that m same_queues_nth [OF s] same_queues_length [OF s]
    by (auto simp: maxima_ok_def in_set_conv_nth) (metis nth_mem)+
  ultimately show "maxima_ok S r'" using m by (simp add: maxima_ok_def)
qed

lemma maxima_ok_refs: "maxima_ok S r \<Longrightarrow> \<forall>c \<in> set (rr_configs r). \<exists>a \<in> S. QueueRef c = Some a"
  unfolding maxima_ok_def addresses_def by blast

lemma maxima_ok_charge: "i < length (rr_configs r) \<Longrightarrow> maxima_ok S r \<Longrightarrow> maxima_ok S (rr_charge r i b)"
  using maxima_ok_same [of r "rr_charge r i b"] by simp

text \<open>What a call does after \<open>empty\<close>.\<close>

definition rr_cont :: "nat \<Rightarrow> RoundRobinReader \<Rightarrow> bool \<Rightarrow> RoundRobinReader prog" where
  "rr_cont fuel r none =
     (if none then Return None r
      else let (r1, i) = rr_chosen r in
        if rr_next r1 < 0 then Panic
        else PopOf (QueueRef (rr_configs r1 ! i)) (\<lambda>res.
          case res of
            Some pr \<Rightarrow> Return (Some pr)
              (rr_charge r1 i (wrap64 (BindingsRead (rr_configs r1 ! i) + int (length (Bindings (Spec pr))))))
          | None \<Rightarrow> rr_prog fuel (rr_charge r1 i (MaximumBindings (rr_configs r1 ! i)))))"

lemma rr_prog_cont: "rr_prog (Suc n) r = rr_empty_prog (rr_configs r) (rr_cont n r)"
  unfolding rr_prog.simps(2) by (rule arg_cong [of _ _ "rr_empty_prog (rr_configs r)"], rule ext)
    (simp add: rr_cont_def rr_chosen_def Let_def)

lemma rr_cont_ok:
  assumes "maxima_ok S r" and "rr_configs r \<noteq> []" and "rr_chosen r = (r1, i)"
    and "QueueRef (rr_configs r1 ! i) = Some b"
    and "b \<notin> N \<Longrightarrow> prog_ok (maxima_ok S) S (rr_prog n (rr_charge r1 i (MaximumBindings (rr_configs r1 ! i)))) E N"
  shows "prog_ok (maxima_ok S) S (rr_cont n r False) E N"
proof -
  have c: "same_queues r r1 \<and> \<not> rr_next r1 < 0 \<and> i < length (rr_configs r1)"
    using rr_chosen_open [OF _ assms(2,3)] assms(1) by (simp add: maxima_ok_def)
  then have m: "maxima_ok S r1" using maxima_ok_same assms(1) by blast
  then have "b \<in> S" using maxima_ok_refs [OF m] c nth_mem assms(4) by (metis option.inject)
  with c m assms(3-5) show ?thesis
    using prog_ok_mono [of "maxima_ok S" S "rr_prog n (rr_charge r1 i (MaximumBindings (rr_configs r1 ! i)))" E N "insert b E" N]
    by (auto simp: rr_cont_def maxima_ok_charge subset_insertI)
qed

text \<open>With a request known to wait at an open queue, \<open>empty\<close> cannot answer true.\<close>

definition open_at :: "RoundRobinReader \<Rightarrow> nat set \<Rightarrow> bool" where
  "open_at r N \<longleftrightarrow> (\<exists>j < length (rr_configs r). is_open (rr_configs r ! j) \<and> (\<exists>a \<in> N. QueueRef (rr_configs r ! j) = Some a))"

lemma rr_prog_ok_open:
  assumes "maxima_ok S r" and "open_at r N" and "open_count r \<le> n"
  shows "prog_ok (maxima_ok S) S (rr_prog n r) E N"
  using assms
proof (induction n arbitrary: r E N)
  case 0
  then show ?case unfolding open_at_def open_count_def by (auto simp: filter_empty_conv)
next
  case (Suc n)
  from Suc.prems(2) obtain j a where j: "j < length (rr_configs r)" "is_open (rr_configs r ! j)"
      "a \<in> N" "QueueRef (rr_configs r ! j) = Some a" by (auto simp: open_at_def)
  have ne: "rr_configs r \<noteq> []" using j(1) by auto
  have adr: "a \<in> addresses (rr_configs r)" using j nth_mem by (fastforce simp: addresses_def)
  obtain r1 i where ch: "rr_chosen r = (r1, i)" by fastforce
  have "\<not> rr_next r < 0" using j(2) nth_mem [OF j(1)] by (auto simp: rr_next_neg)
  then have [simp]: "r1 = r" using ch by (auto simp: rr_chosen_def Let_def)
  have c: "i < length (rr_configs r) \<and> is_open (rr_configs r ! i)"
    using rr_chosen_open [OF _ ne ch] Suc.prems(1) by (simp add: maxima_ok_def)
  obtain b where b: "QueueRef (rr_configs r ! i) = Some b"
    using maxima_ok_refs [OF Suc.prems(1)] c nth_mem by metis
  have "prog_ok (maxima_ok S) S (rr_cont n r False) E (insert x N)" for x
  proof (rule rr_cont_ok [OF Suc.prems(1) ne ch])
    assume nb: "b \<notin> insert x N"
    let ?r = "rr_charge r i (MaximumBindings (rr_configs r ! i))"
    have "j \<noteq> i" using nb j(3,4) b by auto
    then have "open_at ?r (insert x N)" using c j unfolding open_at_def
      by (intro exI [of _ j]) (auto simp: rr_charge_nth)
    moreover have "open_count ?r \<le> n" using open_count_close [of i r] c Suc.prems(3) by simp
    ultimately show "prog_ok (maxima_ok S) S (rr_prog n (rr_charge r1 i (MaximumBindings (rr_configs r1 ! i)))) E (insert x N)"
      using Suc.IH [OF maxima_ok_charge] c Suc.prems(1) by simp
  qed (use b in simp)
  moreover have "N \<inter> addresses (rr_configs r) \<noteq> {}" using adr j(3) by blast
  ultimately show ?case unfolding rr_prog_cont
    by (intro rr_empty_prog_ok [OF maxima_ok_refs [OF Suc.prems(1)]]) auto
qed

lemma rr_reset_open_at:
  assumes "maxima_ok S r" and "x \<in> addresses (rr_configs r)"
  shows "open_at (rr_reset r) (insert x N)"
proof -
  from assms(2) obtain j where "j < length (rr_configs r)" "QueueRef (rr_configs r ! j) = Some x"
    by (auto simp: addresses_def in_set_conv_nth)
  with assms(1) show ?thesis unfolding open_at_def
    by (intro exI [of _ j]) (auto simp: maxima_ok_def)
qed

lemma open_at_close:
  assumes "open_at r N" and "i < length (rr_configs r)" and "QueueRef (rr_configs r ! i) = Some b" and "b \<notin> N"
  shows "open_at (rr_charge r i v) N"
proof -
  from assms(1) obtain j a where j: "j < length (rr_configs r)" "is_open (rr_configs r ! j)"
      "a \<in> N" "QueueRef (rr_configs r ! j) = Some a" by (auto simp: open_at_def)
  then have "j \<noteq> i" using assms(3,4) by auto
  with j assms(2) show ?thesis unfolding open_at_def by (intro exI [of _ j]) (auto simp: rr_charge_nth)
qed

lemma rr_prog_Suc_ok:
  assumes "maxima_ok S r"
    and "\<And>x. x \<in> addresses (rr_configs r) \<Longrightarrow> prog_ok (maxima_ok S) S (rr_cont n r False) E (insert x N)"
  shows "prog_ok (maxima_ok S) S (rr_prog (Suc n) r) E N"
proof -
  have "prog_ok (maxima_ok S) S (rr_cont n r True) (E \<union> addresses (rr_configs r)) N"
    using assms(1) by (simp add: rr_cont_def) (simp add: maxima_ok_def)
  then show ?thesis unfolding rr_prog_cont
    using assms(2) by (intro rr_empty_prog_ok [OF maxima_ok_refs [OF assms(1)]])
qed

lemma rr_prog_ok:
  assumes "maxima_ok S r" and "open_count r + length (rr_configs r) < n"
  shows "prog_ok (maxima_ok S) S (rr_prog n r) E N"
  using assms
proof (induction "open_count r" arbitrary: r n E N)
  case (0 r n E N)
  then obtain n' where n': "n = Suc n'" by (cases n) auto
  have "prog_ok (maxima_ok S) S (rr_cont n' r False) E (insert x N)" if x: "x \<in> addresses (rr_configs r)" for x
  proof -
    have ne: "rr_configs r \<noteq> []" using x by (auto simp: addresses_def)
    obtain r1 i where ch: "rr_chosen r = (r1, i)" by fastforce
    have r1 [simp]: "r1 = rr_reset r" using ch 0(1) open_count_0 [of r] by (auto simp: rr_chosen_def Let_def)
    have c: "i < length (rr_configs r1) \<and> is_open (rr_configs r1 ! i)"
      using rr_chosen_open [OF _ ne ch] 0(2) by (simp add: maxima_ok_def)
    have m: "maxima_ok S r1" using maxima_ok_same [of r r1] 0(2) by simp
    obtain b where b: "QueueRef (rr_configs r1 ! i) = Some b"
      using maxima_ok_refs [OF m] c nth_mem by metis
    show ?thesis
    proof (rule rr_cont_ok [OF 0(2) ne ch b])
      assume "b \<notin> insert x N"
      from open_at_close [OF _ _ b this] rr_reset_open_at [OF 0(2) x] c
      have "open_at (rr_charge r1 i (MaximumBindings (rr_configs r1 ! i))) (insert x N)" by simp
      moreover have "open_count (rr_charge r1 i (MaximumBindings (rr_configs r1 ! i))) \<le> n'"
        using open_count_close [OF conjunct1 [OF c] conjunct2 [OF c]] open_count_le [of r1] 0(3) n'
          same_queues_length [OF same_queues_reset [of r]] unfolding r1 by linarith
      ultimately show "prog_ok (maxima_ok S) S (rr_prog n' (rr_charge r1 i (MaximumBindings (rr_configs r1 ! i)))) E (insert x N)"
        using rr_prog_ok_open [OF maxima_ok_charge] c m by blast
    qed
  qed
  then show ?case unfolding n' by (rule rr_prog_Suc_ok [OF 0(2)])
next
  case (Suc m r n E N)
  then obtain n' where n': "n = Suc n'" by (cases n) auto
  have "prog_ok (maxima_ok S) S (rr_cont n' r False) E (insert x N)" if x: "x \<in> addresses (rr_configs r)" for x
  proof -
    have ne: "rr_configs r \<noteq> []" using x by (auto simp: addresses_def)
    obtain r1 i where ch: "rr_chosen r = (r1, i)" by fastforce
    have [simp]: "r1 = r" using ch Suc(2) open_count_0 [of r] by (auto simp: rr_chosen_def Let_def split: if_splits)
    have c: "i < length (rr_configs r) \<and> is_open (rr_configs r ! i)"
      using rr_chosen_open [OF _ ne ch] Suc.prems(1) by (simp add: maxima_ok_def)
    obtain b where b: "QueueRef (rr_configs r1 ! i) = Some b"
      using maxima_ok_refs [OF Suc.prems(1)] c nth_mem by (metis \<open>r1 = r\<close>)
    let ?r = "rr_charge r i (MaximumBindings (rr_configs r ! i))"
    have "m = open_count ?r" using open_count_close [of i r] c Suc(2) by simp
    moreover from this have "open_count ?r + length (rr_configs ?r) < n'" using Suc.hyps(2) Suc.prems(2) n' by simp
    ultimately have "prog_ok (maxima_ok S) S (rr_prog n' ?r) E (insert x N)"
      using Suc.hyps(1) maxima_ok_charge c Suc.prems(1) by blast
    then show ?thesis by (intro rr_cont_ok [OF Suc.prems(1) ne ch b]) simp
  qed
  then show ?case unfolding n' by (rule rr_prog_Suc_ok [OF Suc.prems(1)])
qed

definition rr_read_prog :: "RoundRobinReader \<Rightarrow> RoundRobinReader prog" where
  "rr_read_prog r = rr_prog (rr_fuel r) r"

lemma rr_read_prog_ok: "maxima_ok S r \<Longrightarrow> prog_ok (maxima_ok S) S (rr_read_prog r) {} {}"
  unfolding rr_read_prog_def using open_count_le [of r] by (intro rr_prog_ok) (auto simp: rr_fuel_def)

lemma map_prog_Return:
  "(\<exists>r. map_prog f p = Return res r \<and> I r) \<longleftrightarrow> (\<exists>r. p = Return res r \<and> I (f r))"
  by (cases p) auto

lemma prog_ok_map: "prog_ok I S (map_prog f p) E N = prog_ok (I \<circ> f) S p E N"
  by (induction p arbitrary: E N) (simp_all add: map_prog_Return)

lemma prog_ok_inv_mono: "prog_ok I S p E N \<Longrightarrow> (\<And>r. I r \<Longrightarrow> J r) \<Longrightarrow> prog_ok J S p E N"
proof (induction p arbitrary: E N)
  case (LenOf ref k)
  from LenOf.prems LenOf.IH [OF rangeI] show ?case by fastforce
next
  case (PopOf ref k)
  from PopOf.prems PopOf.IH [OF rangeI] show ?case by fastforce
qed auto

end
