(* ===== verification/Round_Robin_Fairness.thy ===== *)
theory Round_Robin_Fairness
  imports Round_Robin_Reader Samples
begin

text \<open>
  Fairness of the round robin reader (\<open>pkg/queue/round-robin.go\<close>): how long a queue with something to
  read can be passed over while requests keep arriving, how far a queue may exceed its maximum, and
  what the constructor makes of the configured weights.
\<close>

section \<open>The number of bindings that may go before a queue\<close>

text \<open>
  \<open>remaining\<close> is what a queue may still read in the round. A closed queue waits for the rest of the
  round and for the queues before it in the next one, an open queue only for those before it.
\<close>

definition remaining :: "RoundRobinReader \<Rightarrow> nat \<Rightarrow> nat" where
  "remaining r j = nat (MaximumBindings (rr_configs r ! j) - BindingsRead (rr_configs r ! j))"

definition maximum :: "RoundRobinReader \<Rightarrow> nat \<Rightarrow> nat" where
  "maximum r j = nat (MaximumBindings (rr_configs r ! j))"

definition turn_bound :: "nat \<Rightarrow> RoundRobinReader \<Rightarrow> nat" where
  "turn_bound i r =
     (if is_open (rr_configs r ! i) then \<Sum>j<i. remaining r j
      else (\<Sum>j<length (rr_configs r). remaining r j) + (\<Sum>j<i. maximum r j))"

definition longest_wait :: "nat \<Rightarrow> RoundRobinReader \<Rightarrow> nat" where
  "longest_wait i r = (\<Sum>j<length (rr_configs r). maximum r j) + (\<Sum>j<i. maximum r j)"

lemma remaining_le_maximum:
  assumes "rr_bounds r" and "j < length (rr_configs r)"
  shows "remaining r j \<le> maximum r j"
proof -
  have "0 \<le> BindingsRead (rr_configs r ! j)" using assms nth_mem [OF assms(2)] by (simp add: rr_bounds_def)
  then show ?thesis unfolding remaining_def maximum_def by (intro nat_mono) simp
qed

lemma turn_bound_le:
  assumes "rr_bounds r" and "i < length (rr_configs r)"
  shows "turn_bound i r \<le> longest_wait i r"
proof -
  have le: "(\<Sum>j<k. remaining r j) \<le> (\<Sum>j<k. maximum r j)" if "k \<le> length (rr_configs r)" for k
    using remaining_le_maximum [OF assms(1)] that by (intro sum_mono) auto
  show ?thesis using le [of i] le [of "length (rr_configs r)"] assms(2)
    by (auto simp: turn_bound_def longest_wait_def)
qed

lemma remaining_0: "remaining r j = 0 \<longleftrightarrow> \<not> is_open (rr_configs r ! j)"
  by (auto simp: remaining_def)

lemma remaining_reset:
  "j < length (rr_configs r) \<Longrightarrow> remaining (rr_reset r) j = maximum r j"
  by (simp add: remaining_def maximum_def)

lemma rr_ready_maxima: "rr_ready r st \<Longrightarrow> \<forall>c \<in> set (rr_configs r). 0 < MaximumBindings c"
  by (simp add: rr_ready_def)

lemma turn_bound_reset:
  assumes "\<forall>c \<in> set (rr_configs r). 0 < MaximumBindings c" and "rr_next r < 0" and "i < length (rr_configs r)"
  shows "turn_bound i (rr_reset r) = turn_bound i r"
proof -
  have closed: "\<not> is_open (rr_configs r ! j)" if "j < length (rr_configs r)" for j
    using assms(2) that by (auto simp: rr_next_neg)
  have "is_open (rr_configs (rr_reset r) ! i)"
    using assms(1,3) nth_mem [OF assms(3)] by auto
  then have "turn_bound i (rr_reset r) = (\<Sum>j<i. maximum r j)"
    using remaining_reset assms(3) unfolding turn_bound_def by (auto intro!: sum.cong)
  moreover have "(\<Sum>j<length (rr_configs r). remaining r j) = 0"
    using closed by (simp add: remaining_0)
  ultimately show ?thesis using closed [OF assms(3)] by (simp add: turn_bound_def)
qed

lemma turn_bound_chosen:
  assumes "\<forall>c \<in> set (rr_configs r). 0 < MaximumBindings c" and "rr_chosen r = (r1, k)" and "i < length (rr_configs r)"
  shows "turn_bound i r1 = turn_bound i r"
  using assms turn_bound_reset [OF assms(1) _ assms(3)] by (auto simp: rr_chosen_def Let_def split: if_splits)

lemma remaining_charge:
  "k < length (rr_configs r) \<Longrightarrow>
   remaining (rr_charge r k b) j = (if j = k then nat (MaximumBindings (rr_configs r ! k) - b) else remaining r j)"
  by (simp add: remaining_def rr_charge_nth)

lemma maximum_charge: "k < length (rr_configs r) \<Longrightarrow> maximum (rr_charge r k b) j = maximum r j"
  by (simp add: maximum_def rr_charge_nth)

lemma sum_remaining_charge:
  assumes "k < length (rr_configs r)" and "k < m" and "is_open (rr_configs r ! k)"
    and "BindingsRead (rr_configs r ! k) < b"
  shows "(\<Sum>j<m. remaining (rr_charge r k b) j) < (\<Sum>j<m. remaining r j)"
proof (rule sum_strict_mono_ex1)
  show "\<forall>j \<in> {..<m}. remaining (rr_charge r k b) j \<le> remaining r j"
    using assms by (auto simp: remaining_charge) (auto simp: remaining_def)
  show "\<exists>j \<in> {..<m}. remaining (rr_charge r k b) j < remaining r j"
    using assms by (intro bexI [of _ k]) (auto simp: remaining_charge, auto simp: remaining_def)
qed simp

text \<open>Charging another queue brings the turn of queue \<open>i\<close> nearer.\<close>

lemma turn_bound_charge:
  assumes "k < length (rr_configs r)" and "is_open (rr_configs r ! k)"
    and "\<forall>j < k. \<not> is_open (rr_configs r ! j)" and "i < length (rr_configs r)" and "k \<noteq> i"
    and "BindingsRead (rr_configs r ! k) < b"
  shows "turn_bound i (rr_charge r k b) < turn_bound i r"
proof (cases "is_open (rr_configs r ! i)")
  case True
  then have "k < i" using assms(3,5) by (meson linorder_neqE_nat)
  with True assms show ?thesis
    using sum_remaining_charge [OF assms(1) \<open>k < i\<close> assms(2,6)] by (simp add: turn_bound_def rr_charge_nth)
next
  case False
  with assms show ?thesis
    using sum_remaining_charge [OF assms(1) assms(1) assms(2,6)]
    by (simp add: turn_bound_def rr_charge_nth maximum_charge)
qed

lemma rr_bounds_reset: "rr_bounds r \<Longrightarrow> rr_bounds (rr_reset r)"
  by (auto simp: rr_bounds_def)

lemma rr_bounds_chosen: "rr_bounds r \<Longrightarrow> rr_chosen r = (r1, k) \<Longrightarrow> rr_bounds r1"
  using rr_bounds_reset by (auto simp: rr_chosen_def Let_def split: if_splits)

lemma rr_bounds_charge: "rr_bounds r \<Longrightarrow> 0 \<le> b \<Longrightarrow> k < length (rr_configs r) \<Longrightarrow> rr_bounds (rr_charge r k b)"
  using nth_mem [of k "rr_configs r"]
  by (auto simp: rr_bounds_def rr_charge_def dest!: subsetD [OF set_update_subset_insert])

lemma rr_bounds_nth:
  "rr_bounds r \<Longrightarrow> k < length (rr_configs r) \<Longrightarrow> 0 < MaximumBindings (rr_configs r ! k) \<and>
     MaximumBindings (rr_configs r ! k) \<le> 2 ^ 62 \<and> 0 \<le> BindingsRead (rr_configs r ! k)"
  by (simp add: rr_bounds_def)

lemma charge_no_wrap:
  assumes "rr_bounds r" and "k < length (rr_configs r)" and "is_open (rr_configs r ! k)"
    and "length (Bindings (Spec pr)) \<le> 2 ^ 62"
  shows "wrap64 (BindingsRead (rr_configs r ! k) + int (length (Bindings (Spec pr)))) =
     BindingsRead (rr_configs r ! k) + int (length (Bindings (Spec pr)))"
proof (rule wrap64_id)
  have "int (length (Bindings (Spec pr))) \<le> 2 ^ 62" using assms(4) by (simp add: nat_le_iff [symmetric])
  then show "- (2 ^ 63) \<le> BindingsRead (rr_configs r ! k) + int (length (Bindings (Spec pr)))"
    "BindingsRead (rr_configs r ! k) + int (length (Bindings (Spec pr))) < 2 ^ 63"
    using rr_bounds_nth [OF assms(1,2)] assms(3) by auto
qed

section \<open>No waiting queue is starved\<close>

text \<open>
  One \<open>Read\<close> that returns a request and leaves queue \<open>i\<close>, which has something to read, alone.
\<close>

lemma turn_bound_close:
  assumes i: "i < length (rr_configs r)" and w: "waiting st (rr_configs r ! i)"
  shows "closing_keeps st (\<lambda>q. same_queues r q \<and> rr_bounds q \<and> turn_bound i q \<le> turn_bound i r)"
    (is "closing_keeps st ?I")
proof -
  have "?I (rr_charge r1 k (MaximumBindings (rr_configs r1 ! k)))"
    if h: "rr_ready q st" "?I q" "rr_chosen q = (r1, k)" "rr_configs q \<noteq> []" "\<not> waiting st (rr_configs r1 ! k)"
    for q r1 k
  proof -
    note c = rr_chosen_correct [OF h(1,4,3)]
    have s: "same_queues r r1" using h(2) c same_queues_trans by blast
    then have i1: "i < length (rr_configs r1)" using i same_queues_length [OF s] by simp
    have "k \<noteq> i" using h(5) w waiting_same [OF s i] by auto
    then have "turn_bound i (rr_charge r1 k (MaximumBindings (rr_configs r1 ! k))) < turn_bound i r1"
      using turn_bound_charge [of k r1 i] c i1 by simp
    moreover have "turn_bound i r1 = turn_bound i q"
      using turn_bound_chosen [OF rr_ready_maxima [OF h(1)] h(3)] h(2) i same_queues_length [of r q] by simp
    moreover have "same_queues r (rr_charge r1 k (MaximumBindings (rr_configs r1 ! k)))"
      using c by (simp add: same_queues_trans [OF s])
    moreover have b1: "rr_bounds r1" using rr_bounds_chosen h(2,3) by blast
    then have "rr_bounds (rr_charge r1 k (MaximumBindings (rr_configs r1 ! k)))"
      using rr_bounds_nth [of r1 k] c by (intro rr_bounds_charge) auto
    ultimately show ?thesis using h(2) by simp
  qed
  then show ?thesis unfolding closing_keeps_def by blast
qed

lemma passed_over_step:
  assumes rdy: "rr_ready r st" and bnd: "rr_bounds r" and i: "i < length (rr_configs r)"
    and ref: "QueueRef (rr_configs r ! i) = Some a" and w: "Len (st ! a) \<noteq> 0"
    and rd: "rr_Read n r st = Done (Some pr, r', st')" and skip: "Len (st' ! a) = Len (st ! a)"
    and size: "0 < length (Bindings (Spec pr))" "length (Bindings (Spec pr)) \<le> 2 ^ 62"
  shows "rr_bounds r' \<and> same_queues r r' \<and> turn_bound i r' < turn_bound i r"
proof -
  have ne: "\<not> all_empty st (addresses (rr_configs r))" and wi: "waiting st (rr_configs r ! i)"
    using i ref w by (auto simp: some_waiting waiting_def)
  from rr_Read_rule [OF rdy ne _ turn_bound_close [OF i wi] rd] bnd obtain q r1 k a' q' where
    x: "rr_bounds q \<and> turn_bound i q \<le> turn_bound i r" "rr_ready q st" "rr_configs q \<noteq> []" "same_queues r q"
      "same_queues r r1" "rr_chosen q = (r1, k)" "QueueRef (rr_configs r1 ! k) = Some a'" "a' < length st"
      "Pop (st ! a') = Some (Some pr, q')" "st' = st[a' := q']"
      "r' = rr_charge r1 k (wrap64 (BindingsRead (rr_configs r1 ! k) + int (length (Bindings (Spec pr)))))"
    by auto
  note c = rr_chosen_correct [OF x(2,3,6)]
  have b1: "rr_bounds r1" using rr_bounds_chosen x(1,6) by blast
  have "a' \<noteq> a"
  proof
    assume "a' = a"
    then have "Len (st ! a) = Suc (Len q')"
      using Pop_Some_inv [OF _ x(9)] x(8) rdy
      by (auto simp: rr_ready_def refs_ok_def store_invD Len_requests)
    with skip \<open>a' = a\<close> x(8,10) show False by simp
  qed
  then have "k \<noteq> i" using x(7) ref i same_queues_nth(1) [OF x(5) i] by auto
  have "wrap64 (BindingsRead (rr_configs r1 ! k) + int (length (Bindings (Spec pr)))) =
      BindingsRead (rr_configs r1 ! k) + int (length (Bindings (Spec pr)))"
    using charge_no_wrap [OF b1 _ _ size(2)] c by simp
  with x(11) have r': "r' = rr_charge r1 k (BindingsRead (rr_configs r1 ! k) + int (length (Bindings (Spec pr))))"
    by simp
  have "turn_bound i r' < turn_bound i r1"
    unfolding r' using turn_bound_charge [of k r1 i] c i \<open>k \<noteq> i\<close> same_queues_length [OF x(5)] size(1) by simp
  moreover have "turn_bound i r1 = turn_bound i q"
    using turn_bound_chosen [OF rr_ready_maxima [OF x(2)] x(6)] i same_queues_length [OF x(4)] by simp
  moreover have "rr_bounds r'" unfolding r' using rr_bounds_nth [OF b1] c by (intro rr_bounds_charge b1) auto
  moreover have "same_queues r r'" unfolding r' using c by (simp add: same_queues_trans [OF x(5)])
  ultimately show ?thesis using x(1) by simp
qed

text \<open>
  Runs in which queue \<open>i\<close>, at address \<open>a\<close>, is passed over: each read finds it waiting and leaves it
  alone. Between the reads anything may happen to the queues (requests are pushed to them), as long
  as the store keeps its invariant. The counter is the number of reads.
\<close>

inductive passed_over ::
  "nat \<Rightarrow> nat \<Rightarrow> RoundRobinReader \<Rightarrow> 'h qstore \<Rightarrow> nat \<Rightarrow> RoundRobinReader \<Rightarrow> 'h qstore \<Rightarrow> bool"
  for i a r st where
  start: "passed_over i a r st 0 r st"
| pushes: "passed_over i a r st n r1 st1 \<Longrightarrow> rr_ready r1 st2 \<Longrightarrow> passed_over i a r st n r1 st2"
| read: "passed_over i a r st n r1 st1 \<Longrightarrow> Len (st1 ! a) \<noteq> 0 \<Longrightarrow>
    rr_step r1 st1 = Some (Some pr, r2, st2) \<Longrightarrow> Len (st2 ! a) = Len (st1 ! a) \<Longrightarrow>
    0 < length (Bindings (Spec pr)) \<Longrightarrow> length (Bindings (Spec pr)) \<le> 2 ^ 62 \<Longrightarrow>
    passed_over i a r st (Suc n) r2 st2"

lemma rr_step_Done: "rr_step r st = Some x \<longleftrightarrow> rr_Read (rr_fuel r) r st = Done x"
  by (auto simp: rr_step_def split: run.splits)

lemma passed_over_bound:
  assumes "passed_over i a r st n r' st'" and "rr_ready r st" and "rr_bounds r"
    and "i < length (rr_configs r)" and "QueueRef (rr_configs r ! i) = Some a"
  shows "rr_ready r' st' \<and> rr_bounds r' \<and> same_queues r r' \<and> n + turn_bound i r' \<le> turn_bound i r"
  using assms(1)
proof (induction rule: passed_over.induct)
  case start
  then show ?case using assms by simp
next
  case (pushes n r1 st1 st2)
  then show ?case by simp
next
  case (read n r1 st1 pr r2 st2)
  have s: "same_queues r r1" using read.IH by simp
  then have ri: "i < length (rr_configs r1)" "QueueRef (rr_configs r1 ! i) = Some a"
    using assms(4,5) same_queues_length [OF s] same_queues_nth(1) [OF s] by simp_all
  have d: "rr_Read (rr_fuel r1) r1 st1 = Done (Some pr, r2, st2)" using read.hyps(3) by (simp add: rr_step_Done)
  have p: "rr_bounds r2 \<and> same_queues r1 r2 \<and> turn_bound i r2 < turn_bound i r1"
    using passed_over_step [OF _ _ ri _ d] read by blast
  moreover have "rr_ready r2 st2"
    using round_robin.read_law [of r1 st1] read.hyps(3) read.IH by auto
  ultimately show ?case using read.IH same_queues_trans [OF s] by simp
qed

text \<open>
  No queue is starved. While requests keep arriving at every queue, a queue with something to read
  is passed over in at most as many consecutive reads as the maximum bindings of all queues together,
  plus those of the queues before it (requests with at least one binding each, no overflow of the
  counters).
\<close>

theorem round_robin_no_starvation:
  assumes "passed_over i a r st n r' st'" and "rr_ready r st" and "rr_bounds r"
    and "i < length (rr_configs r)" and "QueueRef (rr_configs r ! i) = Some a"
  shows "n \<le> longest_wait i r"
  using passed_over_bound [OF assms] turn_bound_le [OF assms(3,4)] by simp

text \<open>Two queues with a request each; the first is served, the second passed over once.\<close>

definition sample_reader :: RoundRobinReader where
  "sample_reader = \<lparr>rr_configs =
     [QueueConfig.extend (sample_config ''a'' 1 0) \<lparr>MaximumBindings = 10, BindingsRead = 0\<rparr>,
      QueueConfig.extend (sample_config ''b'' 3 1) \<lparr>MaximumBindings = 30, BindingsRead = 0\<rparr>]\<rparr>"

lemma sample_reader_ready: "rr_ready sample_reader sample_store" "rr_bounds sample_reader"
  by (simp_all add: sample_reader_def rr_ready_def refs_ok_def rr_bounds_def QueueConfig.defs sample_config_def)

lemma sample_reader_step:
  "rr_step sample_reader sample_store = Some (Some first_request, rr_charge sample_reader 0 2, sample_store[0 := sample_queue []])"
  by code_simp

theorem round_robin_no_starvation_witness:
  "passed_over 1 1 sample_reader sample_store 1 (rr_charge sample_reader 0 2) (sample_store[0 := sample_queue []]) \<and>
   1 \<le> longest_wait 1 sample_reader"
proof -
  have "Len (sample_store[0 := sample_queue []] ! 1) = Len (sample_store ! 1)" by (simp add: sample_store_def)
  moreover have "length (Bindings (Spec first_request)) = 2" by (simp add: first_request_def sample_request_def)
  ultimately have p: "passed_over 1 1 sample_reader sample_store (Suc 0) (rr_charge sample_reader 0 2) (sample_store[0 := sample_queue []])"
    by (intro passed_over.read [OF passed_over.start _ sample_reader_step]) simp_all
  then have "1 \<le> longest_wait 1 sample_reader"
    using round_robin_no_starvation [OF p sample_reader_ready]
    by (simp add: sample_reader_def QueueConfig.defs sample_config_def)
  with p show ?thesis by simp
qed

section \<open>What the constructor makes of the weights\<close>

lemma weight_cmp_less:
  assumes "uint (Weight a) < 2 ^ 63" and "uint (Weight b) < 2 ^ 63"
  shows "weight_cmp a b < 0 \<longleftrightarrow> uint (Weight a) < uint (Weight b)"
proof -
  have "wrap64 (uint (Weight a) - uint (Weight b)) = uint (Weight a) - uint (Weight b)"
    using assms uint_ge_0 [of "Weight a"] uint_ge_0 [of "Weight b"] by (intro wrap64_id) linarith+
  then show ?thesis using assms by (simp add: weight_cmp_def sint_uint_small)
qed

lemma min_func_loop_least:
  assumes "\<forall>c \<in> set (m # cs). uint (Weight c) < 2 ^ 63"
  shows "min_func_loop weight_cmp m cs \<in> set (m # cs) \<and>
     (\<forall>c \<in> set (m # cs). uint (Weight (min_func_loop weight_cmp m cs)) \<le> uint (Weight c))"
  using assms
proof (induction cs arbitrary: m)
  case Nil
  then show ?case by simp
next
  case (Cons c cs)
  let ?m = "if weight_cmp c m < 0 then c else m"
  have "uint (Weight ?m) \<le> uint (Weight c)" "uint (Weight ?m) \<le> uint (Weight m)" "?m \<in> {c, m}"
    using weight_cmp_less [of c m] Cons.prems by auto
  moreover have "\<forall>x \<in> set (?m # cs). uint (Weight x) < 2 ^ 63" using Cons.prems by auto
  note Cons.IH [OF this]
  ultimately show ?case by (auto split: if_splits)
qed

definition least_weight :: "QueueConfigs \<Rightarrow> int" where
  "least_weight cs = Min ((\<lambda>c. uint (Weight c)) ` set cs)"

definition weights_within :: "int \<Rightarrow> QueueConfigs \<Rightarrow> bool" where
  "weights_within b cs \<longleftrightarrow> (\<forall>c \<in> set cs. 0 < uint (Weight c) \<and> uint (Weight c) \<le> b)"

lemma slices_MinFunc_least:
  assumes "cs \<noteq> []" and "weights_within b cs" and "b < 2 ^ 63"
  shows "\<exists>c \<in> set cs. slices_MinFunc weight_cmp cs = Some c \<and> uint (Weight c) = least_weight cs"
proof (cases cs)
  case (Cons m rest)
  have "\<forall>c \<in> set (m # rest). uint (Weight c) < 2 ^ 63"
    using assms(2,3) Cons by (auto simp: weights_within_def)
  from min_func_loop_least [OF this] Cons show ?thesis
    unfolding least_weight_def slices_MinFunc_def
    by (intro bexI [of _ "min_func_loop weight_cmp m rest"]) (auto intro!: Min_eqI [symmetric])
qed (use assms in simp)

lemma least_weight_bounds:
  assumes "cs \<noteq> []" and "weights_within b cs" and "c \<in> set cs"
  shows "0 < least_weight cs" "least_weight cs \<le> uint (Weight c)"
  using assms by (auto simp: least_weight_def weights_within_def)

lemma max_bindings_eq:
  "max_bindings oor w l = int_of_float64 oor (of_int \<lceil>rnd64 (rnd64 (rnd64 (of_int (uint w)) / rnd64 (of_int (uint l))) * 10)\<rceil>)"
  using rnd64_of_int [of 10]
  by (simp add: max_bindings_def Let_def float64_div_def float64_mult_def float64_of_uint_def MinimumBindings_def)

lemma int_of_float64_in_range:
  "0 \<le> n \<Longrightarrow> n \<le> m \<Longrightarrow> m < 2 ^ 63 \<Longrightarrow> int_of_float64 oor (of_int n) = n"
  by (simp add: int_of_float64_def Let_def)

lemma ceiling_share_range:
  fixes l w :: int
  assumes "0 < l" and "0 \<le> w"
  shows "0 \<le> \<lceil>of_int (10 * w) / (of_int l :: rat)\<rceil>" "\<lceil>of_int (10 * w) / (of_int l :: rat)\<rceil> \<le> 10 * w"
proof -
  have l: "(1 :: rat) \<le> of_int l" using assms(1) by simp
  have "0 \<le> of_int (10 * w) / (of_int l :: rat)" using assms by simp
  then show "0 \<le> \<lceil>of_int (10 * w) / (of_int l :: rat)\<rceil>" by linarith
  have "of_int (10 * w) \<le> of_int (10 * w) * (of_int l :: rat)"
    using mult_left_mono [OF l, of "of_int (10 * w)"] assms(2) by simp
  then have "of_int (10 * w) / (of_int l :: rat) \<le> of_int (10 * w)" using l by (simp only: divide_le_eq) simp
  then show "\<lceil>of_int (10 * w) / (of_int l :: rat)\<rceil> \<le> 10 * w" by (simp only: ceiling_le_iff)
qed

lemma max_bindings_exact:
  assumes "0 < uint l" and "uint l \<le> uint w" and "uint w < 2 ^ 48"
  shows "max_bindings oor w l = \<lceil>of_int (10 * uint w) / (of_int (uint l) :: rat)\<rceil>"
proof -
  have "rnd64 (of_int (uint w)) = of_int (uint w)" "rnd64 (of_int (uint l)) = of_int (uint l)"
    using assms by (intro rnd64_of_int; simp)+
  then have m: "max_bindings oor w l = int_of_float64 oor (of_int \<lceil>of_int (10 * uint w) / (of_int (uint l) :: rat)\<rceil>)"
    by (simp only: max_bindings_eq float_share_exact [OF assms])
  show ?thesis unfolding m
    using assms(3) by (intro int_of_float64_in_range [OF ceiling_share_range [OF assms(1) uint_ge_0]]) simp
qed

lemma float_share_range:
  fixes l w :: int
  assumes "0 < l" and "l \<le> w" and "w \<le> 2 ^ 58"
  shows "10 \<le> \<lceil>rnd64 (rnd64 (rnd64 (of_int w) / rnd64 (of_int l)) * 10)\<rceil>"
    and "\<lceil>rnd64 (rnd64 (rnd64 (of_int w) / rnd64 (of_int l)) * 10)\<rceil> \<le> 2 ^ 62"
proof -
  let ?l = "rnd64 (of_int l)" and ?w = "rnd64 (of_int w)"
  have l: "1 \<le> ?l" using assms rnd64_ge_int [of 1 "of_int l"] by simp
  have lw: "?l \<le> ?w" using assms by (intro rnd64_mono) simp_all
  have "(of_int w :: rat) \<le> of_int (2 ^ 58)" using assms(3) by (simp only: of_int_le_iff)
  then have "?w \<le> rnd64 (2 ^ 58)" using assms by (intro rnd64_mono) simp_all
  also have "\<dots> = 2 ^ 58" using rnd64_exact [of "2 ^ 58" 1 58] by simp
  finally have w: "?w \<le> 2 ^ 58" .
  have "10 \<le> rnd64 (rnd64 (?w / ?l) * 10)" using float_share_ge_ten [of ?l ?w] l lw by simp
  then show "10 \<le> \<lceil>rnd64 (rnd64 (?w / ?l) * 10)\<rceil>" by linarith
  have "?w \<le> ?w * ?l" using mult_left_mono [OF l, of ?w] l lw by simp
  then have "?w / ?l \<le> ?w" using l by (simp add: divide_le_eq)
  moreover have "0 < ?w / ?l" using l lw by simp
  ultimately have "rnd64 (rnd64 (?w / ?l) * 10) \<le> of_int (2 ^ 62)"
    using float_share_upper [of "?w / ?l"] w by simp
  then show "\<lceil>rnd64 (rnd64 (?w / ?l) * 10)\<rceil> \<le> 2 ^ 62" by (simp only: ceiling_le_iff)
qed

lemma max_bindings_range:
  assumes "0 < uint l" and "uint l \<le> uint w" and "uint w \<le> 2 ^ 58"
  shows "10 \<le> max_bindings oor w l \<and> max_bindings oor w l \<le> 2 ^ 62"
proof -
  note n = float_share_range [OF assms]
  have "max_bindings oor w l = \<lceil>rnd64 (rnd64 (rnd64 (of_int (uint w)) / rnd64 (of_int (uint l))) * 10)\<rceil>"
    unfolding max_bindings_eq by (intro int_of_float64_in_range [OF order_trans [OF _ n(1)] n(2)]) simp_all
  with n show ?thesis by simp
qed

lemma NewRoundRobinReader_eq:
  assumes "cs \<noteq> []" and "weights_within b cs" and "b < 2 ^ 63"
  shows "NewRoundRobinReader oor cs = Some \<lparr>rr_configs = map (\<lambda>cfg. QueueConfig.extend (QueueConfig.truncate cfg)
       \<lparr>MaximumBindings = max_bindings oor (Weight cfg) (word_of_int (least_weight cs)), BindingsRead = 0\<rparr>) cs\<rparr>"
proof -
  from slices_MinFunc_least [OF assms] obtain c where
    c: "c \<in> set cs" "slices_MinFunc weight_cmp cs = Some c" "uint (Weight c) = least_weight cs" by blast
  have "Weight c = word_of_int (least_weight cs)" using c(3) by (metis word_of_int_uint)
  moreover have "Weight c \<noteq> 0" using c(1) assms(2) by (auto simp: weights_within_def)
  ultimately show ?thesis using c(2) by (simp add: NewRoundRobinReader_def)
qed

lemma extended_fields [simp]:
  "QueueRef (QueueConfig.extend (QueueConfig.truncate c) \<lparr>MaximumBindings = m, BindingsRead = n\<rparr>) = QueueRef c"
  "MaximumBindings (QueueConfig.extend (QueueConfig.truncate c) \<lparr>MaximumBindings = m, BindingsRead = n\<rparr>) = m"
  "BindingsRead (QueueConfig.extend (QueueConfig.truncate c) \<lparr>MaximumBindings = m, BindingsRead = n\<rparr>) = n"
  by (simp_all add: QueueConfig.defs)

lemma uint_least_weight:
  assumes "cs \<noteq> []" and "weights_within b cs" and "b < 2 ^ 63"
  shows "uint (word_of_int (least_weight cs) :: uint) = least_weight cs"
  using slices_MinFunc_least [OF assms] by (metis word_of_int_uint)

lemma new_reader_fields:
  assumes "cs \<noteq> []" and "weights_within (2 ^ 58) cs"
  shows "\<exists>r. NewRoundRobinReader oor cs = Some r \<and> rr_bounds r \<and> map QueueRef (rr_configs r) = map QueueRef cs"
proof -
  have lt: "(2 :: int) ^ 58 < 2 ^ 63" by simp
  note l = uint_least_weight [OF assms lt]
  let ?m = "\<lambda>c. max_bindings oor (Weight c) (word_of_int (least_weight cs))"
  have "10 \<le> ?m c \<and> ?m c \<le> 2 ^ 62" if "c \<in> set cs" for c
    using max_bindings_range [of "word_of_int (least_weight cs)" "Weight c" oor, unfolded l]
      least_weight_bounds [OF assms that] assms(2) that by (auto simp: weights_within_def)
  then have "0 < ?m c \<and> ?m c \<le> 2 ^ 62" if "c \<in> set cs" for c
    using that by (meson order_less_le_trans zero_less_numeral)
  then show ?thesis by (simp add: NewRoundRobinReader_eq [OF assms lt] rr_bounds_def)
qed

section \<open>Properties of the constructor\<close>

text \<open>
  C16: \<open>NewRoundRobinReader\<close> on validated weights below \<open>2 ^ 48\<close> gives every queue, in the configured
  order and with its reference kept, a maximum of exactly the ceiling of ten times its weight over the
  least weight, in spite of the two roundings of the float computation; the lightest queue gets
  \<open>MinimumBindings\<close> and no queue gets less.
\<close>

theorem NewRoundRobinReader_shares:
  assumes "cs \<noteq> []" and "weights_within (2 ^ 48 - 1) cs"
  shows "\<exists>r. NewRoundRobinReader oor cs = Some r \<and> length (rr_configs r) = length cs \<and>
     (\<forall>i < length cs. QueueRef (rr_configs r ! i) = QueueRef (cs ! i) \<and> BindingsRead (rr_configs r ! i) = 0 \<and>
        MaximumBindings (rr_configs r ! i) =
          \<lceil>of_int (10 * uint (Weight (cs ! i))) / (of_int (least_weight cs) :: rat)\<rceil> \<and>
        MinimumBindings \<le> MaximumBindings (rr_configs r ! i)) \<and>
     (\<exists>i < length cs. MaximumBindings (rr_configs r ! i) = MinimumBindings)"
proof -
  let ?w = "\<lambda>i. uint (Weight (cs ! i))" and ?l = "least_weight cs"
  have lt: "(2 :: int) ^ 48 - 1 < 2 ^ 63" by simp
  note l = uint_least_weight [OF assms lt]
  have b: "0 < ?l \<and> ?l \<le> ?w i \<and> ?w i < 2 ^ 48" if "i < length cs" for i
  proof -
    have "?w i \<le> 2 ^ 48 - 1" using assms(2) nth_mem [OF that] unfolding weights_within_def by blast
    then show ?thesis using least_weight_bounds [OF assms nth_mem [OF that]] by simp
  qed
  have m: "max_bindings oor (Weight (cs ! i)) (word_of_int ?l) = \<lceil>of_int (10 * ?w i) / (of_int ?l :: rat)\<rceil> \<and>
      MinimumBindings \<le> \<lceil>of_int (10 * ?w i) / (of_int ?l :: rat)\<rceil>" if "i < length cs" for i
    using max_bindings_exact [of "word_of_int ?l" "Weight (cs ! i)" oor, unfolded l]
      max_bindings_range [of "word_of_int ?l" "Weight (cs ! i)" oor, unfolded l] b [OF that]
    by (simp add: MinimumBindings_def del: of_int_mult of_int_uint)
  obtain k where k: "k < length cs" "?w k = ?l"
    using slices_MinFunc_least [OF assms lt] by (auto simp: in_set_conv_nth)
  have "of_int (10 * ?l) / (of_int ?l :: rat) = 10" using b [OF k(1)] by simp
  then have "max_bindings oor (Weight (cs ! k)) (word_of_int ?l) = MinimumBindings"
    using m [OF k(1)] unfolding k(2) by (simp add: MinimumBindings_def)
  with k(1) m show ?thesis by (auto simp: NewRoundRobinReader_eq [OF assms lt])
qed

theorem NewRoundRobinReader_shares_witness:
  "\<exists>r. NewRoundRobinReader (\<lambda>_. 0) sample_configs = Some r \<and> MaximumBindings (rr_configs r ! 0) = 10 \<and>
     MaximumBindings (rr_configs r ! 1) = 30"
proof -
  have "weights_within (2 ^ 48 - 1) sample_configs" "sample_configs \<noteq> []" "least_weight sample_configs = 1"
    by (simp_all add: weights_within_def least_weight_def sample_configs_def)
  then show ?thesis using NewRoundRobinReader_shares [of sample_configs "\<lambda>_. 0"]
    by (auto simp: sample_configs_def)
qed

text \<open>
  On validated weights up to \<open>2 ^ 58\<close> and queues of the store, \<open>NewRoundRobinReader\<close> succeeds and
  its reader meets the reader contract: the counters stay within bounds and \<open>Read\<close> always returns
  (\<open>rr_ready\<close> and \<open>rr_bounds\<close> are what the termination, delivery and fairness results ask for).
\<close>

theorem NewRoundRobinReader_ready:
  assumes "cs \<noteq> []" and "weights_within (2 ^ 58) cs" and "refs_ok st cs"
  shows "\<exists>r. NewRoundRobinReader oor cs = Some r \<and> rr_ready r st \<and> rr_bounds r \<and>
     addresses (rr_configs r) = addresses cs"
proof -
  from new_reader_fields [OF assms(1,2), of oor] obtain r where
    r: "NewRoundRobinReader oor cs = Some r" "rr_bounds r" "map QueueRef (rr_configs r) = map QueueRef cs" by blast
  have q: "QueueRef ` set (rr_configs r) = QueueRef ` set cs" using r(3) by (metis list.set_map)
  have "refs_ok st (rr_configs r)" using assms(3) q by (simp add: refs_ok_image)
  moreover have "\<forall>c \<in> set (rr_configs r). 0 < MaximumBindings c" using r(2) by (simp add: rr_bounds_def)
  ultimately show ?thesis using r(1,2) q by (simp add: rr_ready_def addresses_image)
qed

theorem NewRoundRobinReader_ready_witness:
  "\<exists>r. NewRoundRobinReader (\<lambda>_. 0) sample_configs = Some r \<and> rr_ready r sample_store \<and> rr_bounds r \<and>
     addresses (rr_configs r) = {0, 1}"
proof -
  have "sample_configs \<noteq> []" "weights_within (2 ^ 58) sample_configs"
    by (simp_all add: weights_within_def sample_configs_def)
  then show ?thesis using NewRoundRobinReader_ready [of sample_configs sample_store "\<lambda>_. 0"] by simp
qed

section \<open>How far a queue exceeds its maximum\<close>

text \<open>The counters of all queues stay below the maximum plus the size of one request.\<close>

definition within_quota :: "nat \<Rightarrow> RoundRobinReader \<Rightarrow> bool" where
  "within_quota b r \<longleftrightarrow> (\<forall>c \<in> set (rr_configs r). BindingsRead c < MaximumBindings c + int b)"

lemma within_quota_charge:
  assumes "within_quota b r" and "k < length (rr_configs r)" and "n < MaximumBindings (rr_configs r ! k) + int b"
  shows "within_quota b (rr_charge r k n)"
  using assms by (auto simp: within_quota_def rr_charge_def dest!: subsetD [OF set_update_subset_insert])

lemma within_quota_chosen:
  assumes "rr_bounds r" and "within_quota b r" and "rr_chosen r = (r1, k)"
  shows "within_quota b r1"
  using assms by (fastforce simp: rr_chosen_def Let_def within_quota_def rr_bounds_def split: if_splits)

lemma quota_close: "0 < b \<Longrightarrow> closing_keeps st (\<lambda>q. rr_bounds q \<and> within_quota b q)"
  unfolding closing_keeps_def
proof (intro allI impI)
  fix r r1 i
  assume h: "0 < b" "rr_ready r st" "rr_bounds r \<and> within_quota b r" "rr_chosen r = (r1, i)" "rr_configs r \<noteq> []"
  note c = rr_chosen_correct [OF h(2,5,4)]
  have "rr_bounds r1" "within_quota b r1" using h(3,4) rr_bounds_chosen within_quota_chosen by blast+
  then show "rr_bounds (rr_charge r1 i (MaximumBindings (rr_configs r1 ! i))) \<and>
      within_quota b (rr_charge r1 i (MaximumBindings (rr_configs r1 ! i)))"
    using c h(1) rr_bounds_nth [of r1 i] by (auto intro!: rr_bounds_charge within_quota_charge)
qed

text \<open>
  In every round a queue reads at most its maximum of bindings, exceeded by less than one request:
  with requests of at most \<open>b\<close> bindings, \<open>Read\<close> keeps every counter below the maximum plus \<open>b\<close>, and
  keeps the counters and maxima in range.
\<close>

theorem rr_Read_quota:
  assumes "rr_ready r st" and "rr_bounds r" and "within_quota b r" and "0 < b" and "b \<le> 2 ^ 62"
    and "rr_step r st = Some (Some pr, r', st')" and "length (Bindings (Spec pr)) \<le> b"
  shows "rr_bounds r' \<and> within_quota b r'"
proof -
  have d: "rr_Read (rr_fuel r) r st = Done (Some pr, r', st')" using assms(6) by (simp add: rr_step_Done)
  have ne: "\<not> all_empty st (addresses (rr_configs r))"
    using round_robin.read_law [OF assms(1)] assms(6) Pop_empty
    by (fastforce simp: read_result_def pops_one_def all_empty_def)
  have init: "rr_bounds r \<and> within_quota b r" using assms by simp
  from rr_Read_rule [OF assms(1) ne init quota_close [OF assms(4)] d] obtain q r1 k where
    x: "rr_bounds q \<and> within_quota b q" "rr_ready q st" "rr_configs q \<noteq> []" "rr_chosen q = (r1, k)"
      "r' = rr_charge r1 k (wrap64 (BindingsRead (rr_configs r1 ! k) + int (length (Bindings (Spec pr)))))" by auto
  note c = rr_chosen_correct [OF x(2,3,4)]
  have b1: "rr_bounds r1" "within_quota b r1" using x(1,4) rr_bounds_chosen within_quota_chosen by blast+
  have size: "length (Bindings (Spec pr)) \<le> 2 ^ 62" using assms(5,7) by simp
  note w = charge_no_wrap [OF b1(1) _ _ size, of k]
  show ?thesis
    unfolding x(5) using c w b1 assms(7) rr_bounds_nth [OF b1(1), of k]
    by (auto intro!: rr_bounds_charge within_quota_charge)
qed

theorem rr_Read_quota_witness:
  "rr_bounds (rr_charge sample_reader 0 2) \<and> within_quota 5 (rr_charge sample_reader 0 2)"
proof -
  have "within_quota 5 sample_reader" by (simp add: within_quota_def sample_reader_def QueueConfig.defs sample_config_def)
  moreover have "length (Bindings (Spec first_request)) \<le> 5" by (simp add: first_request_def sample_request_def)
  ultimately show ?thesis
    using rr_Read_quota [OF sample_reader_ready _ _ _ sample_reader_step, of 5] by simp
qed

section \<open>Extreme weights\<close>

text \<open>A reader of an empty queue with a positive maximum and a waiting one without.\<close>

lemma rr_Read_diverges:
  assumes "QueueRef c = Some a" "QueueRef d = Some b" "a < length st" "b < length st"
    and "Len (st ! a) = 0" "Len (st ! b) \<noteq> 0" and "0 < MaximumBindings c" "MaximumBindings d \<le> 0"
    and "BindingsRead d = 0"
  shows "rr_Read n \<lparr>rr_configs = [c, d]\<rparr> st = OutOfFuel"
  using assms
proof (induction n arbitrary: c)
  case 0
  then show ?case by simp
next
  case (Suc n)
  have e: "rr_empty st \<lparr>rr_configs = [c, d]\<rparr> = Some False"
    using Suc.prems by (simp add: rr_empty_def)
  let ?c = "c\<lparr>BindingsRead := MaximumBindings c\<rparr>"
  have IH: "rr_Read n \<lparr>rr_configs = [?c, d]\<rparr> st = OutOfFuel"
    using Suc.prems by (intro Suc.IH) simp_all
  have dd: "d\<lparr>BindingsRead := 0\<rparr> = d" using Suc.prems(9) by simp
  show ?case using Suc.prems e IH
    by (simp add: rr_Read.simps(2) Let_def rr_next_def rr_reset_def dd ref_Pop_empty)
qed

text \<open>
  C26: weights of an extreme ratio make \<open>Read\<close> recurse forever. The two queues below pass the queue
  validation, but the maximum of the heavy one, ten times \<open>2 ^ 62\<close>, is out of the range of \<open>int\<close>; where
  the conversion gives the least integer, as on amd64, it is negative and the queue is never open. Once
  only that queue has something to read, no number of calls lets \<open>Read\<close> return.
\<close>

theorem round_robin_extreme_weights_diverge:
  assumes "\<forall>x. 2 ^ 63 \<le> x \<longrightarrow> oor x = - (2 ^ 63)"
    and "cs = [\<lparr>q_SchedulerName = ''light'', Weight = 1, MaxSize = 1, q_Plugins = p, QueueRef = Some 0\<rparr>,
               \<lparr>q_SchedulerName = ''heavy'', Weight = 2 ^ 62, MaxSize = 1, q_Plugins = p, QueueRef = Some 1\<rparr>]"
    and "length st = 2" and "Len (st ! 0) = 0" and "Len (st ! 1) \<noteq> 0"
  shows "QueueConfigs_Validate cs = None \<and>
     (\<exists>r. NewRoundRobinReader oor cs = Some r \<and> (\<forall>n. rr_Read n r st = OutOfFuel))"
proof -
  have val: "QueueConfigs_Validate cs = None" using assms(2) by (simp add: QueueConfigs_Validate_None config_ok_def)
  have ww: "weights_within (2 ^ 62) cs" using assms(2) by (simp add: weights_within_def)
  have lw: "least_weight cs = 1" using assms(2) by (simp add: least_weight_def)
  have new: "NewRoundRobinReader oor cs = Some \<lparr>rr_configs = map (\<lambda>cfg. QueueConfig.extend (QueueConfig.truncate cfg)
       \<lparr>MaximumBindings = max_bindings oor (Weight cfg) 1, BindingsRead = 0\<rparr>) cs\<rparr>"
    using NewRoundRobinReader_eq [OF _ ww, of oor] assms(2) lw by simp
  have one: "rnd64 1 = 1" using rnd64_of_int [of 1] by simp
  have heavy: "max_bindings oor (2 ^ 62) 1 = - (2 ^ 63)"
  proof -
    have "rnd64 (2 ^ 62) = 2 ^ 62" using rnd64_exact [of "2 ^ 62" 1 62] by simp
    moreover have "rnd64 (2 ^ 62 * 10) = 2 ^ 62 * 10" using rnd64_exact [of "2 ^ 62 * 10" 10 62] by simp
    ultimately have "max_bindings oor (2 ^ 62) 1 = int_of_float64 oor (of_int (2 ^ 62 * 10))"
      using one by (simp add: max_bindings_eq)
    then show ?thesis using assms(1) by (simp add: int_of_float64_def Let_def)
  qed
  have light: "10 \<le> max_bindings oor 1 1" using max_bindings_range [of 1 1 oor] by simp
  have "rr_Read n \<lparr>rr_configs = map (\<lambda>cfg. QueueConfig.extend (QueueConfig.truncate cfg)
       \<lparr>MaximumBindings = max_bindings oor (Weight cfg) 1, BindingsRead = 0\<rparr>) cs\<rparr> st = OutOfFuel" for n
    unfolding assms(2) list.map using assms(3-5) light heavy
    by (intro rr_Read_diverges [where a = 0 and b = 1]) simp_all
  with val new show ?thesis by blast
qed

theorem round_robin_extreme_weights_diverge_witness:
  "\<exists>r. NewRoundRobinReader (\<lambda>_. - (2 ^ 63))
     [\<lparr>q_SchedulerName = ''light'', Weight = 1, MaxSize = 1, q_Plugins = \<lparr>plug_Validate = \<lparr>Enabled = [], Disabled = []\<rparr>\<rparr>, QueueRef = Some 0\<rparr>,
      \<lparr>q_SchedulerName = ''heavy'', Weight = 2 ^ 62, MaxSize = 1, q_Plugins = \<lparr>plug_Validate = \<lparr>Enabled = [], Disabled = []\<rparr>\<rparr>, QueueRef = Some 1\<rparr>] =
     Some r \<and> (\<forall>n. rr_Read n r [sample_queue [], sample_queue [first_request]] = OutOfFuel)"
  using round_robin_extreme_weights_diverge [OF _ refl, of "\<lambda>_. - (2 ^ 63)" "[sample_queue [], sample_queue [first_request]]"
    "\<lparr>plug_Validate = \<lparr>Enabled = [], Disabled = []\<rparr>\<rparr>"] by simp

text \<open>
  C12: \<open>Read\<close> of the round robin reader always returns. On a reader whose maxima are positive and whose
  queues are in the store, \<open>2 k + 1\<close> calls of itself, for \<open>k\<close> queues, are enough, it never panics, and
  it returns nil only if every queue is empty, otherwise the oldest request of one queue, the other
  queues untouched; maxima and queues of the reader stay as they are.
\<close>

theorem rr_Read_terminates:
  assumes "rr_ready r st" and "2 * length (rr_configs r) + 1 \<le> n"
  shows "\<exists>res r' st'. rr_Read n r st = Done (res, r', st') \<and> same_queues r r' \<and>
     read_result st (addresses (rr_configs r)) res st'"
  using rr_Read_total [of r st n] assms by (simp add: rr_fuel_def)

theorem rr_Read_terminates_witness:
  "\<exists>res r' st'. rr_Read 5 sample_reader sample_store = Done (res, r', st') \<and> same_queues sample_reader r' \<and>
     read_result sample_store (addresses (rr_configs sample_reader)) res st'"
  using rr_Read_terminates [OF sample_reader_ready(1), of 5] by (simp add: sample_reader_def)

text \<open>
  C13: reading until nil with the round robin reader delivers everything. On a reader whose maxima are
  positive and whose queues are in the store (\<open>NewRoundRobinReader\<close> makes such a reader of one or more
  queues with weights up to \<open>2 ^ 58\<close>), the loop that reads until nil ends after as many reads as there are
  requests, plus one, without a panic; it empties the queues, and the requests it returned are exactly
  those that were waiting, in order of age within each queue.
\<close>

theorem round_robin_reads_everything:
  assumes "rr_ready r st" and "backlog st (addresses (rr_configs r)) < n"
  shows "\<exists>prs r' st'. read_loop rr_step n r st = Some (prs, r', st') \<and>
     all_empty st' (addresses (rr_configs r)) \<and> delivers st (addresses (rr_configs r)) prs"
  using round_robin.read_loop_delivers [of r st n] assms by auto

theorem round_robin_reads_everything_witness:
  "\<exists>prs r' st'. read_loop rr_step 3 sample_reader sample_store = Some (prs, r', st') \<and>
     all_empty st' (addresses (rr_configs sample_reader)) \<and> delivers sample_store (addresses (rr_configs sample_reader)) prs"
proof -
  have "addresses (rr_configs sample_reader) = {0, 1}"
    by (auto simp: addresses_def sample_reader_def QueueConfig.defs sample_config_def)
  then show ?thesis using round_robin_reads_everything [OF sample_reader_ready(1), of 3] by simp
qed

end
