(* ===== verification/Queue_Iterator.thy ===== *)
theory Queue_Iterator
  imports Reader_Programs Round_Robin_Fairness
begin

text \<open>
  \<open>pkg/queue/iterator.go\<close> and \<open>iterator-options.go\<close>: the goroutine that reads the queues and hands
  the requests to the controller over the unbuffered channel \<open>Next\<close>, and that sleeps on the channel
  \<open>resume\<close> (capacity 2) when all queues are empty, to be woken by the push handlers.

  \<open>Run\<close> is a step relation, since pushes by other goroutines and the cancellation of the context
  interleave with it. Each step is one atomic action: a queue operation under the queue's mutex, a
  channel operation, a choice of a \<open>select\<close>. A push holds the mutex of its queue while it calls the
  handlers: \<open>mid s a = Some k\<close> says that a push to queue \<open>a\<close> has inserted its request and has \<open>k\<close>
  handlers left to call. The only handler the program registers is the iterator's \<open>Resume\<close>, so
  handlers are of the type \<open>unit\<close>. The components \<open>delivered\<close>, \<open>dropped\<close> and \<open>pushed\<close> record what
  was sent over \<open>Next\<close>, read but not sent after a cancellation, and pushed.
\<close>

section \<open>Construction\<close>

text \<open>The two factories of readers in the package, and the readers they make.\<close>

datatype ReaderFactory = UniformFactory | RoundRobinFactory

datatype reader_state =
  UniformState "UniformReader \<times> rand_source"
| RoundRobinState RoundRobinReader

record QueueIterator =
  readerFactory :: ReaderFactory
  it_configs :: QueueConfigs

type_synonym QueueIteratorOption = "QueueIterator \<Rightarrow> QueueIterator"

definition WithReaderFactory :: "ReaderFactory \<Rightarrow> QueueIteratorOption" where
  "WithReaderFactory factory q = q\<lparr>readerFactory := factory\<rparr>"

definition NewQueueIterator ::
  "unit qstore \<Rightarrow> QueueConfigs \<Rightarrow> QueueIteratorOption list \<Rightarrow> ((config_error + QueueIterator) \<times> unit qstore) option" where
  "NewQueueIterator st configs opts =
     (case QueueConfigs_Validate configs of
        Some err \<Rightarrow> Some (Inl err, st)
      | None \<Rightarrow>
          (let it = \<lparr>readerFactory = UniformFactory, it_configs = configs\<rparr> in
           do { st' \<leftarrow> QueueConfigs_AddPushHandler st configs ();
                Some (Inr (fold (\<lambda>opt q. opt q) opts it), st') }))"

text \<open>\<open>Resume\<close>: the number of signals in the channel after a send that does not block.\<close>

definition resume_capacity :: nat where
  "resume_capacity = 2"

definition Resume :: "nat \<Rightarrow> nat" where
  "Resume n = (if n < resume_capacity then n + 1 else n)"

text \<open>The outcomes of a call of the factory: the random numbers of a uniform reader are arbitrary.\<close>

definition new_readers :: "(rat \<Rightarrow> int) \<Rightarrow> QueueIterator \<Rightarrow> reader_state option set" where
  "new_readers oor it =
     (case readerFactory it of
        UniformFactory \<Rightarrow> range (\<lambda>\<omega>. Some (UniformState (NewUniformReader ([] @ it_configs it), \<omega>)))
      | RoundRobinFactory \<Rightarrow> {map_option RoundRobinState (NewRoundRobinReader oor ([] @ it_configs it))})"

primrec read_prog :: "reader_state \<Rightarrow> reader_state prog" where
  "read_prog (UniformState r) = map_prog UniformState (uniform_read_prog r)"
| "read_prog (RoundRobinState r) = map_prog RoundRobinState (rr_read_prog r)"

section \<open>The steps of Run\<close>

datatype 'r it_pc =
  Top
| Reading "'r prog"
| Sending PlacementRequest 'r
| Waiting
| Closed
| Crashed

record 'r sys =
  store :: "unit qstore"
  resume :: nat
  mid :: "nat \<Rightarrow> nat option"
  pc :: "'r it_pc"
  cancelled :: bool
  delivered :: "PlacementRequest list"
  dropped :: "PlacementRequest list"
  pushed :: "PlacementRequest multiset"

text \<open>A program whose next operation panics.\<close>

fun panics :: "'r prog \<Rightarrow> unit qstore \<Rightarrow> bool" where
  "panics Panic st = True"
| "panics (LenOf ref k) st = (ref_Len st ref = None)"
| "panics (PopOf ref k) st = (ref_Pop st ref = None)"
| "panics _ st = False"

text \<open>The queue whose mutex the next operation takes.\<close>

fun wants :: "'r prog \<Rightarrow> qref" where
  "wants (LenOf ref k) = ref"
| "wants (PopOf ref k) = ref"
| "wants _ = None"

inductive it_step :: "('r \<Rightarrow> 'r prog) \<Rightarrow> 'r option set \<Rightarrow> 'r sys \<Rightarrow> 'r sys \<Rightarrow> bool" for prog fresh where
  top_done: "pc s = Top \<Longrightarrow> cancelled s \<Longrightarrow> it_step prog fresh s (s\<lparr>pc := Closed\<rparr>)"
| top_read: "pc s = Top \<Longrightarrow> \<not> cancelled s \<Longrightarrow> Some r \<in> fresh \<Longrightarrow> it_step prog fresh s (s\<lparr>pc := Reading (prog r)\<rparr>)"
| top_panic: "pc s = Top \<Longrightarrow> \<not> cancelled s \<Longrightarrow> None \<in> fresh \<Longrightarrow> it_step prog fresh s (s\<lparr>pc := Crashed\<rparr>)"
| read_len: "pc s = Reading (LenOf (Some a) k) \<Longrightarrow> mid s a = None \<Longrightarrow> ref_Len (store s) (Some a) = Some n \<Longrightarrow>
    it_step prog fresh s (s\<lparr>pc := Reading (k n)\<rparr>)"
| read_pop: "pc s = Reading (PopOf (Some a) k) \<Longrightarrow> mid s a = None \<Longrightarrow> ref_Pop (store s) (Some a) = Some (res, st') \<Longrightarrow>
    it_step prog fresh s (s\<lparr>store := st', pc := Reading (k res)\<rparr>)"
| read_panic: "pc s = Reading p \<Longrightarrow> panics p (store s) \<Longrightarrow> it_step prog fresh s (s\<lparr>pc := Crashed\<rparr>)"
| read_some: "pc s = Reading (Return (Some pr) r) \<Longrightarrow> it_step prog fresh s (s\<lparr>pc := Sending pr r\<rparr>)"
| read_nil: "pc s = Reading (Return None r) \<Longrightarrow> it_step prog fresh s (s\<lparr>pc := Waiting\<rparr>)"
| send: "pc s = Sending pr r \<Longrightarrow>
    it_step prog fresh s (s\<lparr>delivered := delivered s @ [pr], pc := Reading (prog r)\<rparr>)"
| send_cancelled: "pc s = Sending pr r \<Longrightarrow> cancelled s \<Longrightarrow>
    it_step prog fresh s (s\<lparr>dropped := dropped s @ [pr], pc := Reading (prog r)\<rparr>)"
| wake: "pc s = Waiting \<Longrightarrow> resume s = Suc n \<Longrightarrow> it_step prog fresh s (s\<lparr>resume := n, pc := Top\<rparr>)"
| wait_cancelled: "pc s = Waiting \<Longrightarrow> cancelled s \<Longrightarrow> it_step prog fresh s (s\<lparr>pc := Top\<rparr>)"

text \<open>The steps of the other goroutines: pushes in three parts, and the cancellation of the context.\<close>

inductive env_step :: "'r sys \<Rightarrow> 'r sys \<Rightarrow> bool" where
  push: "a < length (store s) \<Longrightarrow> mid s a = None \<Longrightarrow> Push (\<lambda>_ x. x) (store s ! a) () (Some pr) = Some (q', ()) \<Longrightarrow>
    env_step s (s\<lparr>store := (store s)[a := q'], mid := (mid s)(a := Some (length (pushHandlers (store s ! a)))),
      pushed := add_mset pr (pushed s)\<rparr>)"
| signal: "mid s a = Some (Suc k) \<Longrightarrow>
    env_step s (s\<lparr>resume := Resume (resume s), mid := (mid s)(a := Some k)\<rparr>)"
| unlock: "mid s a = Some 0 \<Longrightarrow> env_step s (s\<lparr>mid := (mid s)(a := None)\<rparr>)"
| cancel: "env_step s (s\<lparr>cancelled := True\<rparr>)"

inductive_cases it_step_cases: "it_step prog fresh s s'"
inductive_cases env_step_cases: "env_step s s'"

lemmas it_cases = it_step_cases [consumes 1, case_names top_done top_read top_panic read_len read_pop read_panic
  read_some read_nil send send_cancelled wake wait_cancelled]
lemmas env_cases = env_step_cases [consumes 1, case_names push signal unlock cancel]

definition contents :: "unit qstore \<Rightarrow> PlacementRequest multiset" where
  "contents st = (\<Sum>q \<leftarrow> st. requests q)"

definition start_state :: "unit qstore \<Rightarrow> 'r sys" where
  "start_state st = \<lparr>store = st, resume = 0, mid = (\<lambda>_. None), pc = Top, cancelled = False,
     delivered = [], dropped = [], pushed = contents st\<rparr>"

definition reaches :: "('r \<Rightarrow> 'r prog) \<Rightarrow> 'r option set \<Rightarrow> unit qstore \<Rightarrow> 'r sys \<Rightarrow> bool" where
  "reaches prog fresh st s \<longleftrightarrow>
     (\<lambda>s s'. it_step prog fresh s s' \<or> env_step s s')\<^sup>*\<^sup>* (start_state st) s"

section \<open>The invariant\<close>

text \<open>
  Every queue in \<open>E\<close> is empty, or the iterator will be told: a signal is in the channel, or the push
  that filled the queue has still to call a handler.
\<close>

definition settled :: "'r sys \<Rightarrow> nat set \<Rightarrow> bool" where
  "settled s E \<longleftrightarrow>
     (\<forall>a \<in> E. Len (store s ! a) = 0 \<or> 0 < resume s \<or> (\<exists>k. mid s a = Some (Suc k)))"

definition pc_inv :: "('r \<Rightarrow> bool) \<Rightarrow> nat set \<Rightarrow> 'r sys \<Rightarrow> bool" where
  "pc_inv I S s \<longleftrightarrow>
     (case pc s of
        Top \<Rightarrow> True
      | Reading p \<Rightarrow>
          (\<exists>pr r. p = Return (Some pr) r \<and> I r) \<or>
          (\<exists>E N. E \<subseteq> S \<and> prog_ok I S p E N \<and> settled s E \<and> (\<forall>a \<in> N. Len (store s ! a) \<noteq> 0))
      | Sending pr r \<Rightarrow> I r
      | Waiting \<Rightarrow> settled s S
      | Closed \<Rightarrow> cancelled s
      | Crashed \<Rightarrow> False)"

text \<open>The request the iterator holds between the pop and the send.\<close>

definition in_hand :: "'r sys \<Rightarrow> PlacementRequest multiset" where
  "in_hand s =
     (case pc s of Reading (Return (Some pr) r) \<Rightarrow> {#pr#} | Sending pr r \<Rightarrow> {#pr#} | _ \<Rightarrow> {#})"

definition store_ok :: "nat set \<Rightarrow> unit qstore \<Rightarrow> bool" where
  "store_ok S st \<longleftrightarrow> store_inv st \<and> S \<subseteq> {..<length st} \<and> (\<forall>a \<in> S. pushHandlers (st ! a) \<noteq> [])"

definition accounted :: "'r sys \<Rightarrow> bool" where
  "accounted s \<longleftrightarrow>
     pushed s = mset (delivered s) + mset (dropped s) + in_hand s + contents (store s) \<and>
     (dropped s \<noteq> [] \<longrightarrow> cancelled s)"

definition sys_inv :: "('r \<Rightarrow> bool) \<Rightarrow> nat set \<Rightarrow> 'r sys \<Rightarrow> bool" where
  "sys_inv I S s \<longleftrightarrow> store_ok S (store s) \<and> pc_inv I S s \<and> accounted s"

lemma contents_update:
  assumes "a < length st"
  shows "contents (st[a := q]) + requests (st ! a) = contents st + requests q"
  using assms
proof (induction st arbitrary: a)
  case Nil
  then show ?case by simp
next
  case (Cons x st)
  then show ?case by (cases a) (auto simp: contents_def ac_simps)
qed

lemma store_ok_update:
  assumes "store_ok S st" and "a < length st" and "prq_inv q" and "pushHandlers q = pushHandlers (st ! a)"
  shows "store_ok S (st[a := q])"
  using assms by (auto simp: store_ok_def store_inv_update nth_list_update)

lemma settled_mono:
  assumes "settled s E" and "\<And>a. a \<in> E \<Longrightarrow> Len (store s ! a) = 0 \<Longrightarrow> Len (store s' ! a) = 0 \<or> (\<exists>k. mid s' a = Some (Suc k))"
    and "resume s \<le> resume s'"
    and "\<And>a k. mid s a = Some (Suc k) \<Longrightarrow> 0 < resume s' \<or> (\<exists>k. mid s' a = Some (Suc k))"
  shows "settled s' E"
  using assms unfolding settled_def by (meson order_less_le_trans)

lemma Pop_result:
  assumes "store_ok S st" and "a \<in> S"
  shows "\<exists>res q'. Pop (st ! a) = Some (res, q') \<and> prq_inv q' \<and> pushHandlers q' = pushHandlers (st ! a) \<and>
    (case res of None \<Rightarrow> q' = st ! a \<and> Len (st ! a) = 0 | Some pr \<Rightarrow> requests (st ! a) = add_mset pr (requests q'))"
proof (cases "Len (st ! a) = 0")
  case True
  then show ?thesis using assms by (auto simp: store_ok_def store_invD subset_eq)
next
  case False
  have "prq_inv (st ! a)" using assms by (auto simp: store_ok_def store_invD subset_eq)
  from Pop_correct [OF this False] show ?thesis by auto
qed

lemma ref_defined:
  assumes "store_ok S st" and "a \<in> S"
  shows "ref_Len st (Some a) = Some (Len (st ! a))" "\<exists>x. ref_Pop st (Some a) = Some x"
proof -
  have a: "a < length st" using assms by (auto simp: store_ok_def)
  then show "ref_Len st (Some a) = Some (Len (st ! a))" by simp
  from Pop_result [OF assms] a show "\<exists>x. ref_Pop st (Some a) = Some x" by (auto simp: ref_Pop_def)
qed

lemma prog_ok_no_panic:
  assumes "store_ok S st" and "prog_ok I S p E N"
  shows "\<not> panics p st"
  using assms(2) ref_defined [OF assms(1)] by (cases p) fastforce+

section \<open>The other goroutines keep the invariant\<close>

lemma pc_inv_env:
  assumes "pc_inv I S s" and "pc s' = pc s" and "cancelled s \<Longrightarrow> cancelled s'"
    and "\<And>E. E \<subseteq> S \<Longrightarrow> settled s E \<Longrightarrow> settled s' E"
    and "\<And>a. Len (store s ! a) \<noteq> 0 \<Longrightarrow> Len (store s' ! a) \<noteq> 0"
  shows "pc_inv I S s'"
proof (cases "pc s")
  case (Reading p)
  then have "(\<exists>pr r. p = Return (Some pr) r \<and> I r) \<or>
      (\<exists>E N. E \<subseteq> S \<and> prog_ok I S p E N \<and> settled s E \<and> (\<forall>a \<in> N. Len (store s ! a) \<noteq> 0))"
    using assms(1) by (simp add: pc_inv_def)
  then have "(\<exists>pr r. p = Return (Some pr) r \<and> I r) \<or>
      (\<exists>E N. E \<subseteq> S \<and> prog_ok I S p E N \<and> settled s' E \<and> (\<forall>a \<in> N. Len (store s' ! a) \<noteq> 0))"
    using assms(4,5) by meson
  then show ?thesis using Reading assms(2) by (simp add: pc_inv_def)
qed (use assms in \<open>auto simp: pc_inv_def\<close>)

lemma push_effect:
  assumes "store_ok S st" and "a < length st" and "Push call (st ! a) x (Some pr) = Some (q', y)"
  shows "store_ok S (st[a := q']) \<and> requests q' = add_mset pr (requests (st ! a)) \<and>
     contents (st[a := q']) = add_mset pr (contents st)"
proof -
  have "prq_inv (st ! a)" using assms by (simp add: store_ok_def store_invD)
  from Push_correct [OF this, of call x pr] assms(3)
  have q: "prq_inv q'" "requests q' = add_mset pr (requests (st ! a))" "pushHandlers q' = pushHandlers (st ! a)"
    by auto
  then show ?thesis
    using store_ok_update [OF assms(1,2)] contents_update [OF assms(2), of q'] by simp
qed

lemma env_step_inv:
  assumes "env_step s s'" and "sys_inv I S s"
  shows "sys_inv I S s'"
proof -
  have ok: "store_ok S (store s)" and pi: "pc_inv I S s" and ac: "accounted s"
    using assms(2) by (simp_all add: sys_inv_def)
  show ?thesis using assms(1)
  proof (cases rule: env_cases)
    case (push a pr q')
    note e = push_effect [OF ok push(2,4)]
    have len: "Len ((store s)[a := q'] ! b) = (if b = a then Suc (Len (store s ! a)) else Len (store s ! b))" for b
      using e push(2) by (simp add: nth_list_update Len_requests)
    have "settled s' E" if "E \<subseteq> S" "settled s E" for E
    proof (rule settled_mono [OF that(2)])
      show "Len (store s' ! b) = 0 \<or> (\<exists>k. mid s' b = Some (Suc k))" if "b \<in> E" "Len (store s ! b) = 0" for b
        using that \<open>E \<subseteq> S\<close> ok push(1) len [of b] by (cases "pushHandlers (store s ! b)") (auto simp: store_ok_def)
    qed (use push(1,3) in \<open>auto split: if_splits\<close>)
    then have "pc_inv I S s'" by (rule pc_inv_env [OF pi, rotated 2]) (use push(1) len in auto)
    moreover have "accounted s'" using ac e push(1) by (simp add: accounted_def in_hand_def)
    ultimately show ?thesis using e push(1) by (simp add: sys_inv_def)
  next
    case (signal a k)
    have "0 < resume s'" using signal(1) by (simp add: Resume_def resume_capacity_def)
    then have "settled s' E" for E by (simp add: settled_def)
    then have "pc_inv I S s'" by (rule pc_inv_env [OF pi, rotated 2]) (use signal(1) in auto)
    then show ?thesis using assms(2) signal(1) by (simp add: sys_inv_def accounted_def in_hand_def)
  next
    case (unlock a)
    have "settled s' E" if "settled s E" for E
      using that unlock by (auto simp: settled_def)
    then have "pc_inv I S s'" by (rule pc_inv_env [OF pi, rotated 2]) (use unlock(1) in auto)
    then show ?thesis using assms(2) unlock(1) by (simp add: sys_inv_def accounted_def in_hand_def)
  next
    case cancel
    have "pc_inv I S s'" by (rule pc_inv_env [OF pi]) (use cancel in \<open>auto simp: settled_def\<close>)
    then show ?thesis using assms(2) cancel by (simp add: sys_inv_def accounted_def in_hand_def)
  qed
qed

section \<open>The iterator keeps the invariant\<close>

text \<open>
  The interface to the readers: a program for each reader state that tolerates concurrent pushes, and
  an invariant of the reader states.
\<close>

locale reader_program =
  fixes prog :: "'r \<Rightarrow> 'r prog" and I :: "'r \<Rightarrow> bool" and S :: "nat set"
  assumes prog_law: "I r \<Longrightarrow> prog_ok I S (prog r) {} {}"
begin

lemma start_reading:
  assumes "I r" and "pc s = Reading (prog r)"
  shows "pc_inv I S s"
  using prog_law [OF assms(1)] assms(2) unfolding pc_inv_def
  by (auto simp: settled_def intro!: exI [of _ "{}"])

lemma start_reading_in_hand:
  assumes "I r" and "pc s = Reading (prog r)"
  shows "in_hand s = {#}"
  using prog_law [OF assms(1)] assms(2) by (cases "prog r") (auto simp: in_hand_def)

lemma running_inv:
  assumes "sys_inv I S s" and "pc s' = Reading p" and "prog_ok I S p E N" and "E \<subseteq> S" and "settled s' E"
    and "\<forall>a \<in> N. Len (store s' ! a) \<noteq> 0" and "in_hand s = {#}"
    and "store s' = store s" "pushed s' = pushed s" "delivered s' = delivered s" "dropped s' = dropped s" "cancelled s' = cancelled s"
  shows "sys_inv I S s'"
proof -
  have "in_hand s' = {#}" using assms(2,3) by (cases p) (auto simp: in_hand_def)
  moreover have "pc_inv I S s'" using assms(2-6) unfolding pc_inv_def by auto
  ultimately show ?thesis using assms by (simp add: sys_inv_def accounted_def)
qed

text \<open>One step of a reader's program.\<close>

lemma running_step_inv:
  assumes inv: "sys_inv I S s" and p: "pc s = Reading p" "prog_ok I S p E N" and es: "E \<subseteq> S" "settled s E"
    and n: "\<forall>a \<in> N. Len (store s ! a) \<noteq> 0" and step: "it_step prog fresh s s'"
  shows "sys_inv I S s'"
proof -
  have ok: "store_ok S (store s)" and ac: "accounted s" using inv by (simp_all add: sys_inv_def)
  have nil: "in_hand s = {#}" using p by (cases p) (auto simp: in_hand_def)
  show ?thesis using step
  proof (cases rule: it_cases)
    case (read_len a k m)
    then have m: "a \<in> S" "m = Len (store s ! a)"
      using p ok by (auto simp: store_ok_def ref_Len_def subset_eq)
    show ?thesis
    proof (cases "m = 0")
      case True
      with m read_len p es n nil show ?thesis
        by (intro running_inv [OF inv, where E = "insert a E" and N = N]) (auto simp: settled_def)
    next
      case False
      with m read_len p es n nil show ?thesis
        by (intro running_inv [OF inv, where E = E and N = "insert a N"]) (auto simp: settled_def)
    qed
  next
    case (read_pop a k res st')
    then have a: "a \<in> S" "a < length (store s)" using p ok by (auto simp: store_ok_def)
    from Pop_result [OF ok a(1)] obtain q' where q: "Pop (store s ! a) = Some (res, q')" "prq_inv q'"
        "pushHandlers q' = pushHandlers (store s ! a)" "st' = (store s)[a := q']"
        "case res of None \<Rightarrow> q' = store s ! a \<and> Len (store s ! a) = 0
         | Some pr \<Rightarrow> requests (store s ! a) = add_mset pr (requests q')"
      using read_pop(4) a(2) by (auto simp: ref_Pop_def)
    show ?thesis
    proof (cases res)
      case None
      with q a have "st' = store s" "Len (store s ! a) = 0" by simp_all
      with None a(1) read_pop p es n nil show ?thesis
        by (intro running_inv [OF inv, where E = "insert a E" and N = N]) (auto simp: settled_def)
    next
      case (Some pr)
      have "p = PopOf (Some a) k" using p(1) read_pop(2) by simp
      with p(2) have "\<exists>r. k (Some pr) = Return (Some pr) r \<and> I r" by simp
      then obtain r where r: "k (Some pr) = Return (Some pr) r" "I r" by blast
      have "contents (store s) = add_mset pr (contents st')"
        using contents_update [OF a(2), of q'] q(4,5) Some by simp
      with ac nil read_pop(1) r Some have "accounted s'" by (simp add: accounted_def in_hand_def)
      moreover have "store_ok S st'" using store_ok_update [OF ok a(2) q(2,3)] q(4) by simp
      ultimately show ?thesis using read_pop(1) r Some by (simp add: sys_inv_def pc_inv_def)
    qed
  next
    case (read_panic q)
    then show ?thesis using p prog_ok_no_panic [OF ok p(2)] by simp
  next
    case (read_nil r)
    then show ?thesis using inv p es by (auto simp: sys_inv_def pc_inv_def accounted_def in_hand_def settled_def)
  qed (use p in auto)
qed

lemma it_step_inv:
  assumes "sys_inv I S s" and "it_step prog fresh s s'" and "\<forall>x \<in> fresh. \<exists>r. x = Some r \<and> I r"
  shows "sys_inv I S s'"
proof (cases "\<exists>p. pc s = Reading p")
  case True
  then obtain p where p: "pc s = Reading p" by blast
  consider (popped) pr r where "p = Return (Some pr) r" "I r"
    | (running) E N where "E \<subseteq> S" "prog_ok I S p E N" "settled s E" "\<forall>a \<in> N. Len (store s ! a) \<noteq> 0"
    using assms(1) p by (auto simp: sys_inv_def pc_inv_def)
  then show ?thesis
  proof cases
    case popped
    from assms(2) have "s' = s\<lparr>pc := Sending pr r\<rparr>" by (cases rule: it_cases) (use p popped in auto)
    with popped assms(1) p show ?thesis by (simp add: sys_inv_def pc_inv_def accounted_def in_hand_def)
  next
    case (running E N)
    then show ?thesis using running_step_inv [OF assms(1) p _ _ _ _ assms(2)] by blast
  qed
next
  case False
  have ok: "store_ok S (store s)" and pi: "pc_inv I S s" and ac: "accounted s"
    using assms(1) by (simp_all add: sys_inv_def)
  show ?thesis using assms(2)
  proof (cases rule: it_cases)
    case (top_read r)
    then have "I r" using assms(3) by blast
    with top_read ok ac start_reading [of r s'] start_reading_in_hand [of r s'] show ?thesis
      by (simp add: sys_inv_def accounted_def) (simp add: in_hand_def)
  next
    case (send pr r)
    then have "I r" using pi by (simp add: pc_inv_def)
    with send ok ac start_reading [of r s'] start_reading_in_hand [of r s'] show ?thesis
      by (simp add: sys_inv_def accounted_def) (simp add: in_hand_def)
  next
    case (send_cancelled pr r)
    then have "I r" using pi by (simp add: pc_inv_def)
    with send_cancelled ok ac start_reading [of r s'] start_reading_in_hand [of r s'] show ?thesis
      by (simp add: sys_inv_def accounted_def) (simp add: in_hand_def)
  next
    case top_panic
    then show ?thesis using assms(3) by blast
  qed (use False ok ac in \<open>auto simp: sys_inv_def pc_inv_def accounted_def in_hand_def\<close>)
qed

lemma reaches_inv:
  assumes "reaches prog fresh st s" and "store_ok S st" and "\<forall>x \<in> fresh. \<exists>r. x = Some r \<and> I r"
  shows "sys_inv I S s"
  using assms(1) unfolding reaches_def
proof (induction rule: rtranclp_induct)
  case base
  show ?case using assms(2) by (simp add: sys_inv_def pc_inv_def accounted_def in_hand_def start_state_def)
next
  case (step s s')
  then show ?case using it_step_inv [OF _ _ assms(3)] env_step_inv by blast
qed

lemma wakeup:
  assumes "sys_inv I S s" and "pc s = Waiting" and "resume s = 0" and "\<forall>a. mid s a = None"
  shows "all_empty (store s) S"
  using assms by (auto simp: sys_inv_def pc_inv_def settled_def all_empty_def)

text \<open>The iterator can always go on, unless it sleeps for lack of work or waits for a mutex.\<close>

lemma progress:
  assumes inv: "sys_inv I S s" and "fresh \<noteq> {}"
  shows "(\<exists>s'. it_step prog fresh s s') \<or> pc s = Closed \<or> (pc s = Waiting \<and> resume s = 0 \<and> \<not> cancelled s) \<or>
     (\<exists>p a k. pc s = Reading p \<and> wants p = Some a \<and> mid s a = Some k)"
proof (cases "pc s")
  case Top
  from assms(2) obtain x where "x \<in> fresh" by blast
  with Top show ?thesis by (cases "cancelled s"; cases x) (blast intro: it_step.intros)+
next
  case (Reading p)
  show ?thesis
  proof (cases p)
    case (Return res r)
    with Reading show ?thesis by (cases res) (blast intro: it_step.intros)+
  next
    case (LenOf ref k)
    then obtain a where a: "a \<in> S" "ref = Some a" using inv Reading by (auto simp: sys_inv_def pc_inv_def)
    then have "ref_Len (store s) (Some a) = Some (Len (store s ! a))"
      using inv ref_defined(1) by (auto simp: sys_inv_def)
    with a LenOf Reading show ?thesis by (cases "mid s a") (auto intro: it_step.read_len)
  next
    case (PopOf ref k)
    then obtain a where a: "a \<in> S" "ref = Some a" using inv Reading by (auto simp: sys_inv_def pc_inv_def)
    then have "\<exists>x. ref_Pop (store s) (Some a) = Some x" using inv ref_defined(2) by (auto simp: sys_inv_def)
    with a PopOf Reading show ?thesis by (cases "mid s a") (auto intro: it_step.read_pop)
  qed (use inv Reading in \<open>auto simp: sys_inv_def pc_inv_def\<close>)
next
  case Waiting
  then show ?thesis by (cases "resume s"; cases "cancelled s") (blast intro: it_step.intros)+
qed (use inv in \<open>auto simp: sys_inv_def pc_inv_def intro: it_step.intros\<close>)

end

section \<open>The program's readers\<close>

definition reader_ok :: "QueueConfigs \<Rightarrow> reader_state \<Rightarrow> bool" where
  "reader_ok cs rs \<longleftrightarrow>
     (case rs of
        UniformState r \<Rightarrow> weights_ok cs \<and> (\<forall>c \<in> set cs. QueueRef c \<noteq> None) \<and> uniform_inv cs r
      | RoundRobinState r \<Rightarrow> maxima_ok (addresses cs) r)"

interpretation program_readers: reader_program read_prog "reader_ok cs" "addresses cs" for cs
proof unfold_locales
  fix rs
  assume ok: "reader_ok cs rs"
  show "prog_ok (reader_ok cs) (addresses cs) (read_prog rs) {} {}"
  proof (cases rs)
    case (UniformState r)
    then have u: "weights_ok cs" "\<forall>c \<in> set cs. QueueRef c \<noteq> None" "uniform_inv cs r"
      using ok by (simp_all add: reader_ok_def)
    show ?thesis unfolding UniformState read_prog.simps prog_ok_map
      by (rule prog_ok_inv_mono [OF uniform_read_prog_ok [OF u]]) (simp add: reader_ok_def u)
  next
    case (RoundRobinState r)
    then have "maxima_ok (addresses cs) r" using ok by (simp add: reader_ok_def)
    then show ?thesis unfolding RoundRobinState read_prog.simps prog_ok_map
      by (rule prog_ok_inv_mono [OF rr_read_prog_ok]) (simp add: reader_ok_def)
  qed
qed

text \<open>
  The weights the configured reader can work with: the round robin reader needs a queue, or
  \<open>slices.MinFunc\<close> panics, and quotas that fit an \<open>int\<close>; the uniform reader adds the weights as \<open>int\<close>.
\<close>

definition factory_weights :: "QueueIterator \<Rightarrow> bool" where
  "factory_weights it \<longleftrightarrow>
     (case readerFactory it of
        UniformFactory \<Rightarrow> weights_ok (it_configs it)
      | RoundRobinFactory \<Rightarrow> it_configs it \<noteq> [] \<and> weights_within (2 ^ 58) (it_configs it))"

lemma new_readers_ok:
  assumes "factory_weights it" and "\<forall>c \<in> set (it_configs it). QueueRef c \<noteq> None"
  shows "\<forall>x \<in> new_readers oor it. \<exists>r. x = Some r \<and> reader_ok (it_configs it) r"
proof (cases "readerFactory it")
  case UniformFactory
  with assms show ?thesis
    by (auto simp: new_readers_def factory_weights_def reader_ok_def uniform_inv_def NewUniformReader_def)
next
  case RoundRobinFactory
  with assms(1) obtain r where r: "NewRoundRobinReader oor (it_configs it) = Some r" "rr_bounds r"
      "map QueueRef (rr_configs r) = map QueueRef (it_configs it)"
    using new_reader_fields [of "it_configs it" oor] by (auto simp: factory_weights_def)
  have q: "QueueRef ` set (rr_configs r) = QueueRef ` set (it_configs it)" using r(3) by (metis list.set_map)
  have "None \<notin> QueueRef ` set (rr_configs r)" unfolding q using assms(2) by auto
  then have "\<forall>c \<in> set (rr_configs r). QueueRef c \<noteq> None" by (metis imageI)
  then have "maxima_ok (addresses (it_configs it)) r"
    using r(2) q by (simp add: maxima_ok_def rr_bounds_def addresses_image)
  then show ?thesis using RoundRobinFactory r(1) by (simp add: new_readers_def reader_ok_def)
qed

lemma new_readers_nonempty: "new_readers oor it \<noteq> {}"
  by (simp add: new_readers_def split: ReaderFactory.split)

lemma fold_factories:
  "fold (\<lambda>opt q. opt q) (map WithReaderFactory fs) q = q\<lparr>readerFactory := last (readerFactory q # fs)\<rparr>"
  by (induction fs arbitrary: q) (auto simp: WithReaderFactory_def)

lemma NewQueueIterator_success:
  assumes "NewQueueIterator st cs (map WithReaderFactory fs) = Some (Inr it, st')"
    and "refs_ok st cs" and "distinct (config_refs cs)"
  shows "it_configs it = cs \<and> readerFactory it = last (UniformFactory # fs) \<and> QueueConfigs_Validate cs = None \<and>
     store_ok (addresses cs) st' \<and> (\<forall>c \<in> set cs. QueueRef c \<noteq> None) \<and> contents st' = contents st"
proof -
  have refs: "\<forall>c \<in> set cs. \<exists>a < length st. QueueRef c = Some a" "store_inv st" using assms(2) by (simp_all add: refs_ok_def)
  from QueueConfigs_AddPushHandler_correct [OF assms(3) refs(1), of "()"] obtain st1 where
    h: "QueueConfigs_AddPushHandler st cs () = Some st1" "length st1 = length st"
      "\<forall>a < length st. st1 ! a = (if Some a \<in> set (config_refs cs) then AddPushHandler (st ! a) () else st ! a)"
    by blast
  with assms(1) have it: "QueueConfigs_Validate cs = None" "st' = st1" "it_configs it = cs" "readerFactory it = last (UniformFactory # fs)"
    by (auto simp: NewQueueIterator_def Let_def fold_factories split: option.splits)
  have "prq_inv q" if q: "q \<in> set st1" for q
  proof -
    from q obtain i where "i < length st" "q = st1 ! i" using h(2) by (auto simp: in_set_conv_nth)
    then show ?thesis using h(3) store_invD [OF refs(2)] by simp
  qed
  moreover have "a < length st1 \<and> pushHandlers (st1 ! a) \<noteq> []" if a: "a \<in> addresses cs" for a
  proof -
    have "Some a \<in> set (config_refs cs)" "a < length st"
      using a refs(1) by (auto simp: addresses_def config_refs_def image_iff) metis
    then show ?thesis using h(2,3) by (simp add: AddPushHandler_def)
  qed
  moreover have "map requests st1 = map requests st"
    using h(2,3) by (intro nth_equalityI) auto
  ultimately show ?thesis
    using it refs(1) by (auto simp: store_ok_def store_inv_def contents_def)
qed

lemma iterator_sys_inv:
  assumes "NewQueueIterator st cs (map WithReaderFactory fs) = Some (Inr it, st')"
    and "refs_ok st cs" and "distinct (config_refs cs)" and "factory_weights it"
    and "reaches read_prog (new_readers oor it) st' s"
  shows "sys_inv (reader_ok cs) (addresses cs) s"
  using NewQueueIterator_success [OF assms(1-3)] program_readers.reaches_inv [OF assms(5)] new_readers_ok [OF assms(4)]
  by auto

section \<open>Properties\<close>

text \<open>
  C6: the iterator loses no wake-up. In every interleaving of an iterator made by \<open>NewQueueIterator\<close>
  (with weights its reader can work with, \<open>factory_weights\<close>) with pushes to its queues and a cancellation:
  when it sleeps on an empty \<open>resume\<close> channel and no push is under way, every queue is empty. So a pushed
  request is never left behind by a sleeping iterator.
\<close>

theorem iterator_no_lost_wakeup:
  assumes "NewQueueIterator st cs (map WithReaderFactory fs) = Some (Inr it, st')"
    and "refs_ok st cs" and "distinct (config_refs cs)" and "factory_weights it"
    and "reaches read_prog (new_readers oor it) st' s"
    and "pc s = Waiting" and "resume s = 0" and "\<forall>a. mid s a = None"
  shows "all_empty (store s) (addresses cs)"
  using program_readers.wakeup [OF iterator_sys_inv [OF assms(1-5)] assms(6-8)] .

text \<open>
  The iterator neither loses nor duplicates requests. In every reachable state the requests pushed
  (with those there at the start) are, as a multiset, the ones sent over \<open>Next\<close>, the one in the
  iterator's hand, the ones waiting in the queues, and the ones dropped; none is dropped unless the
  context was cancelled.
\<close>

theorem iterator_accounts_for_requests:
  assumes "NewQueueIterator st cs (map WithReaderFactory fs) = Some (Inr it, st')"
    and "refs_ok st cs" and "distinct (config_refs cs)" and "factory_weights it"
    and "reaches read_prog (new_readers oor it) st' s"
  shows "pushed s = mset (delivered s) + mset (dropped s) + in_hand s + contents (store s) \<and>
     (\<not> cancelled s \<longrightarrow> dropped s = [])"
  using iterator_sys_inv [OF assms] by (auto simp: sys_inv_def accounted_def)

text \<open>
  C15: the iterator never panics and is never stuck, if its reader can work with the weights: for round
  robin at least one queue and weights up to \<open>2 ^ 58\<close>, for uniform a sum of weights below \<open>2 ^ 63\<close>
  (\<open>factory_weights\<close>; \<open>NewQueueIterator\<close> does not check it). In every reachable state it has not crashed,
  and it can take a step unless it has returned (only after a cancellation), sleeps without a signal,
  or waits for the mutex of a queue held by a push.
\<close>

theorem iterator_safe:
  assumes "NewQueueIterator st cs (map WithReaderFactory fs) = Some (Inr it, st')"
    and "refs_ok st cs" and "distinct (config_refs cs)" and "factory_weights it"
    and "reaches read_prog (new_readers oor it) st' s"
  shows "pc s \<noteq> Crashed \<and> (pc s = Closed \<longrightarrow> cancelled s) \<and>
     ((\<exists>s'. it_step read_prog (new_readers oor it) s s') \<or> pc s = Closed \<or>
      (pc s = Waiting \<and> resume s = 0 \<and> \<not> cancelled s) \<or>
      (\<exists>p a k. pc s = Reading p \<and> wants p = Some a \<and> mid s a = Some k))"
proof -
  note inv = iterator_sys_inv [OF assms]
  then have "pc s \<noteq> Crashed" "pc s = Closed \<longrightarrow> cancelled s" by (auto simp: sys_inv_def pc_inv_def)
  then show ?thesis using program_readers.progress [OF inv new_readers_nonempty [of oor it]] by blast
qed

text \<open>A run of an iterator over one empty queue, up to its first sleep.\<close>

definition idle_iterator :: QueueIterator where
  "idle_iterator = \<lparr>readerFactory = RoundRobinFactory, it_configs = [sample_config ''a'' 1 0]\<rparr>"

definition idle_store :: "unit qstore" where
  "idle_store = [AddPushHandler (sample_queue []) ()]"

definition idle_state :: "reader_state sys" where
  "idle_state = (start_state idle_store)\<lparr>pc := Waiting\<rparr>"

lemma idle_new:
  "NewQueueIterator [sample_queue []] [sample_config ''a'' 1 0] (map WithReaderFactory [RoundRobinFactory]) =
     Some (Inr idle_iterator, idle_store)"
  by (simp add: NewQueueIterator_def QueueConfigs_Validate_def QueueConfig_Validate_def sample_config_def
    ref_AddPushHandler_def idle_store_def idle_iterator_def WithReaderFactory_def)

lemma idle_hyps:
  "refs_ok [sample_queue []] [sample_config ''a'' 1 0]" "distinct (config_refs [sample_config ''a'' 1 0])"
  "factory_weights idle_iterator" "addresses [sample_config ''a'' 1 0] = {0}"
  by (simp_all add: refs_ok_def store_inv_def config_refs_def factory_weights_def idle_iterator_def
    weights_within_def addresses_def)

lemma idle_reaches: "reaches read_prog (new_readers oor idle_iterator) idle_store idle_state"
proof -
  let ?step = "\<lambda>s s'. it_step read_prog (new_readers oor idle_iterator) s s' \<or> env_step s s'"
  let ?s = "\<lambda>p. (start_state idle_store :: reader_state sys)\<lparr>pc := p\<rparr>"
  obtain r where r: "NewRoundRobinReader oor [sample_config ''a'' 1 0] = Some r"
      "map QueueRef (rr_configs r) = [Some 0]"
    using new_reader_fields [of "[sample_config ''a'' 1 0]" oor] by (auto simp: weights_within_def)
  then obtain c where c: "rr_configs r = [c]" "QueueRef c = Some 0" by (cases "rr_configs r") auto
  define k where "k = (\<lambda>n :: nat. map_prog RoundRobinState
    (if n > 0 then rr_cont (Suc (Suc 0)) r False else rr_empty_prog [] (rr_cont (Suc (Suc 0)) r)))"
  have p: "read_prog (RoundRobinState r) = LenOf (Some 0) k"
    using c by (simp add: rr_read_prog_def rr_fuel_def rr_prog_cont k_def comp_def numeral_2_eq_2)
  have k0: "k 0 = Return None (RoundRobinState r)" by (simp add: k_def rr_cont_def)
  have "Some (RoundRobinState r) \<in> new_readers oor idle_iterator"
    using r(1) by (simp add: new_readers_def idle_iterator_def)
  from it_step.top_read [OF _ _ this, of "start_state idle_store" read_prog, unfolded p]
  have 1: "?step (start_state idle_store) (?s (Reading (LenOf (Some 0) k)))" by (simp add: start_state_def)
  have 2: "?step (?s (Reading (LenOf (Some 0) k))) (?s (Reading (k 0)))"
    using it_step.read_len [of "?s (Reading (LenOf (Some 0) k))" 0 k 0 read_prog "new_readers oor idle_iterator"]
    by (simp add: start_state_def idle_store_def)
  have 3: "?step (?s (Reading (k 0))) (?s Waiting)"
    using it_step.read_nil [of "?s (Reading (k 0))" "RoundRobinState r" read_prog "new_readers oor idle_iterator"] k0
    by simp
  show ?thesis unfolding reaches_def idle_state_def
    by (rule rtranclp.rtrancl_into_rtrancl [where r = ?step, OF
      rtranclp.rtrancl_into_rtrancl [where r = ?step, OF r_into_rtranclp [where r = ?step, OF 1] 2] 3])
qed

theorem iterator_no_lost_wakeup_witness: "all_empty (store idle_state) (addresses [sample_config ''a'' 1 0])"
  by (rule iterator_no_lost_wakeup [OF idle_new idle_hyps(1-3) idle_reaches [of "\<lambda>_. 0"]])
     (simp_all add: idle_state_def start_state_def)

theorem iterator_accounts_for_requests_witness:
  "pushed idle_state = mset (delivered idle_state) + mset (dropped idle_state) + in_hand idle_state + contents (store idle_state)"
  using iterator_accounts_for_requests [OF idle_new idle_hyps(1-3) idle_reaches [of "\<lambda>_. 0"]] by blast

theorem iterator_safe_witness: "pc idle_state \<noteq> Crashed"
  using iterator_safe [OF idle_new idle_hyps(1-3) idle_reaches [of "\<lambda>_. 0"]] by blast

end
