(* ===== verification/Config_Validation.thy ===== *)
theory Config_Validation
  imports Queue_Config
begin

text \<open>
  \<open>pkg/config\<close> and the configuration part of \<open>cmd/kombiner-controller/main.go\<close>: loading and checking
  the controller configuration. The field paths and errors of apimachinery's \<open>field\<close> package are
  data here, one constructor for each call. Reading the file, decoding, and encoding are code
  outside the repository, hence parameters: \<open>read_file\<close> (\<open>os.ReadFile\<close>), \<open>decode\<close>
  (\<open>runtime.DecodeInto\<close>, which may write into the configuration before it fails) and \<open>yaml\<close>
  (the serializer for YAML, \<open>None\<close> when there is none).
\<close>

section \<open>validation.go\<close>

datatype field_path = NewPath string | Index field_path nat | Child field_path string

datatype field_error = Required field_path string | Invalid field_path uint string

definition queuesPath :: field_path where
  "queuesPath = NewPath ''queues''"

definition nonEmptyErrStr :: string where
  "nonEmptyErrStr = ''must be non-empty''"

definition mustBePositiveIntegerErrStr :: string where
  "mustBePositiveIntegerErrStr = ''must be a positive integer''"

definition validate_queue :: "nat \<Rightarrow> Queue \<Rightarrow> field_error list" where
  "validate_queue idx q =
     (if q_SchedulerName q = ''''
      then [Required (Child (Index queuesPath idx) ''schedulerName'') nonEmptyErrStr] else []) @
     (if Weight q < 1
      then [Invalid (Child (Index queuesPath idx) ''weight'') (Weight q) mustBePositiveIntegerErrStr]
      else []) @
     (if MaxSize q < 1
      then [Invalid (Child (Index queuesPath idx) ''maxSize'') (MaxSize q) mustBePositiveIntegerErrStr]
      else [])"

fun validate_queues_loop :: "field_error list \<Rightarrow> nat \<Rightarrow> Queue list \<Rightarrow> field_error list" where
  "validate_queues_loop allErrs idx [] = allErrs"
| "validate_queues_loop allErrs idx (q # qs) =
     validate_queues_loop (allErrs @ validate_queue idx q) (Suc idx) qs"

definition validateQueues :: "Configuration \<Rightarrow> field_error list" where
  "validateQueues c =
     (if Queues c = [] then [Required queuesPath nonEmptyErrStr]
      else validate_queues_loop [] 0 (Queues c))"

definition validate :: "Configuration \<Rightarrow> field_error list" where
  "validate c = [] @ validateQueues c"

section \<open>config.go\<close>

type_synonym go_error = string

datatype load_error = IOError go_error | Aggregate "field_error list"

type_synonym decoder = "string \<Rightarrow> Configuration \<Rightarrow> Configuration \<times> go_error option"

definition zero_config :: Configuration where
  "zero_config =
     \<lparr>Queues = [], cfg_FairnessAlgorithm = '''',
      cfg_Plugins = \<lparr>plug_Validate = \<lparr>Enabled = [], Disabled = []\<rparr>\<rparr>\<rparr>"

definition fromFile ::
  "(string \<Rightarrow> go_error + string) \<Rightarrow> decoder \<Rightarrow> string \<Rightarrow> Configuration \<Rightarrow>
   Configuration \<times> go_error option" where
  "fromFile read_file decode path cfg =
     (case read_file path of Inl err \<Rightarrow> (cfg, Some err) | Inr content \<Rightarrow> decode content cfg)"

definition Encode ::
  "(Configuration \<Rightarrow> go_error + string) option \<Rightarrow> Configuration \<Rightarrow> go_error + string" where
  "Encode yaml cfg =
     (case yaml of
        None \<Rightarrow> Inl (''unable to locate encoder -- '' @ [CHR 0x22] @ ''application/yaml'' @ [CHR 0x22] @
          '' is not a supported media type'')
      | Some encode \<Rightarrow> (case encode cfg of Inl err \<Rightarrow> Inl err | Inr buf \<Rightarrow> Inr buf))"

text \<open>\<open>ToAggregate\<close> of an empty list is nil.\<close>

definition ToAggregate :: "field_error list \<Rightarrow> load_error option" where
  "ToAggregate errs = (if errs = [] then None else Some (Aggregate errs))"

definition Load ::
  "(string \<Rightarrow> go_error + string) \<Rightarrow> decoder \<Rightarrow> string \<Rightarrow> Configuration \<times> load_error option" where
  "Load read_file decode configFile =
     (case fromFile read_file decode configFile zero_config of
        (cfg, Some err) \<Rightarrow> (cfg, Some (IOError err))
      | (cfg, None) \<Rightarrow>
          (case ToAggregate (validate cfg) of
             Some err \<Rightarrow> (cfg, Some err)
           | None \<Rightarrow> (cfg, None)))"

definition getConfig ::
  "(string \<Rightarrow> go_error + string) \<Rightarrow> decoder \<Rightarrow> (Configuration \<Rightarrow> go_error + string) option \<Rightarrow>
   string \<Rightarrow> Configuration \<times> load_error option" where
  "getConfig read_file decode yaml configFile =
     (case Load read_file decode configFile of
        (config, Some err) \<Rightarrow> (config, Some err)
      | (config, None) \<Rightarrow>
          (case Encode yaml config of
             Inl err \<Rightarrow> (config, Some (IOError err))
           | Inr configStr \<Rightarrow> (config, None)))"

section \<open>What validation means\<close>

lemma word_less_one: "u < 1 \<longleftrightarrow> u = (0 :: uint)"
proof -
  have "u < 1 \<longleftrightarrow> uint u < 1" by (simp add: word_less_def)
  also have "\<dots> \<longleftrightarrow> uint u = 0" using uint_ge_0 [of u] by linarith
  finally show ?thesis by (simp add: uint_0_iff)
qed

lemma validate_queue_Nil: "validate_queue idx q = [] \<longleftrightarrow> queue_ok q"
  by (simp add: validate_queue_def queue_ok_def word_less_one uint_pos_iff)

lemma validate_queues_loop_eq:
  "validate_queues_loop errs idx qs =
     errs @ concat (map (\<lambda>(i, q). validate_queue i q) (enumerate idx qs))"
  by (induction errs idx qs rule: validate_queues_loop.induct) simp_all

lemma validate_queues_Nil:
  "concat (map (\<lambda>(i, q). validate_queue i q) (enumerate n qs)) = [] \<longleftrightarrow> (\<forall>q \<in> set qs. queue_ok q)"
proof (induction qs arbitrary: n)
  case Nil
  then show ?case by simp
next
  case (Cons q qs)
  from Cons [of "Suc n"] show ?case by (simp add: validate_queue_Nil)
qed

lemma validate_Nil: "validate c = [] \<longleftrightarrow> Queues c \<noteq> [] \<and> (\<forall>q \<in> set (Queues c). queue_ok q)"
  using validate_queues_Nil [of 0 "Queues c"]
  by (simp add: validate_def validateQueues_def validate_queues_loop_eq)

text \<open>Unlike the queue validation, all errors of all queues are reported.\<close>

lemma validate_reports:
  assumes "Queues c \<noteq> []"
  shows "set (validate c) = (\<Union>i < length (Queues c). set (validate_queue i (Queues c ! i)))"
proof -
  have "set (enumerate 0 (Queues c)) = (\<lambda>i. (i, Queues c ! i)) ` {..<length (Queues c)}"
    by (auto simp: in_set_enumerate_eq)
  then show ?thesis
    using assms by (simp add: validate_def validateQueues_def validate_queues_loop_eq)
qed

lemma Load_success:
  "Load read_file decode f = (cfg, None) \<longleftrightarrow>
     (\<exists>content. read_file f = Inr content \<and> decode content zero_config = (cfg, None) \<and> validate cfg = [])"
  by (auto simp: Load_def fromFile_def ToAggregate_def split: sum.splits prod.splits option.splits if_splits)

section \<open>Properties\<close>

text \<open>
  \<open>getConfig\<close>, which the controller calls at start, succeeds exactly if the file can be read and decoded, it
  configures at least one queue, every queue has a name, a positive weight and a positive maximal
  size, and the configuration can be encoded again; it returns the decoded configuration.
\<close>

theorem getConfig_spec:
  "getConfig read_file decode yaml f = (cfg, None) \<longleftrightarrow>
     (\<exists>content encode buf. read_file f = Inr content \<and> decode content zero_config = (cfg, None) \<and>
        Queues cfg \<noteq> [] \<and> filter (\<lambda>q. \<not> queue_ok q) (Queues cfg) = [] \<and> yaml = Some encode \<and> encode cfg = Inr buf)"
proof -
  have "getConfig read_file decode yaml f = (cfg, None) \<longleftrightarrow>
      Load read_file decode f = (cfg, None) \<and> (\<exists>encode buf. yaml = Some encode \<and> encode cfg = Inr buf)"
    by (auto simp: getConfig_def Encode_def split: prod.splits option.splits sum.splits)
  also have "\<dots> \<longleftrightarrow> (\<exists>content encode buf. read_file f = Inr content \<and> decode content zero_config = (cfg, None) \<and>
      (Queues cfg \<noteq> [] \<and> (\<forall>q \<in> set (Queues cfg). queue_ok q)) \<and> yaml = Some encode \<and> encode cfg = Inr buf)"
    unfolding Load_success validate_Nil by blast
  finally show ?thesis by (simp add: filter_empty_conv)
qed

text \<open>
  The validation of the configuration file reports every fault of every queue, not only the first: the
  errors are exactly, for each queue with its index, a missing name, a weight below one, and a maximal
  size below one.
\<close>

theorem validate_reports_all:
  assumes "Queues c \<noteq> []"
  shows "set (validate c) =
     {Required (Child (Index queuesPath i) ''schedulerName'') nonEmptyErrStr | i.
        i < length (Queues c) \<and> q_SchedulerName (Queues c ! i) = ''''} \<union>
     {Invalid (Child (Index queuesPath i) ''weight'') 0 mustBePositiveIntegerErrStr | i.
        i < length (Queues c) \<and> Weight (Queues c ! i) = 0} \<union>
     {Invalid (Child (Index queuesPath i) ''maxSize'') 0 mustBePositiveIntegerErrStr | i.
        i < length (Queues c) \<and> MaxSize (Queues c ! i) = 0}"
  unfolding validate_reports [OF assms] by (auto simp: validate_queue_def word_less_one)

theorem validate_reports_all_witness:
  "let q = \<lparr>q_SchedulerName = '''', Weight = 1, MaxSize = 0, q_Plugins = \<lparr>plug_Validate = \<lparr>Enabled = [], Disabled = []\<rparr>\<rparr>\<rparr> in
   Invalid (Child (Index queuesPath 0) ''maxSize'') 0 mustBePositiveIntegerErrStr \<in> set (validate (zero_config\<lparr>Queues := [q]\<rparr>))"
  using validate_reports_all [of "zero_config\<lparr>Queues := [\<lparr>q_SchedulerName = '''', Weight = 1, MaxSize = 0,
    q_Plugins = \<lparr>plug_Validate = \<lparr>Enabled = [], Disabled = []\<rparr>\<rparr>\<rparr>]\<rparr>"] by simp

end
