(* ===== verification/Controller.thy ===== *)
theory Controller
  imports Placement_Results Queue_Iterator Config_Validation
begin

text \<open>
  \<open>pkg/controller/controller.go\<close> and \<open>options.go\<close>: the controller that takes new placement requests
  from the informer, rejects or queues them, and schedules those the iterator hands out. The Kubernetes
  API is outside the repository: a record \<open>api\<close> of functions on a state \<open>'w\<close> of the cluster, each
  returning its answer and the new state, so nothing is assumed of what the cluster does between or
  because of the calls. Logging is left out. A pointer to a request is an \<open>option\<close>, and the functions
  return the request with the changes they made through the pointer; \<open>None\<close> as the result of a function
  is a panic.
\<close>

section \<open>The API\<close>

record Pod =
  pod_NodeName :: string

text \<open>\<open>v1.Binding\<close>, as the controller fills it in.\<close>

record V1Binding =
  vb_Namespace :: string
  vb_Name :: string
  vb_UID :: string
  vb_Kind :: string
  vb_Target :: string

record 'w api =
  get_pod :: "string \<Rightarrow> string \<Rightarrow> 'w \<Rightarrow> (go_error + Pod) \<times> 'w"
  bind_pod :: "V1Binding \<Rightarrow> 'w \<Rightarrow> go_error option \<times> 'w"
  update_status :: "PlacementRequest \<Rightarrow> 'w \<Rightarrow> go_error option \<times> 'w"

section \<open>options.go\<close>

record options =
  tryToRejectTimeout :: int

definition defaultOptions :: options where
  "defaultOptions = \<lparr>tryToRejectTimeout = 2 * 1000000000\<rparr>"

definition WithTryToRejectTimeout :: "int \<Rightarrow> options \<Rightarrow> options" where
  "WithTryToRejectTimeout timeout opts = opts\<lparr>tryToRejectTimeout := timeout\<rparr>"

section \<open>Scheduling one request\<close>

datatype schedule_error = UpdateError go_error | StatusUpdateFailed go_error

text \<open>The body of the loop over the bindings.\<close>

definition schedule_binding ::
  "'w api \<Rightarrow> Binding \<Rightarrow> PlacementRequest \<times> 'w \<Rightarrow> PlacementRequest \<times> 'w" where
  "schedule_binding api binding s =
     (case s of (pr, w) \<Rightarrow>
      case get_pod api (Namespace pr) (PodName binding) w of
        (Inl err, w1) \<Rightarrow>
          (SetPodBindingFailure pr binding ''API error''
             (''Failed to get pod '' @ PodName binding @ '': '' @ err), w1)
      | (Inr pod, w1) \<Rightarrow>
          if pod_NodeName pod \<noteq> '''' then
            if pod_NodeName pod = NodeName binding
            then (SetPodBindingSuccess pr binding ''Binding unneeded'' ''Pod was already bound'', w1)
            else (SetPodBindingFailure pr binding ''Pod already bound''
                   (''Pod '' @ PodName binding @ '' bound to a different node node''), w1)
          else
            (let b = \<lparr>vb_Namespace = Namespace pr, vb_Name = PodName binding, vb_UID = PodUID binding,
                      vb_Kind = ''Node'', vb_Target = NodeName binding\<rparr> in
             case bind_pod api b w1 of
               (Some err, w2) \<Rightarrow> (SetPodBindingFailure pr binding ''API denied binding'' err, w2)
             | (None, w2) \<Rightarrow>
                 (SetPodBindingSuccess pr binding ''Binding successful'' ''Pod successfully bound'', w2)))"

definition set_status :: "PlacementRequest \<Rightarrow> PlacementRequestResult \<Rightarrow> string \<Rightarrow> PlacementRequest" where
  "set_status pr result msg = pr\<lparr>Status := (Status pr)\<lparr>Result := result, Message := msg\<rparr>\<rparr>"

definition ScheduleOne ::
  "'w api \<Rightarrow> PlacementRequest option \<Rightarrow> 'w \<Rightarrow> (schedule_error option \<times> PlacementRequest \<times> 'w) option" where
  "ScheduleOne api p w =
     (case p of
        None \<Rightarrow> None
      | Some pr \<Rightarrow>
          if DeletionTimestamp pr \<noteq> None \<or> Result (Status pr) \<noteq> PlacementRequestResultUnknown
          then Some (None, pr, w)
          else case Validate pr of
            Some err \<Rightarrow>
              (let pr1 = set_status pr PlacementRequestResultRejected err in
               case update_status api pr1 w of (e, w1) \<Rightarrow> Some (map_option UpdateError e, pr1, w1))
          | None \<Rightarrow>
              (case fold (schedule_binding api) (Bindings (Spec pr)) (pr, w) of
                 (pr1, w1) \<Rightarrow>
                   let (result, msg) = AssessResult pr1; pr2 = set_status pr1 result msg in
                   case update_status api pr2 w1 of
                     (Some err, w2) \<Rightarrow> Some (Some (StatusUpdateFailed err), pr2, w2)
                   | (None, w2) \<Rightarrow> Some (None, pr2, w2)))"

section \<open>Queueing and rejecting\<close>

definition TryToRejectPlacementRequest ::
  "'w api \<Rightarrow> PlacementRequest \<Rightarrow> string \<Rightarrow> string \<Rightarrow> 'w \<Rightarrow> PlacementRequest \<times> 'w" where
  "TryToRejectPlacementRequest api pr reason message w =
     (let pr1 = pr\<lparr>Status := (Status pr)\<lparr>Result := PlacementRequestResultRejected,
                     Reason := reason, Message := message\<rparr>\<rparr> in
      case update_status api pr1 w of (_, w1) \<Rightarrow> (pr1, w1))"

text \<open>What the informer may hand to the handler: a request pointer, or an object of another type.\<close>

datatype event_object = PlacementRequestPtr "PlacementRequest option" | OtherObject

definition filter_func :: "event_object \<Rightarrow> bool" where
  "filter_func obj = (case obj of PlacementRequestPtr _ \<Rightarrow> True | OtherObject \<Rightarrow> False)"

text \<open>The state that \<open>enqueue\<close> changes: the queues, the signals to the iterator, the cluster.\<close>

record 'w env =
  e_store :: "unit qstore"
  e_resume :: nat
  e_world :: 'w

definition enqueue ::
  "'w api \<Rightarrow> (string \<rightharpoonup> QueueConfig) \<Rightarrow> event_object \<Rightarrow> 'w env \<Rightarrow> (event_object \<times> 'w env) option" where
  "enqueue api queues obj e =
     (case obj of
        OtherObject \<Rightarrow> Some (obj, e)
      | PlacementRequestPtr None \<Rightarrow> None
      | PlacementRequestPtr (Some pr) \<Rightarrow>
          if SchedulerName (Spec pr) = '''' then Some (obj, e)
          else case queues (SchedulerName (Spec pr)) of
            None \<Rightarrow>
              (case TryToRejectPlacementRequest api pr ''QueueNotFound'' ''Scheduler queue not found'' (e_world e) of
                 (pr1, w1) \<Rightarrow> Some (PlacementRequestPtr (Some pr1), e\<lparr>e_world := w1\<rparr>))
          | Some qcfg \<Rightarrow>
              if int (length (Bindings (Spec pr))) > sint (MaxSize qcfg) then
                (case TryToRejectPlacementRequest api pr ''PlacementRequestTooLarge'' ''Placement request too large''
                        (e_world e) of
                   (pr1, w1) \<Rightarrow> Some (PlacementRequestPtr (Some pr1), e\<lparr>e_world := w1\<rparr>))
              else do {
                (st, n) \<leftarrow> ref_Push (\<lambda>_. Resume) (e_store e) (QueueRef qcfg) (e_resume e) (Some pr);
                Some (obj, e\<lparr>e_store := st, e_resume := n\<rparr>)
              })"

section \<open>Construction\<close>

datatype new_error =
  InvalidQueueConfiguration config_error
| UnknownFairnessAlgorithm string
| QueueIteratorError config_error
| EventHandlersError go_error

record PlacementRequestController =
  ctl_options :: options
  ctl_queues :: "string \<rightharpoonup> QueueConfig"
  ctl_iterator :: QueueIterator

text \<open>
  The handler given to the informer, which calls \<open>h_add\<close> on the new objects that pass \<open>h_filter\<close>. The
  informer is outside the repository: \<open>informer\<close> is its answer to \<open>AddEventHandler\<close>.
\<close>

record 'w event_handler =
  h_filter :: "event_object \<Rightarrow> bool"
  h_add :: "event_object \<Rightarrow> 'w env \<Rightarrow> (event_object \<times> 'w env) option"

definition AddEventHandlers ::
  "('w event_handler \<Rightarrow> go_error option) \<Rightarrow> 'w api \<Rightarrow> (string \<rightharpoonup> QueueConfig) \<Rightarrow> go_error option" where
  "AddEventHandlers informer api queues =
     (case informer \<lparr>h_filter = filter_func, h_add = enqueue api queues\<rparr> of
        Some err \<Rightarrow> Some (''failed to add placement request event handler: '' @ err)
      | None \<Rightarrow> None)"

definition New ::
  "('w event_handler \<Rightarrow> go_error option) \<Rightarrow> 'w api \<Rightarrow> (options \<Rightarrow> options) list \<Rightarrow> Configuration \<Rightarrow> unit qstore \<Rightarrow>
   ((new_error + PlacementRequestController) \<times> unit qstore) option" where
  "New informer api opts cfg st =
     do { (configs, st1) \<leftarrow> QueueConfigFromV1Alpha1Config st cfg;
          (case QueueConfigs_Validate configs of
             Some err \<Rightarrow> Some (Inl (InvalidQueueConfiguration err), st1)
           | None \<Rightarrow>
               if cfg_FairnessAlgorithm cfg \<notin> {'''', RoundRobin, Uniform}
               then Some (Inl (UnknownFairnessAlgorithm (cfg_FairnessAlgorithm cfg)), st1)
               else
                 let itopts = (if cfg_FairnessAlgorithm cfg = Uniform then [WithReaderFactory UniformFactory]
                               else [WithReaderFactory RoundRobinFactory]) in
                 do { (res, st2) \<leftarrow> NewQueueIterator st1 configs itopts;
                      case res of
                        Inl err \<Rightarrow> Some (Inl (QueueIteratorError err), st2)
                      | Inr it \<Rightarrow>
                          (case AddEventHandlers informer api (ToMap configs) of
                             Some err \<Rightarrow> Some (Inl (EventHandlersError err), st2)
                           | None \<Rightarrow> Some (Inr \<lparr>ctl_options = fold (\<lambda>opt o'. opt o') opts defaultOptions,
                               ctl_queues = ToMap configs, ctl_iterator = it\<rparr>, st2)) }) }"

section \<open>What scheduling a request does\<close>

text \<open>The calls of the API, with their answers, in order.\<close>

datatype api_event =
  GotPod string string "go_error + Pod"
| BoundPod V1Binding "go_error option"
| UpdatedStatus PlacementRequest "go_error option"

definition logged :: "'w api \<Rightarrow> ('w \<times> api_event list) api" where
  "logged api =
     \<lparr>get_pod = (\<lambda>ns name (w, l). let (r, w') = get_pod api ns name w in (r, (w', l @ [GotPod ns name r]))),
      bind_pod = (\<lambda>b (w, l). let (r, w') = bind_pod api b w in (r, (w', l @ [BoundPod b r]))),
      update_status = (\<lambda>pr (w, l). let (r, w') = update_status api pr w in (r, (w', l @ [UpdatedStatus pr r])))\<rparr>"

text \<open>The calls made for one binding, and the outcome that is recorded for it.\<close>

definition binding_events :: "string \<Rightarrow> Binding \<Rightarrow> api_event list \<Rightarrow> outcome \<Rightarrow> bool" where
  "binding_events ns b evs v \<longleftrightarrow>
     (\<exists>err. evs = [GotPod ns (PodName b) (Inl err)] \<and>
        v = (PlacementRequestResultFailure, ''API error'', ''Failed to get pod '' @ PodName b @ '': '' @ err)) \<or>
     (\<exists>pod. evs = [GotPod ns (PodName b) (Inr pod)] \<and> pod_NodeName pod \<noteq> '''' \<and>
        v = (if pod_NodeName pod = NodeName b
             then (PlacementRequestResultSuccess, ''Binding unneeded'', ''Pod was already bound'')
             else (PlacementRequestResultFailure, ''Pod already bound'',
                   ''Pod '' @ PodName b @ '' bound to a different node node''))) \<or>
     (\<exists>pod r. pod_NodeName pod = '''' \<and>
        evs = [GotPod ns (PodName b) (Inr pod),
               BoundPod \<lparr>vb_Namespace = ns, vb_Name = PodName b, vb_UID = PodUID b, vb_Kind = ''Node'',
                         vb_Target = NodeName b\<rparr> r] \<and>
        v = (case r of
               Some err \<Rightarrow> (PlacementRequestResultFailure, ''API denied binding'', err)
             | None \<Rightarrow> (PlacementRequestResultSuccess, ''Binding successful'', ''Pod successfully bound'')))"

lemma schedule_binding_logged:
  "\<exists>evs v w'. schedule_binding (logged api) b (pr, (w, l)) = (set_outcome pr b v, (w', l @ evs)) \<and>
     binding_events (Namespace pr) b evs v"
proof -
  obtain g w1 where g: "get_pod api (Namespace pr) (PodName b) w = (g, w1)" by fastforce
  let ?b = "\<lparr>vb_Namespace = Namespace pr, vb_Name = PodName b, vb_UID = PodUID b, vb_Kind = ''Node'', vb_Target = NodeName b\<rparr>"
  obtain r w2 where r: "bind_pod api ?b w1 = (r, w2)" by fastforce
  show ?thesis
  proof (cases g)
    case (Inl err)
    with g show ?thesis
      by (simp add: schedule_binding_def logged_def set_outcome_def SetPodBindingFailure_def binding_events_def)
  next
    case (Inr pod)
    with g r show ?thesis
      by (cases "pod_NodeName pod = ''''"; cases r)
         (auto simp: schedule_binding_def logged_def set_outcome_def SetPodBindingFailure_def
           SetPodBindingSuccess_def binding_events_def Let_def)
  qed
qed

lemma set_outcome_fields [simp]:
  "Spec (set_outcome pr b v) = Spec pr" "Namespace (set_outcome pr b v) = Namespace pr"
  "DeletionTimestamp (set_outcome pr b v) = DeletionTimestamp pr"
  by (simp_all add: set_outcome_def SetPodBindingResult_def Let_def set_results_def split: option.split)

lemma set_all_fields [simp]:
  "Spec (status_table.set_all pr bvs) = Spec pr" "Namespace (status_table.set_all pr bvs) = Namespace pr"
  by (induction bvs arbitrary: pr) auto

text \<open>The loop over the bindings makes the calls of each binding in turn.\<close>

lemma fold_schedule_logged:
  "\<exists>xs w'. length xs = length bs \<and>
     fold (schedule_binding (logged api)) bs (pr, (w, l)) =
       (status_table.set_all pr (zip bs (map snd xs)), (w', l @ concat (map fst xs))) \<and>
     (\<forall>i < length bs. binding_events (Namespace pr) (bs ! i) (fst (xs ! i)) (snd (xs ! i)))"
proof (induction bs arbitrary: pr w l)
  case Nil
  then show ?case by simp
next
  case (Cons b bs)
  from schedule_binding_logged [of api b pr w l] obtain evs v w1 where
    1: "schedule_binding (logged api) b (pr, (w, l)) = (set_outcome pr b v, (w1, l @ evs))"
      "binding_events (Namespace pr) b evs v" by blast
  from Cons [of "set_outcome pr b v" w1 "l @ evs"] obtain xs w' where
    2: "length xs = length bs"
      "fold (schedule_binding (logged api)) bs (set_outcome pr b v, (w1, l @ evs)) =
         (status_table.set_all (set_outcome pr b v) (zip bs (map snd xs)), (w', (l @ evs) @ concat (map fst xs)))"
      "\<forall>i < length bs. binding_events (Namespace pr) (bs ! i) (fst (xs ! i)) (snd (xs ! i))" by auto
  have "\<forall>i < length (b # bs). binding_events (Namespace pr) ((b # bs) ! i)
      (fst (((evs, v) # xs) ! i)) (snd (((evs, v) # xs) ! i))"
    using 1(2) 2(3) by (auto simp: nth_Cons split: nat.split)
  with 1 2 show ?case by (intro exI [of _ "(evs, v) # xs"] exI [of _ w']) simp
qed

text \<open>Logging changes nothing.\<close>

definition forget :: "PlacementRequest \<times> 'w \<times> api_event list \<Rightarrow> PlacementRequest \<times> 'w" where
  "forget s = (fst s, fst (snd s))"

lemma schedule_binding_forget: "forget (schedule_binding (logged api) b s) = schedule_binding api b (forget s)"
  by (cases s) (auto simp: forget_def schedule_binding_def logged_def Let_def split: prod.splits sum.splits option.splits)

lemma fold_schedule_forget:
  "forget (fold (schedule_binding (logged api)) bs s) = fold (schedule_binding api) bs (forget s)"
  by (induction bs arbitrary: s) (simp_all add: schedule_binding_forget)

lemma ScheduleOne_logged:
  "ScheduleOne api p w = map_option (\<lambda>(e, pr, w, l). (e, pr, w)) (ScheduleOne (logged api) p (w, l))"
proof (cases p)
  case (Some pr)
  obtain pr1 w1 l1 where f: "fold (schedule_binding (logged api)) (Bindings (Spec pr)) (pr, (w, l)) = (pr1, w1, l1)"
    by (metis prod_cases3)
  then have "fold (schedule_binding api) (Bindings (Spec pr)) (pr, w) = (pr1, w1)"
    using fold_schedule_forget [of api "Bindings (Spec pr)" "(pr, (w, l))"] by (simp add: forget_def)
  with f Some show ?thesis
    by (auto simp: ScheduleOne_def logged_def Let_def split: option.splits prod.splits)
qed (simp add: ScheduleOne_def)

text \<open>A request the controller processes: not deleted, without a result, and valid.\<close>

definition schedulable :: "PlacementRequest \<Rightarrow> bool" where
  "schedulable pr \<longleftrightarrow> DeletionTimestamp pr = None \<and>
     Result (Status pr) = PlacementRequestResultUnknown \<and> Validate pr = None"

lemma set_status_fields [simp]:
  "Result (Status (set_status pr r m)) = r" "Message (Status (set_status pr r m)) = m"
  "st_Bindings (Status (set_status pr r m)) = st_Bindings (Status pr)" "Spec (set_status pr r m) = Spec pr"
  "AssessResult (set_status pr r m) = AssessResult pr" "result_for (set_status pr r m) = result_for pr"
  "result_uids (set_status pr r m) = result_uids pr"
  by (simp_all add: set_status_def AssessResult_def result_for_def result_uids_def fun_eq_iff)

lemma ScheduleOne_run:
  assumes "schedulable pr"
  shows "\<exists>xs pr' e w'. length xs = length (Bindings (Spec pr)) \<and>
     (\<forall>i < length xs. binding_events (Namespace pr) (Bindings (Spec pr) ! i) (fst (xs ! i)) (snd (xs ! i))) \<and>
     pr' = set_status (status_table.set_all pr (zip (Bindings (Spec pr)) (map snd xs)))
       (fst (AssessResult pr')) (snd (AssessResult pr')) \<and>
     ScheduleOne (logged api) (Some pr) (w, []) =
       Some (map_option StatusUpdateFailed e, pr', w', concat (map fst xs) @ [UpdatedStatus pr' e])"
proof -
  from fold_schedule_logged [of "Bindings (Spec pr)" api pr w "[]"] obtain xs w1 where
    x: "length xs = length (Bindings (Spec pr))"
      "fold (schedule_binding (logged api)) (Bindings (Spec pr)) (pr, (w, [])) =
         (status_table.set_all pr (zip (Bindings (Spec pr)) (map snd xs)), (w1, concat (map fst xs)))"
      "\<forall>i < length (Bindings (Spec pr)). binding_events (Namespace pr) (Bindings (Spec pr) ! i) (fst (xs ! i)) (snd (xs ! i))"
    by auto
  let ?t = "status_table.set_all pr (zip (Bindings (Spec pr)) (map snd xs))"
  let ?pr = "set_status ?t (fst (AssessResult ?t)) (snd (AssessResult ?t))"
  obtain e w2 where u: "update_status api ?pr w1 = (e, w2)" by fastforce
  have "ScheduleOne (logged api) (Some pr) (w, []) =
      Some (map_option StatusUpdateFailed e, ?pr, w2, concat (map fst xs) @ [UpdatedStatus ?pr e])"
    using assms x(2) u by (cases e) (simp_all add: ScheduleOne_def schedulable_def logged_def Let_def split_beta)
  with x(1,3) show ?thesis
    by (intro exI [of _ xs] exI [of _ ?pr] exI [of _ e] exI [of _ w2]) simp
qed

text \<open>On a request without results and with different pods, the table is the list of the outcomes.\<close>

definition result_of :: "Binding \<times> outcome \<Rightarrow> PlacementRequestBindingResult" where
  "result_of bv = \<lparr>br_Binding = fst bv, br_Result = fst (snd bv), br_Reason = fst (snd (snd bv)), br_Message = snd (snd (snd bv))\<rparr>"

lemma result_for_lookup: "result_for pr uid = map_option result_of (lookup_outcome pr uid)"
  by (cases "result_for pr uid") (simp_all add: lookup_outcome_def result_of_def)

lemma set_outcome_fresh:
  assumes "PodUID b \<notin> set (result_uids pr)"
  shows "st_Bindings (Status (set_outcome pr b v)) = st_Bindings (Status pr) @ [result_of (b, v)]"
  using assms replace_result_None [of "st_Bindings (Status pr)" "result_of (b, v)"]
  by (simp add: set_outcome_def SetPodBindingResult_def Let_def result_of_def result_uids_def)

lemma set_all_fresh:
  assumes "st_Bindings (Status pr) = []" and "distinct (map (\<lambda>(b, v). PodUID b) bvs)"
  shows "st_Bindings (Status (status_table.set_all pr bvs)) = map result_of bvs"
  using assms
proof (induction bvs rule: rev_induct)
  case Nil
  then show ?case by simp
next
  case (snoc x bvs)
  obtain b v where x: "x = (b, v)" by (rule prod.exhaust)
  have "result_uids pr = []" using snoc.prems(1) by (simp add: result_uids_def)
  then have "PodUID b \<notin> set (result_uids (status_table.set_all pr bvs))"
    using snoc.prems(2) x status_table.set_all_fresh_keys [of pr bvs] by auto
  with snoc x show ?case by (simp add: set_outcome_fresh)
qed

lemma binding_events_result:
  "binding_events ns b evs v \<Longrightarrow> fst v = PlacementRequestResultSuccess \<or> fst v = PlacementRequestResultFailure"
  unfolding binding_events_def by (elim disjE exE conjE) (simp_all split: option.split)

lemma assessed:
  assumes "st_Bindings (Status pr) \<noteq> []"
    and "\<And>r. r \<in> set (st_Bindings (Status pr)) \<Longrightarrow>
      br_Result r = PlacementRequestResultSuccess \<or> br_Result r = PlacementRequestResultFailure"
  shows "(fst (AssessResult pr) = PlacementRequestResultSuccess \<longleftrightarrow>
       (\<forall>r \<in> set (st_Bindings (Status pr)). br_Result r = PlacementRequestResultSuccess)) \<and>
     (fst (AssessResult pr) = PlacementRequestResultFailure \<longleftrightarrow>
       (\<forall>r \<in> set (st_Bindings (Status pr)). br_Result r = PlacementRequestResultFailure)) \<and>
     fst (AssessResult pr) \<noteq> PlacementRequestResultUnknown"
proof -
  let ?bs = "st_Bindings (Status pr)" and ?P = "\<lambda>b. br_Result b = PlacementRequestResultSuccess"
  have "length (filter ?P ?bs) = length ?bs \<longleftrightarrow> (\<forall>r \<in> set ?bs. ?P r)" by (rule length_filter_all)
  moreover have "filter ?P ?bs = [] \<longleftrightarrow> (\<forall>r \<in> set ?bs. br_Result r = PlacementRequestResultFailure)"
    using assms(2) by (auto simp: filter_empty_conv result_defs)
  moreover have "PlacementRequestResultSuccess \<noteq> PlacementRequestResultFailure" by (simp add: result_defs)
  ultimately show ?thesis
    using assms(1) by (auto simp: AssessResult_def count_successes_eq Let_def) (auto simp: result_defs)
qed

section \<open>Properties of scheduling\<close>

text \<open>A cluster in which every pod exists, has no node, and can be bound.\<close>

definition sample_api :: "unit api" where
  "sample_api = \<lparr>get_pod = (\<lambda>_ _ w. (Inr \<lparr>pod_NodeName = ''''\<rparr>, w)), bind_pod = (\<lambda>_ w. (None, w)),
     update_status = (\<lambda>_ w. (None, w))\<rparr>"

lemma first_request_schedulable: "schedulable first_request" "st_Bindings (Status first_request) = []"
  "distinct (map PodUID (Bindings (Spec first_request)))"
  by (simp_all add: schedulable_def first_request_def sample_request_def Validate_def)

text \<open>
  The placement requests as the API server has them: reading and binding pods does not change them, and
  neither does an update of a status that the server answers with an error.
\<close>

definition keeps_requests :: "'w api \<Rightarrow> ('w \<Rightarrow> string \<times> string \<rightharpoonup> PlacementRequest) \<Rightarrow> bool" where
  "keeps_requests api stored \<longleftrightarrow>
     (\<forall>ns name w. stored (snd (get_pod api ns name w)) = stored w) \<and>
     (\<forall>b w. stored (snd (bind_pod api b w)) = stored w) \<and>
     (\<forall>pr w err w'. update_status api pr w = (Some err, w') \<longrightarrow> stored w' = stored w)"

lemma schedule_binding_keeps:
  assumes "keeps_requests api stored"
  shows "stored (snd (schedule_binding api b (pr, w))) = stored w"
proof -
  obtain r w1 where g: "get_pod api (Namespace pr) (PodName b) w = (r, w1)" by fastforce
  then have "stored w1 = stored w" using assms unfolding keeps_requests_def by (metis snd_conv)
  moreover have "stored (snd (bind_pod api x w1)) = stored w1" for x using assms unfolding keeps_requests_def by blast
  ultimately show ?thesis using g
    by (auto simp: schedule_binding_def Let_def split: sum.splits option.splits prod.splits) (metis snd_conv)+
qed

lemma fold_schedule_keeps:
  assumes "keeps_requests api stored"
  shows "stored (snd (fold (schedule_binding api) bs (pr, w))) = stored w"
proof (induction bs arbitrary: pr w)
  case (Cons b bs)
  then show ?case using schedule_binding_keeps [OF assms, of b pr w] by (cases "schedule_binding api b (pr, w)") simp
qed simp

text \<open>The only source of an error is the last call, the update of the status.\<close>

lemma ScheduleOne_error:
  assumes "ScheduleOne api (Some pr) w = Some (Some err, pr', w')"
  shows "\<exists>msg w1. err \<in> {UpdateError msg, StatusUpdateFailed msg} \<and> update_status api pr' w1 = (Some msg, w') \<and>
     (w1 = w \<or> w1 = snd (fold (schedule_binding api) (Bindings (Spec pr)) (pr, w))) \<and>
     Result (Status pr') \<noteq> PlacementRequestResultUnknown"
proof -
  have "fst (AssessResult x) \<noteq> PlacementRequestResultUnknown" for x
    by (simp add: AssessResult_def Let_def result_defs)
  with assms show ?thesis
    by (auto simp: ScheduleOne_def Let_def result_defs split: if_splits option.splits prod.splits) (metis fst_conv)
qed

text \<open>
  C22: a status that could not be written is lost. When \<open>ScheduleOne\<close> returns an error, which \<open>Run\<close>
  logs, the update of the status was the last call and failed. The request object, the one in the
  informer's cache, nevertheless carries the result: every later \<open>ScheduleOne\<close> of the object returns at
  once, without an error and without a call of the API, even if updates would succeed by then. If
  an update answered with an error is not applied, the API server has all requests as they were before.
\<close>

theorem failed_update_not_retried:
  assumes "ScheduleOne (logged api) (Some pr) (w, []) = Some (Some err, pr', w', calls)"
  shows "(\<exists>msg. err \<in> {UpdateError msg, StatusUpdateFailed msg} \<and> calls \<noteq> [] \<and> last calls = UpdatedStatus pr' (Some msg)) \<and>
     Result (Status pr') \<noteq> PlacementRequestResultUnknown \<and>
     (\<forall>api' v l. ScheduleOne (logged api') (Some pr') (v, l) = Some (None, pr', v, l)) \<and>
     (\<forall>stored. keeps_requests api stored \<longrightarrow> stored w' = stored w)"
proof -
  from ScheduleOne_error [OF assms] obtain msg w1 l1 where
    e: "err \<in> {UpdateError msg, StatusUpdateFailed msg}" "Result (Status pr') \<noteq> PlacementRequestResultUnknown" and
    u: "update_status (logged api) pr' (w1, l1) = (Some msg, w', calls)" by auto
  have "ScheduleOne api (Some pr) w = Some (Some err, pr', w')" using ScheduleOne_logged [of api "Some pr" w "[]"] assms by simp
  from ScheduleOne_error [OF this] have "stored w' = stored w" if "keeps_requests api stored" for stored
    using that fold_schedule_keeps [OF that, of "Bindings (Spec pr)" pr w] unfolding keeps_requests_def by metis
  moreover have "calls = l1 @ [UpdatedStatus pr' (Some msg)]" using u by (auto simp: logged_def split_beta)
  ultimately show ?thesis using e by (auto simp: ScheduleOne_def)
qed

text \<open>A cluster whose first update of a status fails with a conflict, and whose later ones are applied.\<close>

definition conflict_api :: "(nat \<times> (string \<times> string \<rightharpoonup> PlacementRequest)) api" where
  "conflict_api =
     \<lparr>get_pod = (\<lambda>_ _ w. (Inr \<lparr>pod_NodeName = ''''\<rparr>, w)), bind_pod = (\<lambda>_ w. (None, w)),
      update_status = (\<lambda>pr (n, m). if n = 0 then (Some ''conflict'', (1, m))
        else (None, (Suc n, m((Namespace pr, Name pr) \<mapsto> pr))))\<rparr>"

lemma conflict_api_keeps: "keeps_requests conflict_api snd"
  by (auto simp: keeps_requests_def conflict_api_def split: if_splits)

theorem failed_update_not_retried_witness:
  "\<exists>pr' w' calls. ScheduleOne (logged conflict_api) (Some first_request) ((0, Map.empty), []) =
       Some (Some (StatusUpdateFailed ''conflict''), pr', w', calls) \<and>
     Result (Status pr') \<noteq> PlacementRequestResultUnknown \<and> fst w' = 1 \<and> snd w' = Map.empty \<and>
     ScheduleOne (logged conflict_api) (Some pr') (w', calls) = Some (None, pr', w', calls)"
proof -
  obtain pr' w' calls where
    s: "ScheduleOne (logged conflict_api) (Some first_request) ((0, Map.empty), []) =
      Some (Some (StatusUpdateFailed ''conflict''), pr', w', calls)" and "fst w' = 1"
    by (simp add: ScheduleOne_def first_request_def sample_request_def Validate_def schedule_binding_def logged_def
      conflict_api_def Let_def split_beta result_defs)
  with failed_update_not_retried [OF s] conflict_api_keeps show ?thesis by fastforce
qed

text \<open>
  \<open>ScheduleOne\<close> leaves a request that is deleted or already has a result alone: no call of the
  API, no change of the request, no error.
\<close>

theorem ScheduleOne_skips:
  assumes "DeletionTimestamp pr \<noteq> None \<or> Result (Status pr) \<noteq> PlacementRequestResultUnknown"
  shows "ScheduleOne (logged api) (Some pr) (w, l) = Some (None, pr, w, l)"
  using assms by (simp add: ScheduleOne_def)

theorem ScheduleOne_skips_witness:
  "ScheduleOne (logged sample_api) (Some (set_status first_request PlacementRequestResultSuccess ''done'')) ((), []) =
     Some (None, set_status first_request PlacementRequestResultSuccess ''done'', (), [])"
  by (rule ScheduleOne_skips) (simp add: result_defs)

text \<open>
  C35: \<open>ScheduleOne\<close> rejects a request without bindings or with a policy other than \<open>Lenient\<close>: it binds
  no pod, sets the result to \<open>Rejected\<close> with the reason as the message, writes the status once, and
  returns the error of that write.
\<close>

theorem ScheduleOne_rejects:
  assumes "DeletionTimestamp pr = None" and "Result (Status pr) = PlacementRequestResultUnknown"
    and "Bindings (Spec pr) = [] \<or> Policy (Spec pr) \<noteq> PlacementRequestPolicyLenient"
  shows "\<exists>e pr' w'. ScheduleOne (logged api) (Some pr) (w, []) = Some (map_option UpdateError e, pr', w', [UpdatedStatus pr' e]) \<and>
     Result (Status pr') = PlacementRequestResultRejected \<and> Some (Message (Status pr')) = Validate pr \<and>
     Spec pr' = Spec pr \<and> st_Bindings (Status pr') = st_Bindings (Status pr)"
proof -
  have "Validate pr \<noteq> None" using assms(3) by (auto simp: Validate_def)
  then obtain msg where m: "Validate pr = Some msg" by blast
  obtain e w' where u: "update_status api (set_status pr PlacementRequestResultRejected msg) w = (e, w')" by fastforce
  have "ScheduleOne (logged api) (Some pr) (w, []) = Some (map_option UpdateError e,
      set_status pr PlacementRequestResultRejected msg, w', [UpdatedStatus (set_status pr PlacementRequestResultRejected msg) e])"
    using assms(1,2) m u by (simp add: ScheduleOne_def logged_def Let_def)
  then show ?thesis using m by simp
qed

theorem ScheduleOne_rejects_witness:
  "\<exists>e pr' w'. ScheduleOne (logged sample_api) (Some (sample_request ''empty'' 5 [])) ((), []) =
       Some (map_option UpdateError e, pr', w', [UpdatedStatus pr' e]) \<and>
     Result (Status pr') = PlacementRequestResultRejected"
  using ScheduleOne_rejects [of "sample_request ''empty'' 5 []" sample_api "()"]
  by (fastforce simp: sample_request_def)

text \<open>
  C11: on a valid request \<open>ScheduleOne\<close> treats the bindings one after the other, then writes the status
  once. For each binding it asks for the pod; it calls \<open>Bind\<close> only if the pod was found and has no node,
  once, for the pod and node of the binding and in the namespace of the request. The outcome of the last
  binding of a pod is what the final status says of the pod: success only if the API accepted the
  binding or reported the pod on that node.
\<close>

theorem ScheduleOne_calls:
  assumes "schedulable pr"
  shows "\<exists>xs pr' e w'. ScheduleOne (logged api) (Some pr) (w, []) =
       Some (map_option StatusUpdateFailed e, pr', w', concat (map fst xs) @ [UpdatedStatus pr' e]) \<and>
     length xs = length (Bindings (Spec pr)) \<and>
     (\<forall>i < length xs. binding_events (Namespace pr) (Bindings (Spec pr) ! i) (fst (xs ! i)) (snd (xs ! i))) \<and>
     (\<forall>i < length xs. (\<forall>j < length xs. i < j \<longrightarrow> PodUID (Bindings (Spec pr) ! j) \<noteq> PodUID (Bindings (Spec pr) ! i)) \<longrightarrow>
        result_for pr' (PodUID (Bindings (Spec pr) ! i)) = Some (result_of (Bindings (Spec pr) ! i, snd (xs ! i))))"
proof -
  from ScheduleOne_run [OF assms, of api w] obtain xs pr' e w' where
    x: "length xs = length (Bindings (Spec pr))"
      "\<forall>i < length xs. binding_events (Namespace pr) (Bindings (Spec pr) ! i) (fst (xs ! i)) (snd (xs ! i))"
      "pr' = set_status (status_table.set_all pr (zip (Bindings (Spec pr)) (map snd xs)))
         (fst (AssessResult pr')) (snd (AssessResult pr'))"
      "ScheduleOne (logged api) (Some pr) (w, []) =
         Some (map_option StatusUpdateFailed e, pr', w', concat (map fst xs) @ [UpdatedStatus pr' e])" by blast
  have "result_for pr' (PodUID (Bindings (Spec pr) ! i)) = Some (result_of (Bindings (Spec pr) ! i, snd (xs ! i)))"
    if i: "i < length xs" "\<forall>j < length xs. i < j \<longrightarrow> PodUID (Bindings (Spec pr) ! j) \<noteq> PodUID (Bindings (Spec pr) ! i)" for i
  proof -
    let ?bvs = "zip (Bindings (Spec pr)) (map snd xs)"
    have "lookup_outcome (status_table.set_all pr ?bvs) (PodUID (fst (?bvs ! i))) = Some (?bvs ! i)"
      using i x(1) by (intro status_table.set_all_nth) auto
    then show ?thesis
      using i(1) x(1) by (subst x(3)) (simp add: result_for_lookup)
  qed
  with x show ?thesis by blast
qed

theorem ScheduleOne_calls_witness:
  "\<exists>(xs :: (api_event list \<times> outcome) list) pr' e w'. ScheduleOne (logged sample_api) (Some first_request) ((), []) =
     Some (map_option StatusUpdateFailed e, pr', w', concat (map fst xs) @ [UpdatedStatus pr' e]) \<and> length xs = 2"
proof -
  have "length (Bindings (Spec first_request)) = 2" by (simp add: first_request_def sample_request_def)
  moreover from ScheduleOne_calls [OF first_request_schedulable(1), of sample_api "()"] obtain xs :: "(api_event list \<times> outcome) list" and pr' e w' where
    "ScheduleOne (logged sample_api) (Some first_request) ((), []) =
       Some (map_option StatusUpdateFailed e, pr', w', concat (map fst xs) @ [UpdatedStatus pr' e])"
    "length xs = length (Bindings (Spec first_request))" by blast
  ultimately show ?thesis by (intro exI [of _ xs] exI [of _ pr'] exI [of _ e] exI [of _ w']) simp
qed

text \<open>
  C10: on a valid request without earlier results, whose bindings are for different pods, \<open>ScheduleOne\<close>
  ends with exactly one result per binding, in order, each \<open>Success\<close> or \<open>Failure\<close>; the overall result
  is \<open>Success\<close> exactly if all bindings succeeded and \<open>Failure\<close> exactly if all failed, it is never left
  unknown, and the spec is unchanged.
\<close>

theorem ScheduleOne_reports:
  assumes "schedulable pr" and "st_Bindings (Status pr) = []" and "distinct (map PodUID (Bindings (Spec pr)))"
  shows "\<exists>e pr' w'. ScheduleOne api (Some pr) w = Some (e, pr', w') \<and>
     map br_Binding (st_Bindings (Status pr')) = Bindings (Spec pr) \<and>
     (\<forall>r \<in> set (st_Bindings (Status pr')). br_Result r = PlacementRequestResultSuccess \<or> br_Result r = PlacementRequestResultFailure) \<and>
     (Result (Status pr') = PlacementRequestResultSuccess \<longleftrightarrow>
        (\<forall>r \<in> set (st_Bindings (Status pr')). br_Result r = PlacementRequestResultSuccess)) \<and>
     (Result (Status pr') = PlacementRequestResultFailure \<longleftrightarrow>
        (\<forall>r \<in> set (st_Bindings (Status pr')). br_Result r = PlacementRequestResultFailure)) \<and>
     Result (Status pr') \<noteq> PlacementRequestResultUnknown \<and> Spec pr' = Spec pr"
proof -
  from ScheduleOne_run [OF assms(1), of api w] obtain xs pr' e w' where
    x: "length xs = length (Bindings (Spec pr))"
      "\<forall>i < length xs. binding_events (Namespace pr) (Bindings (Spec pr) ! i) (fst (xs ! i)) (snd (xs ! i))"
      "pr' = set_status (status_table.set_all pr (zip (Bindings (Spec pr)) (map snd xs)))
         (fst (AssessResult pr')) (snd (AssessResult pr'))"
      "ScheduleOne (logged api) (Some pr) (w, []) =
         Some (map_option StatusUpdateFailed e, pr', w', concat (map fst xs) @ [UpdatedStatus pr' e])" by blast
  let ?bvs = "zip (Bindings (Spec pr)) (map snd xs)" and ?rs = "st_Bindings (Status pr')"
  have "map (\<lambda>(b, v). PodUID b) ?bvs = map PodUID (Bindings (Spec pr))"
    using x(1) by (intro nth_equalityI) auto
  then have rs: "?rs = map result_of ?bvs"
    using set_all_fresh [OF assms(2), of ?bvs] assms(3) by (subst x(3)) simp
  have "map br_Binding ?rs = Bindings (Spec pr)"
    unfolding rs using x(1) by (intro nth_equalityI) (auto simp: result_of_def)
  moreover have two: "br_Result r = PlacementRequestResultSuccess \<or> br_Result r = PlacementRequestResultFailure"
    if "r \<in> set ?rs" for r
  proof -
    from that obtain i where i: "i < length xs" "r = result_of (Bindings (Spec pr) ! i, snd (xs ! i))"
      using x(1) unfolding rs by (auto simp: set_zip)
    with x(2) have "binding_events (Namespace pr) (Bindings (Spec pr) ! i) (fst (xs ! i)) (snd (xs ! i))" by blast
    from binding_events_result [OF this] i(2) show ?thesis by (simp add: result_of_def)
  qed
  moreover have "Result (Status pr') = fst (AssessResult pr')" by (subst x(3)) simp
  moreover have "Spec pr' = Spec pr" by (subst x(3)) simp
  moreover have "?rs \<noteq> []" using assms(1) x(1) unfolding rs by (auto simp: schedulable_def Validate_def split: if_splits)
  moreover have "ScheduleOne api (Some pr) w = Some (map_option StatusUpdateFailed e, pr', w')"
    using ScheduleOne_logged [of api "Some pr" w "[]"] x(4) by simp
  ultimately show ?thesis
    using assessed [of pr'] by auto
qed

theorem ScheduleOne_reports_witness:
  "\<exists>e pr' w'. ScheduleOne sample_api (Some first_request) () = Some (e, pr', w') \<and>
     map br_Binding (st_Bindings (Status pr')) = Bindings (Spec first_request)"
  using ScheduleOne_reports [OF first_request_schedulable, of sample_api "()"] by blast

section \<open>Properties of queueing\<close>

lemma TryToReject_logged:
  "\<exists>e w'. TryToRejectPlacementRequest (logged api) pr reason msg (w, l) =
     (pr\<lparr>Status := (Status pr)\<lparr>Result := PlacementRequestResultRejected, Reason := reason, Message := msg\<rparr>\<rparr>,
      w', l @ [UpdatedStatus (pr\<lparr>Status := (Status pr)\<lparr>Result := PlacementRequestResultRejected, Reason := reason, Message := msg\<rparr>\<rparr>) e])"
  by (simp add: TryToRejectPlacementRequest_def logged_def Let_def split: prod.split)

lemma ToMap_lookup:
  assumes "QueueConfigs_Validate cs = None" and "c \<in> set cs"
  shows "ToMap cs (q_SchedulerName c) = Some c"
  using assms ToMap_distinct [of cs] by (simp add: QueueConfigs_Validate_None)

lemma ToMap_none:
  "\<forall>c \<in> set cs. q_SchedulerName c \<noteq> name \<Longrightarrow> ToMap cs name = None"
  by (auto simp: ToMap_last)

lemma fold_Resume: "fold (\<lambda>_ :: unit. Resume) hs n = (Resume ^^ length hs) n"
  by (induction hs arbitrary: n) (simp_all add: funpow_swap1)

text \<open>
  \<open>enqueue\<close> pushes a request that names a configured scheduler and is not larger than its queue
  allows into the queue of that scheduler, and only there; the handlers of the queue run, nothing is
  written to the API, and the request is unchanged.
\<close>

theorem enqueue_pushes:
  assumes "QueueConfigs_Validate cs = None" and "c \<in> set cs" and "SchedulerName (Spec pr) = q_SchedulerName c"
    and "int (length (Bindings (Spec pr))) \<le> sint (MaxSize c)"
    and "store_inv (e_store e)" and "QueueRef c = Some a" and "a < length (e_store e)"
  shows "\<exists>q'. enqueue api (ToMap cs) (PlacementRequestPtr (Some pr)) e =
       Some (PlacementRequestPtr (Some pr), e\<lparr>e_store := (e_store e)[a := q'],
         e_resume := (Resume ^^ length (pushHandlers (e_store e ! a))) (e_resume e)\<rparr>) \<and>
     prq_inv q' \<and> requests q' = add_mset pr (requests (e_store e ! a)) \<and> pushHandlers q' = pushHandlers (e_store e ! a)"
proof -
  have name: "SchedulerName (Spec pr) \<noteq> ''''"
    using assms(1-3) by (auto simp: QueueConfigs_Validate_None config_ok_def)
  have look: "ToMap cs (SchedulerName (Spec pr)) = Some c" using ToMap_lookup [OF assms(1,2)] assms(3) by simp
  from Push_correct [OF store_invD [OF assms(5,7)], of "\<lambda>_. Resume" "e_resume e" pr] obtain q' where
    q: "Push (\<lambda>_. Resume) (e_store e ! a) (e_resume e) (Some pr) =
          Some (q', fold (\<lambda>_. Resume) (pushHandlers (e_store e ! a)) (e_resume e))"
      "prq_inv q'" "requests q' = add_mset pr (requests (e_store e ! a))" "pushHandlers q' = pushHandlers (e_store e ! a)"
    by blast
  then show ?thesis
    using name look assms(4,6,7) by (intro exI [of _ q']) (simp add: enqueue_def ref_Push_def fold_Resume)
qed

theorem enqueue_pushes_witness:
  "\<exists>q'. enqueue sample_api (ToMap sample_configs) (PlacementRequestPtr (Some first_request))
       \<lparr>e_store = sample_store, e_resume = 0, e_world = ()\<rparr> =
     Some (PlacementRequestPtr (Some first_request), \<lparr>e_store = sample_store[0 := q'], e_resume = 0, e_world = ()\<rparr>) \<and>
     requests q' = add_mset first_request (requests (sample_store ! 0))"
proof -
  have v: "QueueConfigs_Validate sample_configs = None"
    by (simp add: QueueConfigs_Validate_None sample_configs_def config_ok_def)
  have c: "sample_config ''a'' 1 0 \<in> set sample_configs" by (simp add: sample_configs_def)
  have "SchedulerName (Spec first_request) = ''a''" "length (Bindings (Spec first_request)) \<le> 100"
    by (simp_all add: first_request_def sample_request_def)
  with enqueue_pushes [OF v c, of first_request "\<lparr>e_store = sample_store, e_resume = 0, e_world = ()\<rparr>" 0 sample_api]
  show ?thesis by (auto simp: sample_queue_def)
qed

text \<open>
  C18: \<open>enqueue\<close> rejects a request whose scheduler has no queue, or that is larger than its queue allows:
  the queues and the iterator are left alone, and the status of the request, with the result
  \<open>Rejected\<close> and the reason, is written to the API exactly once; a failure of that write is ignored.
\<close>

theorem enqueue_rejects:
  assumes "QueueConfigs_Validate cs = None" and "SchedulerName (Spec pr) \<noteq> ''''"
    and "(\<forall>c \<in> set cs. q_SchedulerName c \<noteq> SchedulerName (Spec pr)) \<and> reason = ''QueueNotFound'' \<or>
         (\<exists>c \<in> set cs. q_SchedulerName c = SchedulerName (Spec pr) \<and>
            sint (MaxSize c) < int (length (Bindings (Spec pr)))) \<and> reason = ''PlacementRequestTooLarge''"
    and "e_world e = (w, [])"
  shows "\<exists>pr' err w'. enqueue (logged api) (ToMap cs) (PlacementRequestPtr (Some pr)) e =
       Some (PlacementRequestPtr (Some pr'), e\<lparr>e_world := (w', [UpdatedStatus pr' err])\<rparr>) \<and>
     Result (Status pr') = PlacementRequestResultRejected \<and> Reason (Status pr') = reason \<and> Spec pr' = Spec pr"
  using assms(3)
proof (elim disjE conjE bexE)
  let ?rejected = "\<lambda>msg. pr\<lparr>Status := (Status pr)\<lparr>Result := PlacementRequestResultRejected, Reason := reason, Message := msg\<rparr>\<rparr>"
  assume n: "\<forall>c \<in> set cs. q_SchedulerName c \<noteq> SchedulerName (Spec pr)" "reason = ''QueueNotFound''"
  from TryToReject_logged [of api pr reason "''Scheduler queue not found''" w "[]"] obtain err w' where
    "TryToRejectPlacementRequest (logged api) pr reason ''Scheduler queue not found'' (w, []) =
       (?rejected ''Scheduler queue not found'', w', [UpdatedStatus (?rejected ''Scheduler queue not found'') err])" by auto
  with n show ?thesis using assms(2,4)
    by (intro exI [of _ "?rejected ''Scheduler queue not found''"] exI [of _ err] exI [of _ w'])
       (simp add: enqueue_def ToMap_none)
next
  let ?rejected = "\<lambda>msg. pr\<lparr>Status := (Status pr)\<lparr>Result := PlacementRequestResultRejected, Reason := reason, Message := msg\<rparr>\<rparr>"
  fix c
  assume c: "c \<in> set cs" "q_SchedulerName c = SchedulerName (Spec pr)"
    "sint (MaxSize c) < int (length (Bindings (Spec pr)))" "reason = ''PlacementRequestTooLarge''"
  then have look: "ToMap cs (SchedulerName (Spec pr)) = Some c" using ToMap_lookup [OF assms(1) c(1)] by simp
  from TryToReject_logged [of api pr reason "''Placement request too large''" w "[]"] obtain err w' where
    "TryToRejectPlacementRequest (logged api) pr reason ''Placement request too large'' (w, []) =
       (?rejected ''Placement request too large'', w', [UpdatedStatus (?rejected ''Placement request too large'') err])" by auto
  with c look show ?thesis using assms(2,4)
    by (intro exI [of _ "?rejected ''Placement request too large''"] exI [of _ err] exI [of _ w'])
       (simp add: enqueue_def)
qed

theorem enqueue_rejects_witness:
  "\<exists>pr' err w'. enqueue (logged sample_api) (ToMap []) (PlacementRequestPtr (Some first_request))
       \<lparr>e_store = [], e_resume = 0, e_world = ((), [])\<rparr> =
     Some (PlacementRequestPtr (Some pr'), \<lparr>e_store = [], e_resume = 0, e_world = (w', [UpdatedStatus pr' err])\<rparr>) \<and>
     Reason (Status pr') = ''QueueNotFound''"
proof -
  have "SchedulerName (Spec first_request) \<noteq> ''''" by (simp add: first_request_def sample_request_def)
  with enqueue_rejects [of "[]" first_request "''QueueNotFound''" "\<lparr>e_store = [], e_resume = 0, e_world = ((), [])\<rparr>" "()" sample_api]
  show ?thesis by (simp add: QueueConfigs_Validate_None) blast
qed

end
