(* ===== verification/Controller_Run.thy ===== *)
theory Controller_Run
  imports Controller
begin

text \<open>
  The controller as it is put together by \<open>New\<close> and driven by \<open>Run\<close> (\<open>pkg/controller/controller.go\<close>).
  \<open>Run\<close> starts the iterator and, in a \<open>select\<close>, receives from \<open>Next\<close> or returns when the context is
  done; both cases may be ready. Sending and receiving on the unbuffered channel is one step of both
  goroutines. \<open>ScheduleOne\<close> shares nothing with the queues, so it is part of the step that receives its
  request. A receive from a closed channel gives nil.
\<close>

section \<open>What New accepts\<close>

lemma from_config_refs:
  assumes "QueueConfigFromV1Alpha1Config st raw = Some (cs, st1)" and "store_inv st"
  shows "refs_ok st1 cs \<and> distinct (config_refs cs) \<and> addresses cs = {length st ..< length st + length (Queues raw)} \<and>
     length st1 = length st + length (Queues raw) \<and> map q_SchedulerName cs = map q_SchedulerName (Queues raw)"
proof -
  let ?n = "length st" and ?qs = "Queues raw"
  have c: "cs = map (\<lambda>(i, c). Queue.extend c \<lparr>QueueRef = Some i\<rparr>) (enumerate ?n ?qs)"
    and st1: "st1 = st @ replicate (length ?qs) \<lparr>queue = \<lparr>items = []\<rparr>, pushHandlers = []\<rparr>"
    using assms(1) by (simp_all add: QueueConfigFromV1Alpha1Config_eq)
  have refs: "config_refs cs = map Some [?n ..< ?n + length ?qs]"
    unfolding c by (rule map_enumerate_fields(2))
  then have im: "QueueRef ` set cs = Some ` {?n ..< ?n + length ?qs}"
    by (metis config_refs_def list.set_map set_upt)
  have "store_inv st1" using assms(2) by (auto simp: st1 store_inv_def new_queue_inv)
  moreover have "length st1 = ?n + length ?qs" by (simp add: st1)
  ultimately have "refs_ok st1 cs" unfolding refs_ok_image im by auto
  moreover have "distinct (config_refs cs)" by (simp add: refs distinct_map)
  moreover have "addresses cs = {?n ..< ?n + length ?qs}" unfolding addresses_image im by auto
  moreover have "map q_SchedulerName cs = map q_SchedulerName ?qs" unfolding c by (rule map_enumerate_fields(1))
  ultimately show ?thesis using st1 by simp
qed

definition algorithm_ok :: "Configuration \<Rightarrow> bool" where
  "algorithm_ok cfg \<longleftrightarrow> cfg_FairnessAlgorithm cfg \<in> {'''', RoundRobin, Uniform}"

definition config_accepted :: "Configuration \<Rightarrow> bool" where
  "config_accepted cfg \<longleftrightarrow> (\<forall>q \<in> set (Queues cfg). queue_ok q) \<and> distinct (map q_SchedulerName (Queues cfg)) \<and>
     algorithm_ok cfg"

lemma NewQueueIterator_total:
  assumes "QueueConfigs_Validate cs = None" and "refs_ok st cs" and "distinct (config_refs cs)"
  shows "\<exists>it st'. NewQueueIterator st cs (map WithReaderFactory fs) = Some (Inr it, st')"
proof -
  have "\<forall>c \<in> set cs. \<exists>a < length st. QueueRef c = Some a" using assms(2) by (simp add: refs_ok_def)
  from QueueConfigs_AddPushHandler_correct [OF assms(3) this, of "()"] show ?thesis
    using assms(1) by (auto simp: NewQueueIterator_def Let_def)
qed

lemma New_outcome:
  assumes "store_inv st"
  shows "\<exists>cs st1. QueueConfigFromV1Alpha1Config st cfg = Some (cs, st1) \<and>
     (if config_accepted cfg then
        \<exists>it st'. NewQueueIterator st1 cs (map WithReaderFactory
            [if cfg_FairnessAlgorithm cfg = Uniform then UniformFactory else RoundRobinFactory]) = Some (Inr it, st') \<and>
          New informer api opts cfg st =
            Some ((case AddEventHandlers informer api (ToMap cs) of
                     Some err \<Rightarrow> Inl (EventHandlersError err)
                   | None \<Rightarrow> Inr \<lparr>ctl_options = fold (\<lambda>opt o'. opt o') opts defaultOptions,
                       ctl_queues = ToMap cs, ctl_iterator = it\<rparr>), st')
      else \<exists>err st'. New informer api opts cfg st = Some (Inl err, st'))"
proof -
  obtain cs st1 where q: "QueueConfigFromV1Alpha1Config st cfg = Some (cs, st1)"
    by (simp add: QueueConfigFromV1Alpha1Config_eq)
  note r = from_config_refs [OF q assms]
  have v: "QueueConfigs_Validate cs = None \<longleftrightarrow>
      (\<forall>q \<in> set (Queues cfg). queue_ok q) \<and> distinct (map q_SchedulerName (Queues cfg))"
    by (rule from_file_Validate [OF q])
  let ?f = "if cfg_FairnessAlgorithm cfg = Uniform then UniformFactory else RoundRobinFactory"
  show ?thesis
  proof (cases "config_accepted cfg")
    case True
    then have vn: "QueueConfigs_Validate cs = None" "algorithm_ok cfg" using v by (simp_all add: config_accepted_def)
    from NewQueueIterator_total [OF vn(1), of st1 "[?f]"] r obtain it st' where
      n: "NewQueueIterator st1 cs (map WithReaderFactory [?f]) = Some (Inr it, st')" by blast
    have "(if cfg_FairnessAlgorithm cfg = Uniform then [WithReaderFactory UniformFactory]
        else [WithReaderFactory RoundRobinFactory]) = map WithReaderFactory [?f]" by simp
    with True q vn n show ?thesis
      by (simp add: New_def algorithm_ok_def split: option.split)
  next
    case False
    with q v show ?thesis
      by (cases "QueueConfigs_Validate cs") (auto simp: New_def config_accepted_def algorithm_ok_def)
  qed
qed

text \<open>
  C19: \<open>New\<close> makes a controller exactly for the configurations it should: every queue has a name, a
  weight and a maximal size, no name occurs twice, and the fairness algorithm is known (the informer
  accepting the handlers). Then there is one fresh queue for each configured one, each with the
  iterator's \<open>Resume\<close> as its only handler, the map by scheduler name covers the configured names, and the
  reader follows the algorithm, round robin by default.
\<close>

theorem New_accepts:
  assumes "\<forall>h. informer h = None"
  shows "\<exists>res st'. New informer api opts cfg [] = Some (res, st') \<and>
     ((\<exists>c. res = Inr c) \<longleftrightarrow> config_accepted cfg) \<and>
     (\<forall>c. res = Inr c \<longrightarrow> length st' = length (Queues cfg) \<and>
        (\<forall>a < length st'. Len (st' ! a) = 0 \<and> pushHandlers (st' ! a) = [()]) \<and>
        dom (ctl_queues c) = set (map q_SchedulerName (Queues cfg)) \<and>
        readerFactory (ctl_iterator c) = (if cfg_FairnessAlgorithm cfg = Uniform then UniformFactory else RoundRobinFactory))"
proof -
  let ?f = "if cfg_FairnessAlgorithm cfg = Uniform then UniformFactory else RoundRobinFactory"
  from New_outcome [of "[]" cfg informer api opts] obtain cs st1 where
    q: "QueueConfigFromV1Alpha1Config [] cfg = Some (cs, st1)" and
    n: "if config_accepted cfg then
        \<exists>it st'. NewQueueIterator st1 cs (map WithReaderFactory [?f]) = Some (Inr it, st') \<and>
          New informer api opts cfg [] =
            Some ((case AddEventHandlers informer api (ToMap cs) of
                     Some err \<Rightarrow> Inl (EventHandlersError err)
                   | None \<Rightarrow> Inr \<lparr>ctl_options = fold (\<lambda>opt o'. opt o') opts defaultOptions,
                       ctl_queues = ToMap cs, ctl_iterator = it\<rparr>), st')
      else \<exists>err st'. New informer api opts cfg [] = Some (Inl err, st')" by (auto simp: store_inv_def)
  have r: "refs_ok st1 cs" "distinct (config_refs cs)" "addresses cs = {0 ..< length (Queues cfg)}"
      "length st1 = length (Queues cfg)" "map q_SchedulerName cs = map q_SchedulerName (Queues cfg)"
    using from_config_refs [OF q] by (simp_all add: store_inv_def)
  have st1: "st1 = replicate (length (Queues cfg)) \<lparr>queue = \<lparr>items = []\<rparr>, pushHandlers = []\<rparr>"
    using q by (simp add: QueueConfigFromV1Alpha1Config_eq)
  show ?thesis
  proof (cases "config_accepted cfg")
    case False
    with n show ?thesis by auto
  next
    case True
    with n assms obtain it st' where
      i: "NewQueueIterator st1 cs (map WithReaderFactory [?f]) = Some (Inr it, st')"
        "New informer api opts cfg [] = Some (Inr \<lparr>ctl_options = fold (\<lambda>opt o'. opt o') opts defaultOptions,
           ctl_queues = ToMap cs, ctl_iterator = it\<rparr>, st')"
      by (auto simp: AddEventHandlers_def)
    have refs: "\<forall>c \<in> set cs. \<exists>a < length st1. QueueRef c = Some a" using r(1) by (simp add: refs_ok_def)
    from QueueConfigs_AddPushHandler_correct [OF r(2) refs, of "()"] i(1)
    have h: "length st' = length st1" "\<forall>a < length st1. st' ! a =
        (if Some a \<in> set (config_refs cs) then AddPushHandler (st1 ! a) () else st1 ! a)"
      by (auto simp: NewQueueIterator_def Let_def split: option.splits)
    have "Some a \<in> set (config_refs cs)" if "a < length st1" for a
    proof -
      have "a \<in> addresses cs" using r(3,4) that by simp
      then show ?thesis by (auto simp: addresses_image config_refs_def)
    qed
    with h r(4) st1 have "\<forall>a < length st'. Len (st' ! a) = 0 \<and> pushHandlers (st' ! a) = [()]"
      by (simp add: AddPushHandler_def Len_def pq_Len_def)
    moreover have "dom (ToMap cs) = set (map q_SchedulerName (Queues cfg))"
      unfolding r(5) [symmetric] by (auto simp: ToMap_last dom_def)
    moreover have "readerFactory it = ?f" using NewQueueIterator_success [OF i(1) r(1,2)] by simp
    ultimately show ?thesis using i(2) h(1) r(4) True by simp
  qed
qed

definition sample_configuration :: Configuration where
  "sample_configuration = \<lparr>Queues = [\<lparr>q_SchedulerName = ''a'', Weight = 1, MaxSize = 10,
       q_Plugins = \<lparr>plug_Validate = \<lparr>Enabled = [], Disabled = []\<rparr>\<rparr>\<rparr>],
     cfg_FairnessAlgorithm = RoundRobin, cfg_Plugins = \<lparr>plug_Validate = \<lparr>Enabled = [], Disabled = []\<rparr>\<rparr>\<rparr>"

lemma sample_configuration_accepted: "config_accepted sample_configuration"
  by (simp add: sample_configuration_def config_accepted_def queue_ok_def algorithm_ok_def)

theorem New_accepts_witness:
  "\<exists>c st'. New (\<lambda>_. None) sample_api [] sample_configuration [] = Some (Inr c, st') \<and>
     length st' = 1 \<and> readerFactory (ctl_iterator c) = RoundRobinFactory"
proof -
  have "cfg_FairnessAlgorithm sample_configuration \<noteq> Uniform" "length (Queues sample_configuration) = 1"
    by (simp_all add: sample_configuration_def RoundRobin_def Uniform_def)
  with New_accepts [of "\<lambda>_. None" sample_api "[]" sample_configuration] sample_configuration_accepted show ?thesis by auto
qed

section \<open>Run\<close>

datatype ctl_pc = Selecting | Returned | Panicking

record 'w run_state =
  rs_sys :: "reader_state sys"
  rs_ctl :: ctl_pc
  rs_world :: 'w
  rs_scheduled :: "PlacementRequest list"

inductive run_step :: "'w api \<Rightarrow> reader_state option set \<Rightarrow> 'w run_state \<Rightarrow> 'w run_state \<Rightarrow> bool" for api fresh where
  iterator: "it_step read_prog fresh (rs_sys rs) s' \<Longrightarrow> delivered s' = delivered (rs_sys rs) \<Longrightarrow>
    run_step api fresh rs (rs\<lparr>rs_sys := s'\<rparr>)"
| others: "env_step (rs_sys rs) s' \<Longrightarrow> run_step api fresh rs (rs\<lparr>rs_sys := s'\<rparr>)"
| receive: "rs_ctl rs = Selecting \<Longrightarrow> pc (rs_sys rs) = Sending pr r \<Longrightarrow>
    ScheduleOne api (Some pr) (rs_world rs) = Some (err, pr', w') \<Longrightarrow>
    run_step api fresh rs (rs\<lparr>rs_sys := (rs_sys rs)\<lparr>delivered := delivered (rs_sys rs) @ [pr], pc := Reading (read_prog r)\<rparr>,
      rs_world := w', rs_scheduled := rs_scheduled rs @ [pr']\<rparr>)"
| receive_closed: "rs_ctl rs = Selecting \<Longrightarrow> pc (rs_sys rs) = Closed \<Longrightarrow>
    ScheduleOne api None (rs_world rs) = None \<Longrightarrow> run_step api fresh rs (rs\<lparr>rs_ctl := Panicking\<rparr>)"
| return: "rs_ctl rs = Selecting \<Longrightarrow> cancelled (rs_sys rs) \<Longrightarrow> run_step api fresh rs (rs\<lparr>rs_ctl := Returned\<rparr>)"

definition run_start :: "unit qstore \<Rightarrow> 'w \<Rightarrow> 'w run_state" where
  "run_start st w = \<lparr>rs_sys = start_state st, rs_ctl = Selecting, rs_world = w, rs_scheduled = []\<rparr>"

definition run_reaches ::
  "'w api \<Rightarrow> reader_state option set \<Rightarrow> unit qstore \<Rightarrow> 'w \<Rightarrow> 'w run_state \<Rightarrow> bool" where
  "run_reaches api fresh st w rs \<longleftrightarrow> (run_step api fresh)\<^sup>*\<^sup>* (run_start st w) rs"

text \<open>Every run of the controller is, seen from the iterator, a run of the iterator.\<close>

definition run_inv :: "'w api \<Rightarrow> reader_state option set \<Rightarrow> unit qstore \<Rightarrow> 'w run_state \<Rightarrow> bool" where
  "run_inv api fresh st rs \<longleftrightarrow> reaches read_prog fresh st (rs_sys rs) \<and>
     list_all2 (\<lambda>pr pr'. \<exists>w err w'. ScheduleOne api (Some pr) w = Some (err, pr', w')) (delivered (rs_sys rs)) (rs_scheduled rs) \<and>
     (rs_ctl rs \<noteq> Selecting \<longrightarrow> cancelled (rs_sys rs)) \<and> (pc (rs_sys rs) = Closed \<longrightarrow> cancelled (rs_sys rs))"

lemma reaches_step:
  assumes "reaches prog fresh st s" and "it_step prog fresh s s' \<or> env_step s s'"
  shows "reaches prog fresh st s'"
  using assms unfolding reaches_def by (rule rtranclp.rtrancl_into_rtrancl)

lemma step_cancelled: "it_step prog fresh s s' \<or> env_step s s' \<Longrightarrow> cancelled s \<Longrightarrow> cancelled s'"
  by (auto elim!: it_step.cases env_step.cases)

lemma step_closed: "it_step prog fresh s s' \<or> env_step s s' \<Longrightarrow> pc s' = Closed \<Longrightarrow> pc s = Closed \<or> cancelled s'"
  by (auto elim!: it_step.cases env_step.cases)

lemma env_delivered: "env_step s s' \<Longrightarrow> delivered s' = delivered s"
  by (auto elim!: env_step.cases)

lemma run_step_inv:
  assumes "run_step api fresh rs rs'" and inv: "run_inv api fresh st rs"
  shows "run_inv api fresh st rs'"
  using assms(1)
proof (cases rule: run_step.cases)
  case (iterator s')
  then show ?thesis
    using inv reaches_step [of read_prog fresh st "rs_sys rs" s'] step_cancelled [of read_prog fresh "rs_sys rs" s']
      step_closed [of read_prog fresh "rs_sys rs" s'] by (auto simp: run_inv_def)
next
  case (others s')
  then show ?thesis
    using inv reaches_step [of read_prog fresh st "rs_sys rs" s'] step_cancelled [of read_prog fresh "rs_sys rs" s']
      step_closed [of read_prog fresh "rs_sys rs" s'] env_delivered [of "rs_sys rs" s'] by (auto simp: run_inv_def)
next
  case (receive pr r err pr' w')
  let ?P = "\<lambda>pr pr'. \<exists>w err w'. ScheduleOne api (Some pr) w = Some (err, pr', w')"
  have "list_all2 ?P (delivered (rs_sys rs)) (rs_scheduled rs)" using inv by (simp add: run_inv_def)
  then have "list_all2 ?P (delivered (rs_sys rs) @ [pr]) (rs_scheduled rs @ [pr'])"
    using receive(4) by (intro list_all2_appendI) auto
  with receive show ?thesis
    using inv reaches_step [of read_prog fresh st "rs_sys rs"] it_step.send [of "rs_sys rs" pr r read_prog fresh]
    by (auto simp: run_inv_def)
qed (use inv in \<open>auto simp: run_inv_def\<close>)

lemma run_reaches_inv:
  assumes "run_reaches api fresh st w rs"
  shows "run_inv api fresh st rs"
  using assms unfolding run_reaches_def
proof (induction rule: rtranclp_induct)
  case base
  show ?case by (simp add: run_inv_def run_start_def reaches_def start_state_def)
next
  case (step rs rs')
  then show ?case using run_step_inv by blast
qed

section \<open>Properties of Run\<close>

text \<open>The iterator of a controller made by \<open>New\<close>: made by \<open>NewQueueIterator\<close>, over all queues of the store.\<close>

lemma New_parts:
  assumes "New informer api opts cfg [] = Some (Inr c, st')"
  obtains st1 fs where
    "NewQueueIterator st1 (it_configs (ctl_iterator c)) (map WithReaderFactory fs) = Some (Inr (ctl_iterator c), st')"
    "refs_ok st1 (it_configs (ctl_iterator c))" "distinct (config_refs (it_configs (ctl_iterator c)))"
    "addresses (it_configs (ctl_iterator c)) = {..<length st'}"
proof -
  from New_outcome [of "[]" cfg informer api opts] assms obtain cs st1 f where
    q: "QueueConfigFromV1Alpha1Config [] cfg = Some (cs, st1)" and
    n: "NewQueueIterator st1 cs (map WithReaderFactory [f]) = Some (Inr (ctl_iterator c), st')"
    by (auto simp: store_inv_def split: if_splits option.splits)
  have r: "refs_ok st1 cs" "distinct (config_refs cs)" "addresses cs = {0 ..< length (Queues cfg)}"
      "length st1 = length (Queues cfg)"
    using from_config_refs [OF q] by (simp_all add: store_inv_def)
  have refs: "\<forall>c \<in> set cs. \<exists>a < length st1. QueueRef c = Some a" using r(1) by (simp add: refs_ok_def)
  from QueueConfigs_AddPushHandler_correct [OF r(2) refs, of "()"] n have "length st' = length st1"
    by (auto simp: NewQueueIterator_def Let_def split: option.splits)
  then have "addresses cs = {..<length st'}" using r(3,4) by (simp add: atLeast0LessThan)
  moreover have "it_configs (ctl_iterator c) = cs" using NewQueueIterator_success [OF n r(1,2)] by simp
  ultimately show ?thesis using that [of st1 "[f]"] n r(1,2) by simp
qed

lemma New_iterator:
  assumes "New informer api opts cfg [] = Some (Inr c, st')" and "factory_weights (ctl_iterator c)"
    and "reaches read_prog (new_readers oor (ctl_iterator c)) st' s"
  shows "sys_inv (reader_ok (it_configs (ctl_iterator c))) {..<length st'} s"
proof (rule New_parts [OF assms(1)])
  fix st1 fs
  assume "NewQueueIterator st1 (it_configs (ctl_iterator c)) (map WithReaderFactory fs) = Some (Inr (ctl_iterator c), st')"
    "refs_ok st1 (it_configs (ctl_iterator c))" "distinct (config_refs (it_configs (ctl_iterator c)))"
    and a: "addresses (it_configs (ctl_iterator c)) = {..<length st'}"
  from iterator_sys_inv [OF this(1-3) assms(2,3)] show ?thesis unfolding a .
qed

text \<open>
  The weights a reader can work with, read off the configuration. The round robin reader needs a queue
  (\<open>slices.MinFunc\<close> panics on none; the validation of the configuration file demands one) and weights up
  to \<open>2 ^ 58\<close>, so that every quota fits an \<open>int\<close>; the sum of the uniform reader's weights has to fit an
  \<open>int\<close>. Neither \<open>New\<close> nor the validation of the file checks the size of the weights.
\<close>

definition config_weights :: "Configuration \<Rightarrow> bool" where
  "config_weights cfg \<longleftrightarrow>
     (if cfg_FairnessAlgorithm cfg = Uniform then (\<Sum>q \<leftarrow> Queues cfg. uint (Weight q)) < 2 ^ 63
      else Queues cfg \<noteq> [] \<and> (\<forall>q \<in> set (Queues cfg). uint (Weight q) \<le> 2 ^ 58))"

lemma New_factory:
  assumes "New informer api opts cfg [] = Some (Inr c, st')"
  shows "readerFactory (ctl_iterator c) = (if cfg_FairnessAlgorithm cfg = Uniform then UniformFactory else RoundRobinFactory)"
    and "map Weight (it_configs (ctl_iterator c)) = map Weight (Queues cfg)"
    and "\<forall>q \<in> set (it_configs (ctl_iterator c)). 0 < uint (Weight q)"
proof -
  from New_outcome [of "[]" cfg informer api opts] assms obtain cs st1 where
    q: "QueueConfigFromV1Alpha1Config [] cfg = Some (cs, st1)" and
    n: "NewQueueIterator st1 cs (map WithReaderFactory
      [if cfg_FairnessAlgorithm cfg = Uniform then UniformFactory else RoundRobinFactory]) = Some (Inr (ctl_iterator c), st')"
    by (auto simp: store_inv_def split: if_splits option.splits)
  have r: "refs_ok st1 cs" "distinct (config_refs cs)" using from_config_refs [OF q] by (simp_all add: store_inv_def)
  note it = NewQueueIterator_success [OF n r]
  then show "readerFactory (ctl_iterator c) = (if cfg_FairnessAlgorithm cfg = Uniform then UniformFactory else RoundRobinFactory)"
    by simp
  have "map Weight (map (\<lambda>(i, c). Queue.extend c \<lparr>QueueRef = Some i\<rparr>) (enumerate k qs)) = map Weight qs"
    for k and qs :: "Queue list"
    by (induction qs arbitrary: k) simp_all
  moreover have "it_configs (ctl_iterator c) = map (\<lambda>(i, c). Queue.extend c \<lparr>QueueRef = Some i\<rparr>) (enumerate 0 (Queues cfg))"
    using it q by (simp add: QueueConfigFromV1Alpha1Config_eq)
  ultimately show "map Weight (it_configs (ctl_iterator c)) = map Weight (Queues cfg)" by metis
  show "\<forall>q \<in> set (it_configs (ctl_iterator c)). 0 < uint (Weight q)"
    using it QueueConfigs_Validate_None [of cs] by (simp add: config_ok_def)
qed

lemma config_factory_weights:
  assumes "New informer api opts cfg [] = Some (Inr c, st')" and "config_weights cfg"
  shows "factory_weights (ctl_iterator c)"
proof -
  let ?cs = "it_configs (ctl_iterator c)"
  note f = New_factory [OF assms(1)]
  have "weight_sum ?cs = (\<Sum>q \<leftarrow> Queues cfg. uint (Weight q))"
    using arg_cong [OF f(2), of "\<lambda>ws. \<Sum>x \<leftarrow> ws. uint x"] by (simp add: weight_sum_def comp_def)
  moreover have "Weight ` set ?cs = Weight ` set (Queues cfg)" using f(2) by (metis list.set_map)
  then have "(\<forall>x \<in> Weight ` set ?cs. uint x \<le> 2 ^ 58) \<longleftrightarrow> (\<forall>x \<in> Weight ` set (Queues cfg). uint x \<le> 2 ^ 58)" by simp
  then have "(\<forall>q \<in> set ?cs. uint (Weight q) \<le> 2 ^ 58) \<longleftrightarrow> (\<forall>q \<in> set (Queues cfg). uint (Weight q) \<le> 2 ^ 58)"
    unfolding ball_simps(9) .
  moreover have "?cs = [] \<longleftrightarrow> Queues cfg = []" using f(2) by (metis map_is_Nil_conv)
  ultimately show ?thesis using assms(2) f(1,3)
    by (auto simp: config_weights_def factory_weights_def weights_ok_def weights_within_def)
qed

lemma length_store: "it_step prog fresh s s' \<or> env_step s s' \<Longrightarrow> length (store s') = length (store s)"
  by (auto elim!: it_step.cases env_step.cases simp: ref_Pop_def bind_eq_Some_conv)

lemma reaches_length: "reaches prog fresh st s \<Longrightarrow> length (store s) = length st"
  unfolding reaches_def
proof (induction rule: rtranclp_induct)
  case base
  show ?case by (simp add: start_state_def)
next
  case (step s s')
  then show ?case using length_store [of prog fresh s s'] by simp
qed

lemma all_empty_contents: "all_empty st {..<length st} \<Longrightarrow> contents st = {#}"
proof -
  assume e: "all_empty st {..<length st}"
  have "requests q = {#}" if "q \<in> set st" for q
    using e that by (auto simp: all_empty_def requests_empty_iff in_set_conv_nth)
  then show ?thesis unfolding contents_def by (induction st) auto
qed

text \<open>
  The whole controller, from the configuration to \<open>ScheduleOne\<close>. For a controller made by \<open>New\<close>, in
  every interleaving of its goroutines with pushes: the iterator does not crash; every request handed
  over was scheduled once, in the order of handing over; what was pushed is handed over, in the
  iterator's hand, queued, or, after a cancellation only, dropped; while the context is not cancelled
  \<open>Run\<close> keeps running; and when the iterator sleeps with no signal and no push under way, every request
  ever pushed has been scheduled (or dropped after the cancellation).
\<close>

theorem controller_schedules_everything:
  assumes "New informer api opts cfg [] = Some (Inr c, st')" and "factory_weights (ctl_iterator c)"
    and "run_reaches api (new_readers oor (ctl_iterator c)) st' w rs"
  shows "pc (rs_sys rs) \<noteq> Crashed \<and>
     list_all2 (\<lambda>pr pr'. \<exists>w err w'. ScheduleOne api (Some pr) w = Some (err, pr', w')) (delivered (rs_sys rs)) (rs_scheduled rs) \<and>
     pushed (rs_sys rs) = mset (delivered (rs_sys rs)) + mset (dropped (rs_sys rs)) + in_hand (rs_sys rs) + contents (store (rs_sys rs)) \<and>
     (\<not> cancelled (rs_sys rs) \<longrightarrow> dropped (rs_sys rs) = [] \<and> rs_ctl rs = Selecting) \<and>
     (pc (rs_sys rs) = Waiting \<and> resume (rs_sys rs) = 0 \<and> (\<forall>a. mid (rs_sys rs) a = None) \<longrightarrow>
        pushed (rs_sys rs) = mset (delivered (rs_sys rs)) + mset (dropped (rs_sys rs)))"
proof -
  note ri = run_reaches_inv [OF assms(3)]
  then have rch: "reaches read_prog (new_readers oor (ctl_iterator c)) st' (rs_sys rs)" by (simp add: run_inv_def)
  note inv = New_iterator [OF assms(1,2) rch]
  have "contents (store (rs_sys rs)) = {#} \<and> in_hand (rs_sys rs) = {#}"
    if "pc (rs_sys rs) = Waiting" "resume (rs_sys rs) = 0" "\<forall>a. mid (rs_sys rs) a = None"
    using program_readers.wakeup [of "it_configs (ctl_iterator c)" "rs_sys rs"] inv that
      all_empty_contents [of "store (rs_sys rs)"] reaches_length [OF rch]
    by (auto simp: in_hand_def sys_inv_def pc_inv_def settled_def all_empty_def)
  then show ?thesis
    using ri inv by (auto simp: run_inv_def sys_inv_def pc_inv_def accounted_def)
qed

text \<open>
  C25: \<open>Run\<close> may panic when the context is cancelled. Whatever the configuration and the cluster, there is a
  run in which the iterator sees the cancellation and closes \<open>Next\<close>, the \<open>select\<close> in \<open>Run\<close> takes the
  receive from the closed channel instead of \<open>ctx.Done()\<close>, and \<open>ScheduleOne\<close> dereferences nil.
\<close>

theorem run_may_panic_on_shutdown:
  "\<exists>rs. run_reaches api fresh st w rs \<and> cancelled (rs_sys rs) \<and> rs_ctl rs = Panicking"
proof -
  let ?s0 = "run_start st w"
  let ?s1 = "?s0\<lparr>rs_sys := (start_state st)\<lparr>cancelled := True\<rparr>\<rparr>"
  let ?s2 = "?s1\<lparr>rs_sys := (start_state st)\<lparr>cancelled := True, pc := Closed\<rparr>\<rparr>"
  let ?s3 = "?s2\<lparr>rs_ctl := Panicking\<rparr>"
  have 1: "run_step api fresh ?s0 ?s1"
    using run_step.others [of ?s0 "(start_state st)\<lparr>cancelled := True\<rparr>" api fresh] env_step.cancel [of "start_state st"]
    by (simp add: run_start_def)
  have 2: "run_step api fresh ?s1 ?s2"
    using run_step.iterator [of fresh ?s1 "(start_state st)\<lparr>cancelled := True, pc := Closed\<rparr>" api]
      it_step.top_done [of "(start_state st)\<lparr>cancelled := True\<rparr>" read_prog fresh]
    by (simp add: start_state_def)
  have 3: "run_step api fresh ?s2 ?s3"
    using run_step.receive_closed [of ?s2 api fresh] by (simp add: run_start_def start_state_def ScheduleOne_def)
  have "run_reaches api fresh st w ?s3"
    unfolding run_reaches_def using 1 2 3 by (meson converse_rtranclp_into_rtranclp rtranclp.rtrancl_refl)
  then show ?thesis by (intro exI [of _ ?s3]) (simp add: start_state_def)
qed

lemma sample_controller:
  obtains c st' where "New (\<lambda>_. None) sample_api [] sample_configuration [] = Some (Inr c, st')"
    "factory_weights (ctl_iterator c)"
proof -
  from New_outcome [of "[]" sample_configuration "\<lambda>_. None" sample_api "[]"] sample_configuration_accepted
  obtain cs st1 it st' where
    q: "QueueConfigFromV1Alpha1Config [] sample_configuration = Some (cs, st1)" and
    i: "NewQueueIterator st1 cs (map WithReaderFactory [RoundRobinFactory]) = Some (Inr it, st')" and
    n: "New (\<lambda>_. None) sample_api [] sample_configuration [] =
      Some (Inr \<lparr>ctl_options = defaultOptions, ctl_queues = ToMap cs, ctl_iterator = it\<rparr>, st')"
    by (auto simp: store_inv_def AddEventHandlers_def sample_configuration_def RoundRobin_def Uniform_def)
  have r: "refs_ok st1 cs" "distinct (config_refs cs)" using from_config_refs [OF q] by (simp_all add: store_inv_def)
  have "it_configs it = cs" "readerFactory it = RoundRobinFactory" using NewQueueIterator_success [OF i r] by simp_all
  moreover have "cs \<noteq> []" "weights_within (2 ^ 58) cs"
    using q by (auto simp: QueueConfigFromV1Alpha1Config_eq sample_configuration_def weights_within_def)
  ultimately have "factory_weights it" by (simp add: factory_weights_def)
  with that n show ?thesis by simp
qed

lemma sample_config_weights: "config_weights sample_configuration"
  by (simp add: config_weights_def sample_configuration_def RoundRobin_def Uniform_def)

theorem controller_schedules_everything_witness:
  "\<exists>c st'. New (\<lambda>_. None) sample_api [] sample_configuration [] = Some (Inr c, st') \<and>
     (let rs = (run_start st' ())\<lparr>rs_sys := (start_state st')\<lparr>cancelled := True\<rparr>\<rparr> in
      run_reaches sample_api (new_readers (\<lambda>_. 0) (ctl_iterator c)) st' () rs \<and>
      pushed (rs_sys rs) = mset (delivered (rs_sys rs)) + mset (dropped (rs_sys rs)) + in_hand (rs_sys rs) + contents (store (rs_sys rs)))"
proof -
  obtain c st' where n: "New (\<lambda>_. None) sample_api [] sample_configuration [] = Some (Inr c, st')"
    and w: "factory_weights (ctl_iterator c)" by (rule sample_controller)
  let ?rs = "(run_start st' ())\<lparr>rs_sys := (start_state st')\<lparr>cancelled := True\<rparr>\<rparr>"
  have "run_step sample_api (new_readers (\<lambda>_. 0) (ctl_iterator c)) (run_start st' ()) ?rs"
    using run_step.others [of "run_start st' ()" "(start_state st')\<lparr>cancelled := True\<rparr>" sample_api] env_step.cancel [of "start_state st'"]
    by (simp add: run_start_def)
  then have rr: "run_reaches sample_api (new_readers (\<lambda>_. 0) (ctl_iterator c)) st' () ?rs" by (simp add: run_reaches_def)
  from controller_schedules_everything [OF n w rr] rr n show ?thesis unfolding Let_def by auto
qed

text \<open>
  C39: why a round robin controller needs a queue. The validation of the configuration file refuses a
  configuration without queues, but \<open>New\<close> itself accepts it; with the round robin algorithm the first step
  of the iterator, and it can take one, is then a panic, in \<open>slices.MinFunc\<close>.
\<close>

theorem no_queues_panic:
  assumes "Queues cfg = []" and "cfg_FairnessAlgorithm cfg \<in> {'''', RoundRobin}" and "\<forall>h. informer h = None"
  shows "validate cfg \<noteq> [] \<and>
    (\<exists>c. New informer api opts cfg [] = Some (Inr c, []) \<and>
       (\<exists>s'. it_step read_prog (new_readers oor (ctl_iterator c)) (start_state []) s') \<and>
       (\<forall>s'. it_step read_prog (new_readers oor (ctl_iterator c)) (start_state []) s' \<longrightarrow> pc s' = Crashed))"
proof -
  have "validate cfg \<noteq> []" using assms(1) by (simp add: validate_Nil)
  moreover obtain c where c: "New informer api opts cfg [] = Some (Inr c, [])"
      "ctl_iterator c = \<lparr>readerFactory = RoundRobinFactory, it_configs = []\<rparr>"
    using assms by (auto simp: New_def QueueConfigFromV1Alpha1Config_def QueueConfigs_Validate_def NewQueueIterator_def
        AddEventHandlers_def Let_def WithReaderFactory_def RoundRobin_def Uniform_def)
  have "new_readers oor (ctl_iterator c) = {None}"
    by (simp add: new_readers_def c(2) NewRoundRobinReader_def slices_MinFunc_def)
  moreover have "it_step read_prog {None} (start_state []) ((start_state [])\<lparr>pc := Crashed\<rparr>)"
    by (rule it_step.top_panic) (simp_all add: start_state_def)
  moreover have "pc s' = Crashed" if "it_step read_prog {None} (start_state []) s'" for s'
    using that by cases (simp_all add: start_state_def)
  ultimately show ?thesis using c(1) by auto
qed

theorem no_queues_panic_witness:
  "\<exists>c. New (\<lambda>_. None) sample_api [] (sample_configuration\<lparr>Queues := []\<rparr>) [] = Some (Inr c, []) \<and>
     (\<exists>s'. it_step read_prog (new_readers (\<lambda>_. 0) (ctl_iterator c)) (start_state []) s' \<and> pc s' = Crashed)"
  using no_queues_panic [of "sample_configuration\<lparr>Queues := []\<rparr>" "\<lambda>_. None" sample_api "[]" "\<lambda>_. 0"]
  by (auto simp: sample_configuration_def)

end
