(* ===== verification/Iterator_Progress.thy ===== *)
theory Iterator_Progress
  imports Queue_Iterator
begin

text \<open>
  The iterator's progress: left alone, its goroutine makes only finitely many steps. A step shrinks,
  in lexicographic order, the requests it has to move (a queued one counts twice, one in hand once),
  the signals in the channel, the phase of the loop, and the rest of the reader's program. So the
  goroutine drains the queues and sleeps, or, after a cancellation, ends.
\<close>

section \<open>The measure\<close>

text \<open>The rest of a reader's program after one operation.\<close>

definition rest_of :: "('r prog \<times> 'r prog) set" where
  "rest_of = {(k n, LenOf ref k) | k n ref. True} \<union> {(k res, PopOf ref k) | k res ref. True}"

lemma wf_rest_of: "wf rest_of"
proof (rule wfUNIVI)
  fix P :: "'a prog \<Rightarrow> bool" and p
  assume step: "\<forall>p. (\<forall>q. (q, p) \<in> rest_of \<longrightarrow> P q) \<longrightarrow> P p"
  show "P p"
  proof (induction p)
    case (LenOf ref k)
    have "\<forall>q. (q, LenOf ref k) \<in> rest_of \<longrightarrow> P q" using LenOf.IH by (auto simp: rest_of_def)
    then show ?case using step by blast
  next
    case (PopOf ref k)
    have "\<forall>q. (q, PopOf ref k) \<in> rest_of \<longrightarrow> P q" using PopOf.IH by (auto simp: rest_of_def)
    then show ?case using step by blast
  qed (rule step [rule_format], simp add: rest_of_def)+
qed

definition left_to_move :: "'r sys \<Rightarrow> nat" where
  "left_to_move s = 2 * size (contents (store s)) + size (in_hand s)"

definition phase :: "'r sys \<Rightarrow> nat" where
  "phase s =
     (case pc s of
        Reading p \<Rightarrow> 4 | Sending pr r \<Rightarrow> 3 | Waiting \<Rightarrow> 2 | Top \<Rightarrow> if cancelled s then 1 else 5
      | Closed \<Rightarrow> 0 | Crashed \<Rightarrow> 0)"

definition reading :: "'r sys \<Rightarrow> 'r prog" where
  "reading s = (case pc s of Reading p \<Rightarrow> p | _ \<Rightarrow> Panic)"

definition progress_order :: "('r sys \<times> 'r sys) set" where
  "progress_order =
     inv_image (less_than <*lex*> less_than <*lex*> less_than <*lex*> rest_of)
       (\<lambda>s. (left_to_move s, resume s, phase s, reading s))"

lemma wf_progress_order: "wf progress_order"
  unfolding progress_order_def by (intro wf_inv_image wf_lex_prod wf_less_than wf_rest_of)

lemma progress_orderI:
  assumes "left_to_move s' < left_to_move s \<or> left_to_move s' = left_to_move s \<and>
    (resume s' < resume s \<or> resume s' = resume s \<and>
      (phase s' < phase s \<or> phase s' = phase s \<and> (reading s', reading s) \<in> rest_of))"
  shows "(s', s) \<in> progress_order"
  using assms by (auto simp: progress_order_def)

section \<open>Every step makes progress\<close>

lemma ref_Pop_contents:
  assumes "store_ok S st" and "a \<in> S" and "ref_Pop st (Some a) = Some (res, st')"
  shows "case res of None \<Rightarrow> st' = st | Some pr \<Rightarrow> contents st = add_mset pr (contents st')"
proof -
  have a: "a < length st" using assms(1,2) by (auto simp: store_ok_def)
  from Pop_result [OF assms(1,2)] obtain q' where q: "st' = st[a := q']"
      "case res of None \<Rightarrow> q' = st ! a | Some pr \<Rightarrow> requests (st ! a) = add_mset pr (requests q')"
    using assms(3) a by (auto simp: ref_Pop_def split: option.splits)
  then show ?thesis using contents_update [OF a, of q'] by (cases res) auto
qed

lemma it_step_frame:
  assumes "it_step prog fresh s s'"
  shows "mid s' = mid s \<and> cancelled s' = cancelled s \<and> pushed s' = pushed s"
  using assms by (cases rule: it_cases) auto

lemma accounted_size:
  assumes "accounted s"
  shows "size (pushed s) = length (delivered s) + length (dropped s) + size (in_hand s) + size (contents (store s))"
  using assms by (simp add: accounted_def)

context reader_program
begin

lemma wants_addressed:
  assumes "sys_inv I S s" and "pc s = Reading p" and "wants p = Some a"
  shows "a \<in> S"
  using assms by (cases p) (auto simp: sys_inv_def pc_inv_def)

lemma step_progress:
  assumes inv: "sys_inv I S s" and step: "it_step prog fresh s s'" and fresh: "\<forall>x \<in> fresh. \<exists>r. x = Some r \<and> I r"
  shows "(s', s) \<in> progress_order"
proof -
  have inv': "sys_inv I S s'" by (rule it_step_inv [OF inv step fresh])
  have keep: "length (delivered s) + length (dropped s) + size (in_hand s) + size (contents (store s)) =
      length (delivered s') + length (dropped s') + size (in_hand s') + size (contents (store s'))"
    using accounted_size [of s] accounted_size [of s'] inv inv' it_step_frame [OF step]
    by (simp add: sys_inv_def)
  show ?thesis using step
  proof (cases rule: it_cases)
    case (read_len a k n)
    with keep show ?thesis
      by (intro progress_orderI) (auto simp: left_to_move_def phase_def reading_def rest_of_def)
  next
    case (read_pop a k res st')
    have "case res of None \<Rightarrow> st' = store s | Some pr \<Rightarrow> contents (store s) = add_mset pr (contents st')"
      using ref_Pop_contents [OF _ wants_addressed [OF inv read_pop(2)] read_pop(4)] inv
      by (simp add: sys_inv_def)
    with keep read_pop show ?thesis
      by (intro progress_orderI)
        (auto simp: left_to_move_def phase_def reading_def rest_of_def split: option.splits)
  next
    case (read_panic p)
    then show ?thesis using inv' by (simp add: sys_inv_def pc_inv_def)
  next
    case top_panic
    then show ?thesis using inv' by (simp add: sys_inv_def pc_inv_def)
  qed (use keep in \<open>auto intro!: progress_orderI simp: left_to_move_def phase_def\<close>)
qed

lemma steps_inv:
  assumes "(it_step prog fresh)\<^sup>*\<^sup>* s s'" and "sys_inv I S s" and "\<forall>x \<in> fresh. \<exists>r. x = Some r \<and> I r"
  shows "sys_inv I S s' \<and> mid s' = mid s \<and> cancelled s' = cancelled s \<and> pushed s' = pushed s"
  using assms(1)
proof (induction rule: rtranclp_induct)
  case base
  show ?case using assms(2) by simp
next
  case (step t u)
  then show ?case using it_step_inv [OF _ _ assms(3)] it_step_frame by metis
qed

text \<open>No run of the goroutine alone is infinite.\<close>

lemma no_infinite_run:
  assumes "sys_inv I S (f 0)" and "\<forall>x \<in> fresh. \<exists>r. x = Some r \<and> I r"
  shows "\<not> (\<forall>i. it_step prog fresh (f i) (f (Suc i)))"
proof
  assume run: "\<forall>i. it_step prog fresh (f i) (f (Suc i))"
  have "sys_inv I S (f i)" for i
    by (induction i) (use assms(1) it_step_inv [OF _ _ assms(2)] run in blast)+
  then have "(f (Suc i), f i) \<in> progress_order" for i
    using step_progress [OF _ _ assms(2)] run by blast
  then show False using wf_progress_order by (simp add: wf_iff_no_infinite_down_chain) blast
qed

text \<open>Where it stops, it sleeps with nothing to read, or has ended after a cancellation.\<close>

lemma stops:
  assumes "(it_step prog fresh)\<^sup>*\<^sup>* s s'" and "sys_inv I S s" and fresh: "\<forall>x \<in> fresh. \<exists>r. x = Some r \<and> I r" "fresh \<noteq> {}"
    and "\<forall>a. mid s a = None" and "\<nexists>s''. it_step prog fresh s' s''"
  shows "if cancelled s then pc s' = Closed
    else pc s' = Waiting \<and> resume s' = 0 \<and> all_empty (store s') S \<and> dropped s' = []"
proof -
  from steps_inv [OF assms(1,2) fresh(1)] have inv: "sys_inv I S s'" and m: "\<forall>a. mid s' a = None"
    and c: "cancelled s' = cancelled s" using assms(5) by auto
  from progress [OF inv fresh(2)] assms(6) m
  consider "pc s' = Closed" | "pc s' = Waiting" "resume s' = 0" "\<not> cancelled s'" by auto
  then show ?thesis
  proof cases
    case 1
    then show ?thesis using inv c by (auto simp: sys_inv_def pc_inv_def)
  next
    case 2
    then show ?thesis using wakeup [OF inv _ _ m] inv c by (auto simp: sys_inv_def accounted_def)
  qed
qed

end

section \<open>Properties\<close>

text \<open>
  The iterator drains the queues. From every reachable state with no push under way, the goroutine
  left alone cannot run for ever, whatever its reader chooses; and it stops only asleep, with every
  queue empty and nothing dropped, so that each request was sent over \<open>Next\<close>, or, if the context was
  cancelled, only by closing \<open>Next\<close> and returning.
\<close>

theorem iterator_drains:
  assumes "NewQueueIterator st cs (map WithReaderFactory fs) = Some (Inr it, st')"
    and "refs_ok st cs" and "distinct (config_refs cs)" and "factory_weights it"
    and "reaches read_prog (new_readers oor it) st' s" and "\<forall>a. mid s a = None"
  shows "(\<nexists>f. f 0 = s \<and> (\<forall>i. it_step read_prog (new_readers oor it) (f i) (f (Suc i)))) \<and>
    (\<forall>s'. (it_step read_prog (new_readers oor it))\<^sup>*\<^sup>* s s' \<and> (\<nexists>s''. it_step read_prog (new_readers oor it) s' s'') \<longrightarrow>
      (if cancelled s then pc s' = Closed
       else pc s' = Waiting \<and> resume s' = 0 \<and> all_empty (store s') (addresses cs) \<and>
            pushed s = mset (delivered s') + contents (store s')))"
proof -
  note inv = iterator_sys_inv [OF assms(1-5)]
  have fresh: "\<forall>x \<in> new_readers oor it. \<exists>r. x = Some r \<and> reader_ok cs r"
    using new_readers_ok [OF assms(4)] NewQueueIterator_success [OF assms(1-3)] by simp
  have "\<nexists>f. f 0 = s \<and> (\<forall>i. it_step read_prog (new_readers oor it) (f i) (f (Suc i)))"
    using program_readers.no_infinite_run [OF _ fresh] inv by metis
  moreover have "if cancelled s then pc s' = Closed
       else pc s' = Waiting \<and> resume s' = 0 \<and> all_empty (store s') (addresses cs) \<and>
            pushed s = mset (delivered s') + contents (store s')"
    if "(it_step read_prog (new_readers oor it))\<^sup>*\<^sup>* s s'" "\<nexists>s''. it_step read_prog (new_readers oor it) s' s''" for s'
  proof -
    from program_readers.steps_inv [OF that(1) inv fresh] have "accounted s'" "pushed s' = pushed s"
      by (auto simp: sys_inv_def)
    with program_readers.stops [OF that(1) inv fresh new_readers_nonempty assms(6) that(2)] show ?thesis
      by (auto simp: accounted_def in_hand_def split: if_splits)
  qed
  ultimately show ?thesis by blast
qed

theorem iterator_drains_witness:
  "\<nexists>f. f 0 = idle_state \<and> (\<forall>i. it_step read_prog (new_readers (\<lambda>_. 0) idle_iterator) (f i) (f (Suc i)))"
proof -
  have "\<forall>a. mid idle_state a = None" by (simp add: idle_state_def start_state_def)
  from iterator_drains [OF idle_new idle_hyps(1-3) idle_reaches [of "\<lambda>_. 0"] this] show ?thesis by blast
qed

end
