(* ===== verification/Controller_Progress.thy ===== *)
theory Controller_Progress
  imports Controller_Run Iterator_Progress
begin

text \<open>
  Progress of the whole controller: the goroutines of \<open>Run\<close> (\<open>pkg/controller/controller.go\<close>) and of
  the iterator together, while nobody pushes. Each step of the pair is a step of the iterator or ends
  the loop of \<open>Run\<close>, so the measure of the iterator carries over.
\<close>

section \<open>The controller's own steps\<close>

inductive controller_step ::
  "'w api \<Rightarrow> reader_state option set \<Rightarrow> 'w run_state \<Rightarrow> 'w run_state \<Rightarrow> bool" for api fresh where
  own_iterator: "it_step read_prog fresh (rs_sys rs) s' \<Longrightarrow> delivered s' = delivered (rs_sys rs) \<Longrightarrow>
    controller_step api fresh rs (rs\<lparr>rs_sys := s'\<rparr>)"
| own_receive: "rs_ctl rs = Selecting \<Longrightarrow> pc (rs_sys rs) = Sending pr r \<Longrightarrow>
    ScheduleOne api (Some pr) (rs_world rs) = Some (err, pr', w') \<Longrightarrow>
    controller_step api fresh rs (rs\<lparr>rs_sys := (rs_sys rs)\<lparr>delivered := delivered (rs_sys rs) @ [pr], pc := Reading (read_prog r)\<rparr>,
      rs_world := w', rs_scheduled := rs_scheduled rs @ [pr']\<rparr>)"
| own_receive_closed: "rs_ctl rs = Selecting \<Longrightarrow> pc (rs_sys rs) = Closed \<Longrightarrow>
    ScheduleOne api None (rs_world rs) = None \<Longrightarrow> controller_step api fresh rs (rs\<lparr>rs_ctl := Panicking\<rparr>)"
| own_return: "rs_ctl rs = Selecting \<Longrightarrow> cancelled (rs_sys rs) \<Longrightarrow>
    controller_step api fresh rs (rs\<lparr>rs_ctl := Returned\<rparr>)"

lemma controller_run_step: "controller_step api fresh rs rs' \<Longrightarrow> run_step api fresh rs rs'"
  by (induction rule: controller_step.induct) (auto intro: run_step.intros)

text \<open>With the pushes and the cancellation, these are all steps.\<close>

lemma run_step_split:
  "run_step api fresh rs rs' \<longleftrightarrow>
     controller_step api fresh rs rs' \<or> (\<exists>s'. env_step (rs_sys rs) s' \<and> rs' = rs\<lparr>rs_sys := s'\<rparr>)"
  by (auto simp: controller_run_step intro: run_step.others controller_step.intros elim!: run_step.cases)

lemma controller_step_projects:
  assumes "controller_step api fresh rs rs'"
  shows "it_step read_prog fresh (rs_sys rs) (rs_sys rs') \<and> rs_ctl rs' = rs_ctl rs \<or>
    rs_sys rs' = rs_sys rs \<and> rs_ctl rs = Selecting \<and> rs_ctl rs' \<noteq> Selecting"
  using assms by (induction rule: controller_step.induct) (auto intro: it_step.send)

section \<open>Termination\<close>

definition run_order :: "('w run_state \<times> 'w run_state) set" where
  "run_order = inv_image (progress_order <*lex*> less_than)
     (\<lambda>rs. (rs_sys rs, if rs_ctl rs = Selecting then 1 else 0 :: nat))"

lemma wf_run_order: "wf run_order"
  unfolding run_order_def by (intro wf_inv_image wf_lex_prod wf_progress_order wf_less_than)

lemma ScheduleOne_total: "\<exists>err pr' w'. ScheduleOne api (Some pr) w = Some (err, pr', w')"
  by (auto simp: ScheduleOne_def Let_def split: option.splits prod.splits)

text \<open>A state in which the controller can take no step of its own.\<close>

lemma controller_stuck:
  assumes stuck: "\<nexists>rs'. controller_step api fresh rs rs'"
  shows "(\<nexists>s'. it_step read_prog fresh (rs_sys rs) s') \<or>
    (\<exists>pr r. pc (rs_sys rs) = Sending pr r \<and> rs_ctl rs \<noteq> Selecting \<and> \<not> cancelled (rs_sys rs))"
proof (rule ccontr)
  assume "\<not> ?thesis"
  then obtain s' where step: "it_step read_prog fresh (rs_sys rs) s'"
    and n: "\<And>pr r. pc (rs_sys rs) = Sending pr r \<Longrightarrow> rs_ctl rs = Selecting \<or> cancelled (rs_sys rs)" by blast
  show False
  proof (cases "delivered s' = delivered (rs_sys rs)")
    case True
    then show False using stuck controller_step.own_iterator [OF step] by blast
  next
    case False
    with step obtain pr r where s: "pc (rs_sys rs) = Sending pr r" by (cases rule: it_cases) auto
    show False
    proof (cases "rs_ctl rs = Selecting")
      case True
      from ScheduleOne_total [of api pr "rs_world rs"] stuck controller_step.own_receive [OF True s] show False by blast
    next
      case False
      then have "it_step read_prog fresh (rs_sys rs) ((rs_sys rs)\<lparr>dropped := dropped (rs_sys rs) @ [pr], pc := Reading (read_prog r)\<rparr>)"
        using n [OF s] it_step.send_cancelled [OF s] by blast
      then show False using stuck controller_step.own_iterator by fastforce
    qed
  qed
qed

lemma own_steps_run_inv:
  assumes "(controller_step api fresh)\<^sup>*\<^sup>* rs rs'" and "run_inv api fresh st rs"
  shows "run_inv api fresh st rs'"
  using assms by (induction rule: rtranclp_induct) (blast intro: run_step_inv controller_run_step)+

lemma own_steps_frame:
  assumes "(controller_step api fresh)\<^sup>*\<^sup>* rs rs'"
  shows "mid (rs_sys rs') = mid (rs_sys rs) \<and> cancelled (rs_sys rs') = cancelled (rs_sys rs) \<and>
    pushed (rs_sys rs') = pushed (rs_sys rs)"
  using assms
proof (induction rule: rtranclp_induct)
  case (step t u)
  then show ?case using controller_step_projects [OF step(2)] it_step_frame by metis
qed simp

lemma New_fresh:
  assumes "New informer api opts cfg [] = Some (Inr c, st')" and "factory_weights (ctl_iterator c)"
  shows "\<forall>x \<in> new_readers oor (ctl_iterator c). \<exists>r. x = Some r \<and> reader_ok (it_configs (ctl_iterator c)) r"
proof (rule New_parts [OF assms(1)])
  fix st1 fs
  assume "NewQueueIterator st1 (it_configs (ctl_iterator c)) (map WithReaderFactory fs) = Some (Inr (ctl_iterator c), st')"
    "refs_ok st1 (it_configs (ctl_iterator c))" "distinct (config_refs (it_configs (ctl_iterator c)))"
  from NewQueueIterator_success [OF this] show ?thesis by (intro new_readers_ok [OF assms(2)]) auto
qed

lemma New_addresses:
  assumes "New informer api opts cfg [] = Some (Inr c, st')"
  shows "addresses (it_configs (ctl_iterator c)) = {..<length st'}"
  by (rule New_parts [OF assms])

lemma run_inv_sys_inv:
  assumes "New informer api opts cfg [] = Some (Inr c, st')" and "factory_weights (ctl_iterator c)"
    and "run_inv api' (new_readers oor (ctl_iterator c)) st' rs"
  shows "sys_inv (reader_ok (it_configs (ctl_iterator c))) (addresses (it_configs (ctl_iterator c))) (rs_sys rs)"
  using New_iterator [OF assms(1,2)] assms(3) unfolding New_addresses [OF assms(1)] run_inv_def by blast

lemma own_run_decreases:
  assumes "New informer api opts cfg [] = Some (Inr c, st')" and "factory_weights (ctl_iterator c)"
    and "run_inv api' (new_readers oor (ctl_iterator c)) st' rs"
    and "controller_step api' (new_readers oor (ctl_iterator c)) rs rs'"
  shows "(rs', rs) \<in> run_order"
  using controller_step_projects [OF assms(4)]
    program_readers.step_progress [OF run_inv_sys_inv [OF assms(1-3)] _ New_fresh [OF assms(1,2)]]
  by (auto simp: run_order_def)

text \<open>From a state that satisfies the invariant of \<open>Run\<close>, the controller's own steps come to an end.\<close>

lemma own_run_finite:
  assumes "New informer api opts cfg [] = Some (Inr c, st')" and "factory_weights (ctl_iterator c)"
    and "run_inv api' (new_readers oor (ctl_iterator c)) st' rs"
  shows "\<nexists>f. f 0 = rs \<and> (\<forall>i. controller_step api' (new_readers oor (ctl_iterator c)) (f i) (f (Suc i)))"
proof
  let ?fresh = "new_readers oor (ctl_iterator c)"
  assume "\<exists>f. f 0 = rs \<and> (\<forall>i. controller_step api' ?fresh (f i) (f (Suc i)))"
  then obtain f where f: "f 0 = rs" "\<And>i. controller_step api' ?fresh (f i) (f (Suc i))" by blast
  have "run_inv api' ?fresh st' (f i)" for i
    by (induction i) (use f assms(3) own_steps_run_inv r_into_rtranclp in metis)+
  then have "(f (Suc i), f i) \<in> run_order" for i by (rule own_run_decreases [OF assms(1,2) _ f(2)])
  then show False using wf_run_order by (simp add: wf_iff_no_infinite_down_chain) blast
qed

lemma own_run_stops:
  assumes "New informer api opts cfg [] = Some (Inr c, st')" and "factory_weights (ctl_iterator c)"
    and "run_inv api' (new_readers oor (ctl_iterator c)) st' rs" and "\<forall>a. mid (rs_sys rs) a = None"
    and steps: "(controller_step api' (new_readers oor (ctl_iterator c)))\<^sup>*\<^sup>* rs rs'"
    and stuck: "\<nexists>rs''. controller_step api' (new_readers oor (ctl_iterator c)) rs' rs''"
  shows "if cancelled (rs_sys rs) then pc (rs_sys rs') = Closed \<and> rs_ctl rs' \<noteq> Selecting
    else pc (rs_sys rs') = Waiting \<and> rs_ctl rs' = Selecting \<and> pushed (rs_sys rs) = mset (delivered (rs_sys rs')) \<and>
      list_all2 (\<lambda>pr pr'. \<exists>w err w'. ScheduleOne api' (Some pr) w = Some (err, pr', w'))
        (delivered (rs_sys rs')) (rs_scheduled rs')"
proof -
  let ?fresh = "new_readers oor (ctl_iterator c)"
  have fr: "mid (rs_sys rs') = mid (rs_sys rs)" "cancelled (rs_sys rs') = cancelled (rs_sys rs)"
      "pushed (rs_sys rs') = pushed (rs_sys rs)" using own_steps_frame [OF steps] by blast+
  note ri = own_steps_run_inv [OF steps assms(3)]
  note inv = run_inv_sys_inv [OF assms(1,2) ri]
  have "\<nexists>s'. it_step read_prog ?fresh (rs_sys rs') s'"
    using controller_stuck [OF stuck] ri by (auto simp: run_inv_def)
  note halt = program_readers.stops [OF rtranclp.rtrancl_refl inv New_fresh [OF assms(1,2)]
    new_readers_nonempty _ this, unfolded fr, OF assms(4)]
  have "rs_ctl rs' \<noteq> Selecting" if "cancelled (rs_sys rs)"
    using that fr(2) stuck controller_step.own_return [of rs' api' ?fresh] by blast
  moreover have "pushed (rs_sys rs) = mset (delivered (rs_sys rs'))" if "\<not> cancelled (rs_sys rs)"
  proof -
    have "length (store (rs_sys rs')) = length st'"
      using ri unfolding run_inv_def by (blast dest: reaches_length)
    then have "all_empty (store (rs_sys rs')) {..<length (store (rs_sys rs'))}"
      using halt that by (simp add: New_addresses [OF assms(1)])
    then have "contents (store (rs_sys rs')) = {#}" by (rule all_empty_contents)
    then show ?thesis
      using halt that inv fr(3) by (simp add: sys_inv_def accounted_def in_hand_def)
  qed
  moreover have "list_all2 (\<lambda>pr pr'. \<exists>w err w'. ScheduleOne api' (Some pr) w = Some (err, pr', w'))
      (delivered (rs_sys rs')) (rs_scheduled rs')" and "rs_ctl rs' = Selecting" if "\<not> cancelled (rs_sys rs)"
    using ri that fr(2) unfolding run_inv_def by auto
  ultimately show ?thesis using halt by simp
qed

section \<open>Properties\<close>

text \<open>
  The controller schedules everything, eventually. From every reachable state of a controller made
  by \<open>New\<close> in which no push is under way, \<open>Run\<close> and the iterator, left alone, cannot run for ever; if
  the context is not cancelled they stop only with the iterator asleep, every request ever pushed
  handed over and scheduled, in order, and \<open>Run\<close> still selecting; if it is cancelled they stop only
  with the iterator ended and the loop of \<open>Run\<close> left.
\<close>

theorem controller_drains:
  assumes "New informer api opts cfg [] = Some (Inr c, st')" and "factory_weights (ctl_iterator c)"
    and "run_reaches api (new_readers oor (ctl_iterator c)) st' w rs" and "\<forall>a. mid (rs_sys rs) a = None"
  shows "(\<nexists>f. f 0 = rs \<and> (\<forall>i. controller_step api (new_readers oor (ctl_iterator c)) (f i) (f (Suc i)))) \<and>
    (\<forall>rs'. (controller_step api (new_readers oor (ctl_iterator c)))\<^sup>*\<^sup>* rs rs' \<and>
        (\<nexists>rs''. controller_step api (new_readers oor (ctl_iterator c)) rs' rs'') \<longrightarrow>
      (if cancelled (rs_sys rs) then pc (rs_sys rs') = Closed \<and> rs_ctl rs' \<noteq> Selecting
       else pc (rs_sys rs') = Waiting \<and> rs_ctl rs' = Selecting \<and> pushed (rs_sys rs) = mset (delivered (rs_sys rs')) \<and>
         list_all2 (\<lambda>pr pr'. \<exists>w err w'. ScheduleOne api (Some pr) w = Some (err, pr', w'))
           (delivered (rs_sys rs')) (rs_scheduled rs')))"
  using own_run_finite [OF assms(1,2) run_reaches_inv [OF assms(3)]]
    own_run_stops [OF assms(1,2) run_reaches_inv [OF assms(3)] assms(4)] by blast

theorem controller_drains_witness:
  "\<exists>c st'. New (\<lambda>_. None) sample_api [] sample_configuration [] = Some (Inr c, st') \<and>
     (\<nexists>f. f 0 = run_start st' () \<and>
        (\<forall>i. controller_step sample_api (new_readers (\<lambda>_. 0) (ctl_iterator c)) (f i) (f (Suc i))))"
proof -
  obtain c st' where n: "New (\<lambda>_. None) sample_api [] sample_configuration [] = Some (Inr c, st')"
    and w: "factory_weights (ctl_iterator c)" by (rule sample_controller)
  have "run_reaches sample_api (new_readers (\<lambda>_. 0) (ctl_iterator c)) st' () (run_start st' ())"
    by (simp add: run_reaches_def)
  from controller_drains [OF n w this] n show ?thesis by (auto simp: run_start_def start_state_def)
qed

end
