(* ===== verification/Controller_Main.thy ===== *)
theory Controller_Main
  imports Clientset Controller_Progress
begin

text \<open>
  The start of the controller, \<open>main\<close> of \<open>cmd/kombiner-controller/main.go\<close>: the configuration is
  loaded, the clients are built, the informer factory is made, \<open>controller.New\<close> puts the controller
  together and obtains the informer, the factory is started, and \<open>Run\<close> is called. Each early return is
  an outcome. What \<open>main\<close> gets from outside the repository is the record \<open>environment\<close>: the file
  system and codec, the kubeconfig (\<open>ctrl.GetConfigOrDie\<close>), the construction of the client for core
  objects, the informer's answer to the handlers, and the API server behind the clients. The informer
  factory for core objects is client-go's and has no part in the state here; logging is left out.
\<close>

record ('w, 'l, 'z, 'h, 'r, 'd, 'k) environment =
  en_read_file :: "string \<Rightarrow> go_error + string"
  en_decode :: decoder
  en_yaml :: "(Configuration \<Rightarrow> go_error + string) option"
  en_configFile :: string
  en_kubeConfig :: "('l, 'z) rest_config"
  en_GOOS :: string
  en_GOARCH :: string
  en_kubernetes_NewForConfig :: "('l, 'z) rest_config \<Rightarrow> go_error + 'k"
  en_restlib :: "('l, 'z, 'h, 'r, 'd) restlib"
  en_informer :: "'w event_handler \<Rightarrow> go_error option"
  en_api :: "'w api"

definition Version :: string where
  "Version = ''0.1.0''"

definition kube_config :: "('w, 'l, 'z, 'h, 'r, 'd, 'k) environment \<Rightarrow> ('l, 'z) rest_config" where
  "kube_config en =
     (let kubeConfig = en_kubeConfig en in
      if rc_UserAgent kubeConfig = ''''
      then kubeConfig\<lparr>rc_UserAgent := ''kombiner/'' @ Version @ '' ('' @ en_GOOS en @ ''/'' @ en_GOARCH en @ '')''\<rparr>
      else kubeConfig)"

text \<open>Thirty seconds, in nanoseconds.\<close>

definition resync_period :: int where
  "resync_period = 1000000000 * 30"

type_synonym ('r, 'd) main_factory = "(('r, 'd) Clientset, string, unit) request_factory"

datatype ('r, 'd) main_outcome =
    UnableToLoadConfiguration load_error
  | ErrorBuildingKubernetesClient go_error
  | ErrorBuildingClientset go_error
  | ErrorCreatingController new_error
  | Running PlacementRequestController "unit qstore" "('r, 'd) main_factory"

text \<open>
  The informer calls of \<open>New\<close>: \<open>informer.Lister()\<close>, and \<open>informer.Informer()\<close> for the handlers. They
  come after the last check of the configuration, and a failure after them ends \<open>main\<close>.
\<close>

definition obtain_informer :: "('r, 'd) main_factory \<Rightarrow> ('r, 'd) main_factory" where
  "obtain_informer f =
     (let pri = PlacementRequests (V1alpha1 (Kombiner f));
          (prlister, f1) = Lister pri f;
          (informer, f2) = Informer pri f1
      in f2)"

definition main :: "('w, 'l, 'z, 'h, 'r, 'd, 'k) environment \<Rightarrow> chan \<Rightarrow> ('r, 'd) main_outcome option" where
  "main en stopCh =
     (case getConfig (en_read_file en) (en_decode en) (en_yaml en) (en_configFile en) of
        (config, Some err) \<Rightarrow> Some (UnableToLoadConfiguration err)
      | (config, None) \<Rightarrow>
          (case en_kubernetes_NewForConfig en (kube_config en) of
             Inl err \<Rightarrow> Some (ErrorBuildingKubernetesClient err)
           | Inr kubecli \<Rightarrow>
               do { res \<leftarrow> cs_NewForConfig (en_restlib en) (Some (kube_config en));
                    (case res of
                       Inl err \<Rightarrow> Some (ErrorBuildingClientset err)
                     | Inr prcli \<Rightarrow>
                         do { (controller, st) \<leftarrow> New (en_informer en) (en_api en) [] config [];
                              (case controller of
                                 Inl err \<Rightarrow> Some (ErrorCreatingController err)
                               | Inr c \<Rightarrow>
                                   let f = obtain_informer (NewSharedInformerFactory prcli resync_period, empty_world)
                                   in Some (Running c st (Start stopCh [request_type] f))) }) }))"

section \<open>Properties\<close>

lemma obtained_informer:
  "obtain_informer (NewSharedInformerFactory prcli resync_period, empty_world) =
     ((NewSharedInformerFactory prcli resync_period)\<lparr>fc_informers := [request_type \<mapsto> 0]\<rparr>,
      empty_world\<lparr>objects := [(NewPlacementRequestInformer prcli NamespaceAll resync_period [NamespaceIndex], None)]\<rparr>)"
  by (simp add: obtain_informer_def Lister_def Informer_def InformerFor_def accessor_defs new_informer_def
      NewSharedInformerFactory_def NewSharedInformerFactoryWithOptions_def defaultInformer_def
      NewPlacementRequestInformer_def empty_world_def Let_def)

lemma started_informer:
  "Start stopCh [request_type] (obtain_informer (NewSharedInformerFactory prcli resync_period, empty_world)) =
     ((NewSharedInformerFactory prcli resync_period)\<lparr>fc_informers := [request_type \<mapsto> 0],
        fc_startedInformers := (\<lambda>_. False)(request_type := True), fc_wg := 1\<rparr>,
      \<lparr>objects = [(NewPlacementRequestInformer prcli NamespaceAll resync_period [NamespaceIndex], None)],
       goroutines = [(0, stopCh)], run_log = [0]\<rparr>)"
  unfolding obtained_informer
  by (simp add: Start_def start_one_def NewSharedInformerFactory_def NewSharedInformerFactoryWithOptions_def
      empty_world_def)

lemma getConfig_validated: "getConfig read_file decode yaml file = (config, None) \<Longrightarrow> validate config = []"
  by (auto simp: getConfig_def Load_def ToAggregate_def split: prod.splits option.splits sum.splits if_splits)

text \<open>
  C21: what runs once \<open>main\<close> has started. If \<open>main\<close> reaches \<open>Run\<close>, then the configuration was loaded and
  validated, the controller is the one \<open>New\<close> makes of it, and the factory runs exactly one informer,
  once: that of the placement requests of all namespaces, through the clientset made from the
  kubeconfig, without a filter. Starting the factory again would run nothing more.
\<close>

theorem main_runs:
  assumes "main en stopCh = Some (Running c st f)"
  shows "\<exists>config prcli i. getConfig (en_read_file en) (en_decode en) (en_yaml en) (en_configFile en) = (config, None) \<and>
      validate config = [] \<and> cs_NewForConfig (en_restlib en) (Some (kube_config en)) = Some (Inr prcli) \<and>
      New (en_informer en) (en_api en) [] config [] = Some (Inr c, st) \<and>
      dom (fc_informers (fst f)) = {request_type} \<and> run_log (snd f) = [0] \<and> goroutines (snd f) = [(0, stopCh)] \<and>
      objects (snd f) = [(i, None)] \<and> sii_resync i = resync_period \<and>
      ListFunc (sii_listWatch i) listopts = ListCall prcli NamespaceAll Background listopts \<and>
      WatchFunc (sii_listWatch i) listopts = WatchCall prcli NamespaceAll Background listopts \<and>
      Start ch [request_type] f = f"
proof -
  from assms obtain config prcli where
    g: "getConfig (en_read_file en) (en_decode en) (en_yaml en) (en_configFile en) = (config, None)" and
    p: "cs_NewForConfig (en_restlib en) (Some (kube_config en)) = Some (Inr prcli)" and
    n: "New (en_informer en) (en_api en) [] config [] = Some (Inr c, st)" and
    f: "f = Start stopCh [request_type] (obtain_informer (NewSharedInformerFactory prcli resync_period, empty_world))"
    by (auto simp: main_def Let_def split: prod.splits option.splits sum.splits Option.bind_splits)
  let ?i = "NewPlacementRequestInformer prcli NamespaceAll resync_period [NamespaceIndex]"
  have "Start ch [request_type] f = f"
    unfolding f started_informer by (simp add: Start_def start_one_def)
  moreover have "dom (fc_informers (fst f)) = {request_type}" "run_log (snd f) = [0]" "goroutines (snd f) = [(0, stopCh)]"
      "objects (snd f) = [(?i, None)]"
    by (simp_all add: f started_informer)
  moreover have "sii_resync ?i = resync_period"
      "ListFunc (sii_listWatch ?i) listopts = ListCall prcli NamespaceAll Background listopts"
      "WatchFunc (sii_listWatch ?i) listopts = WatchCall prcli NamespaceAll Background listopts"
    by (simp_all add: NewPlacementRequestInformer_def NewFilteredPlacementRequestInformer_def ListFunc_def
        WatchFunc_def tweaked_def)
  ultimately show ?thesis using g p n getConfig_validated [OF g] by blast
qed

definition sample_environment :: "(unit, unit, unit, unit, unit, unit, unit) environment" where
  "sample_environment =
     \<lparr>en_read_file = (\<lambda>_. Inr ''queues''), en_decode = (\<lambda>_ _. (sample_configuration, None)),
      en_yaml = Some (\<lambda>_. Inr ''''), en_configFile = ''config.yaml'',
      en_kubeConfig = \<lparr>rc_UserAgent = '''', rc_RateLimiter = None, rc_QPS = 0, rc_Burst = 0, rc_GroupVersion = None,
        rc_APIPath = '''', rc_NegotiatedSerializer = None\<rparr>,
      en_GOOS = ''linux'', en_GOARCH = ''amd64'', en_kubernetes_NewForConfig = (\<lambda>_. Inr ()),
      en_restlib = \<lparr>DefaultKubernetesUserAgent = ''ua'', HTTPClientFor = (\<lambda>_. Inr ()),
        RESTClientForConfigAndClient = (\<lambda>_ _. Inr ()), NewDiscoveryClientForConfigAndClient = (\<lambda>_ _. Inr ()),
        NewDiscoveryClient = (\<lambda>_. ()), NewTokenBucketRateLimiter = (\<lambda>_ _. ()), generated_serializer = ()\<rparr>,
      en_informer = (\<lambda>_. None), en_api = sample_api\<rparr>"

theorem main_runs_witness:
  "\<exists>c st f. main sample_environment 0 = Some (Running c st f) \<and> run_log (snd f) = [0] \<and>
     New (\<lambda>_. None) sample_api [] sample_configuration [] = Some (Inr c, st)"
proof -
  let ?en = sample_environment
  obtain c st where n: "New (\<lambda>_. None) sample_api [] sample_configuration [] = Some (Inr c, st)"
    by (rule sample_controller)
  have g: "getConfig (en_read_file ?en) (en_decode ?en) (en_yaml ?en) (en_configFile ?en) = (sample_configuration, None)"
    by (simp add: sample_environment_def getConfig_def Load_def fromFile_def Encode_def ToAggregate_def validate_def
        validateQueues_def validate_queue_def sample_configuration_def)
  have "\<exists>cs. cs_NewForConfig (en_restlib ?en) (Some (kube_config ?en)) = Some (Inr cs)"
    by (simp add: sample_environment_def cs_NewForConfig_def cs_NewForConfigAndClient_def rate_limited_def
        kc_NewForConfigAndClient_def kube_config_def Let_def)
  then obtain cs where "cs_NewForConfig (en_restlib ?en) (Some (kube_config ?en)) = Some (Inr cs)" by blast
  then obtain f where m: "main ?en 0 = Some (Running c st f)"
    using n g by (simp add: main_def) (simp add: sample_environment_def Let_def)
  from main_runs [OF m] n m show ?thesis by blast
qed

end
