(* ===== verification/Bind_Plugin.thy ===== *)
theory Bind_Plugin
  imports Controller
begin

text \<open>
  \<open>pkg/scheduler/bind-plugin.go\<close> and \<open>defaults.go\<close>, with \<open>pkg/apis/scheduler\<close>: the plugin of the
  Kubernetes scheduler that turns the binding of a pod into a placement request and waits for its result.

  Outside the repository, hence parameters: the client of the API (a record of functions on a state
  \<open>'w\<close>), the scheduler framework's \<open>AsStatus\<close> and \<open>NewStatus(Success, _)\<close>, and
  \<open>wait.PollUntilContextCancel\<close>. What the theorems use of the last two is their documented behaviour,
  as hypotheses: a nil status counts as a success and the status of an error does not; the poll
  returns nil only right after the condition returned true.
\<close>

section \<open>pkg/apis/scheduler\<close>

record PlacementRequestBinderArgs =
  args_TypeMeta :: TypeMeta
  Timeout :: "int option"

definition Minute :: int where
  "Minute = 60 * 1000000000"

definition Second :: int where
  "Second = 1000000000"

definition SetDefaults :: "PlacementRequestBinderArgs \<Rightarrow> PlacementRequestBinderArgs" where
  "SetDefaults pr = (if Timeout pr = None then pr\<lparr>Timeout := Some Minute\<rparr> else pr)"

text \<open>
  The versioned arguments have the same fields. The conversions set the timeout of the object they
  write to, and leave its \<open>TypeMeta\<close> as it is.
\<close>

record V1alpha1BinderArgs =
  v1_TypeMeta :: TypeMeta
  v1_Timeout :: "int option"

definition internalToV1alpha1 :: "PlacementRequestBinderArgs \<Rightarrow> V1alpha1BinderArgs \<Rightarrow> V1alpha1BinderArgs" where
  "internalToV1alpha1 inArgs outArgs = outArgs\<lparr>v1_Timeout := Timeout inArgs\<rparr>"

definition v1alpha1ToInternal :: "V1alpha1BinderArgs \<Rightarrow> PlacementRequestBinderArgs \<Rightarrow> PlacementRequestBinderArgs" where
  "v1alpha1ToInternal inArgs outArgs = outArgs\<lparr>Timeout := v1_Timeout inArgs\<rparr>"

section \<open>The plugin\<close>

definition PluginName :: string where
  "PluginName = ''PlacementRequestBinder''"

definition DeletePlacementRequestTimeout :: int where
  "DeletePlacementRequestTimeout = Second"

record CorePod =
  cp_Name :: string
  cp_Namespace :: string
  cp_UID :: string
  cp_SchedulerName :: string

record 'w pr_client =
  cl_Get :: "string \<Rightarrow> string \<Rightarrow> 'w \<Rightarrow> (PlacementRequest \<times> go_error option) \<times> 'w"
  cl_Create :: "PlacementRequest \<Rightarrow> 'w \<Rightarrow> go_error option \<times> 'w"
  cl_Delete :: "string \<Rightarrow> string \<Rightarrow> 'w \<Rightarrow> go_error option \<times> 'w"

record 's framework =
  AsStatus :: "go_error option \<Rightarrow> 's"
  NewStatus_Success :: "string \<Rightarrow> 's"

text \<open>
  A condition works on the state and on the variable \<open>pr\<close> that its closure captures. The arguments
  of the poll before it are the timeout of the context, the interval, and \<open>immediate\<close>.
\<close>

type_synonym 'w condition = "'w \<times> PlacementRequest \<Rightarrow> (bool \<times> go_error option) \<times> 'w \<times> PlacementRequest"
type_synonym 'w poller = "int \<Rightarrow> int \<Rightarrow> bool \<Rightarrow> 'w condition \<Rightarrow> 'w \<times> PlacementRequest \<Rightarrow> go_error option \<times> 'w \<times> PlacementRequest"

record 'w BindPlugin =
  bp_client :: "'w pr_client"
  bp_config :: PlacementRequestBinderArgs

definition plugin_Name :: "'w BindPlugin \<Rightarrow> string" where
  "plugin_Name p = PluginName"

definition DefaultSchedulerName :: string where
  "DefaultSchedulerName = ''default-scheduler''"

text \<open>The zero value of \<open>time.Time\<close>: the first day of the year 1.\<close>

definition zero_time :: Time where
  "zero_time = Time (- 62135596800) 0"

definition bind_request :: "CorePod \<Rightarrow> string \<Rightarrow> PlacementRequest" where
  "bind_request pod node =
     \<lparr>Name = cp_UID pod, Namespace = cp_Namespace pod, CreationTimestamp = zero_time, DeletionTimestamp = None,
      OwnerReferences = [\<lparr>or_APIVersion = ''v1'', or_Kind = ''Pod'', or_Name = cp_Name pod, or_UID = cp_UID pod\<rparr>],
      Spec = \<lparr>Policy = PlacementRequestPolicyLenient, spec_Priority = 0,
        SchedulerName = (if cp_SchedulerName pod = '''' then DefaultSchedulerName else cp_SchedulerName pod),
        Bindings = [\<lparr>PodName = cp_Name pod, PodUID = cp_UID pod, NodeName = node\<rparr>]\<rparr>,
      Status = \<lparr>Result = '''', Reason = '''', Message = '''', st_Bindings = []\<rparr>\<rparr>"

definition poll_condition :: "'w pr_client \<Rightarrow> string \<Rightarrow> string \<Rightarrow> 'w condition" where
  "poll_condition client ns name s =
     (case cl_Get client ns name (fst s) of
        ((pr, Some err), w) \<Rightarrow> ((False, Some err), w, pr)
      | ((pr, None), w) \<Rightarrow>
          if Result (Status pr) = PlacementRequestResultUnknown then ((False, None), w, pr)
          else ((True, None), w, pr))"

text \<open>Deleting an earlier request of the pod, and creating the new one.\<close>

definition create_request :: "'w pr_client \<Rightarrow> PlacementRequest \<Rightarrow> 'w \<Rightarrow> go_error option \<times> 'w" where
  "create_request client pr w =
     (case cl_Get client (Namespace pr) (Name pr) w of
        ((_, None), w1) \<Rightarrow>
          (case cl_Delete client (Namespace pr) (Name pr) w1 of
             (Some err, w2) \<Rightarrow> (Some err, w2)
           | (None, w2) \<Rightarrow> cl_Create client pr w2)
      | ((_, Some _), w1) \<Rightarrow> cl_Create client pr w1)"

definition Bind ::
  "'s framework \<Rightarrow> 'w poller \<Rightarrow> 'w BindPlugin \<Rightarrow> CorePod \<Rightarrow> string \<Rightarrow> 'w \<Rightarrow> ('s \<times> 'w) option" where
  "Bind fw poll p pod node w =
     (if cp_UID pod = ''''
      then Some (AsStatus fw (Some (''pod '' @ cp_Namespace pod @ ''/'' @ cp_Name pod @ '' is missing its UID'')), w)
      else
        let pr = bind_request pod node; client = bp_client p in
        case create_request client pr w of
          (Some err, w1) \<Rightarrow> Some (AsStatus fw (Some err), w1)
        | (None, w1) \<Rightarrow> do {
            timeout \<leftarrow> Timeout (bp_config p);
            (case poll timeout Second True (poll_condition client (cp_Namespace pod) (cp_UID pod)) (w1, pr) of
               (Some _, w2, _) \<Rightarrow>
                 (case cl_Delete client (cp_Namespace pod) (cp_UID pod) w2 of (err, w3) \<Rightarrow> Some (AsStatus fw err, w3))
             | (None, w2, pr') \<Rightarrow>
                 if Result (Status pr') \<noteq> PlacementRequestResultSuccess
                 then Some (AsStatus fw (Some (Message (Status pr'))), w2)
                 else Some (NewStatus_Success fw (Message (Status pr')), w2)) })"

datatype plugin_args = BinderArgs PlacementRequestBinderArgs | OtherArgs string

datatype plugin_error = InvalidArgsType string | ClientsetError go_error

text \<open>\<open>new_client\<close> is the answer of the generated clientset's constructor for the JSON content type.\<close>

definition NewBindPlugin ::
  "(string \<Rightarrow> go_error + 'w pr_client) \<Rightarrow> plugin_args \<Rightarrow> plugin_error + 'w BindPlugin" where
  "NewBindPlugin new_client oargs =
     (case oargs of
        OtherArgs ty \<Rightarrow> Inl (InvalidArgsType ty)
      | BinderArgs args \<Rightarrow>
          (case new_client ''application/json'' of
             Inl err \<Rightarrow> Inl (ClientsetError err)
           | Inr client \<Rightarrow> Inr \<lparr>bp_client = client, bp_config = SetDefaults args\<rparr>))"

section \<open>Documented behaviour of the parameters\<close>

text \<open>\<open>framework.AsStatus\<close> and \<open>Status.IsSuccess\<close>: a nil status is a success, that of an error is not.\<close>

definition status_contract :: "('s \<Rightarrow> bool) \<Rightarrow> 's framework \<Rightarrow> bool" where
  "status_contract is_success fw \<longleftrightarrow>
     is_success (AsStatus fw None) \<and> (\<forall>e. \<not> is_success (AsStatus fw (Some e))) \<and>
     (\<forall>m. is_success (NewStatus_Success fw m))"

text \<open>\<open>wait.PollUntilContextCancel\<close>: the poll succeeds only right after the condition held.\<close>

definition poll_contract :: "'w poller \<Rightarrow> bool" where
  "poll_contract poll \<longleftrightarrow>
     (\<forall>t i im cond s s'. poll t i im cond s = (None, s') \<longrightarrow> (\<exists>s0. cond s0 = ((True, None), s')))"

lemma poll_condition_True:
  assumes "poll_condition client ns name s0 = ((True, None), w, pr)"
  shows "cl_Get client ns name (fst s0) = ((pr, None), w) \<and> Result (Status pr) \<noteq> PlacementRequestResultUnknown"
  using assms by (auto simp: poll_condition_def split: prod.splits option.splits if_splits)

section \<open>Properties\<close>

text \<open>
  The placement request made for a pod is one the controller schedules: it is valid, has no result,
  has the single binding of the pod to the node, and names a scheduler, the default one if the pod
  names none. \<open>NewBindPlugin\<close> gives the plugin a timeout, so \<open>Bind\<close> never dereferences a missing one.
\<close>

theorem bind_request_accepted:
  assumes "NewBindPlugin new_client args = Inr p"
  shows "schedulable (bind_request pod node) \<and> SchedulerName (Spec (bind_request pod node)) \<noteq> '''' \<and>
   Bindings (Spec (bind_request pod node)) = [\<lparr>PodName = cp_Name pod, PodUID = cp_UID pod, NodeName = node\<rparr>] \<and>
   (\<exists>r. Bind fw poll p pod node w = Some r)"
proof -
  from assms obtain t where "Timeout (bp_config p) = Some t"
    by (auto simp: NewBindPlugin_def SetDefaults_def split: plugin_args.splits sum.splits if_splits)
  then have "\<exists>r. Bind fw poll p pod node w = Some r"
    by (auto simp: Bind_def Let_def split: prod.splits option.splits)
  then show ?thesis
    by (auto simp: bind_request_def schedulable_def Validate_def result_defs DefaultSchedulerName_def)
qed

text \<open>
  C23: what a success of \<open>Bind\<close> means. With the documented behaviour of the framework and of the poll,
  \<open>Bind\<close> reports a success only if the API server answered, for the request of the pod, with the result
  \<open>Success\<close>, or if the wait failed and the deletion of the request succeeded.
\<close>

theorem Bind_success_meaning:
  assumes "status_contract is_success fw" and "poll_contract poll"
    and "Bind fw poll p pod node w = Some (s, w')" and "is_success s"
  shows "(\<exists>w0 pr. cl_Get (bp_client p) (cp_Namespace pod) (cp_UID pod) w0 = ((pr, None), w') \<and>
       Result (Status pr) = PlacementRequestResultSuccess) \<or>
     (\<exists>t w1 err w2 pr. poll t Second True (poll_condition (bp_client p) (cp_Namespace pod) (cp_UID pod)) (w1, bind_request pod node) =
        (Some err, w2, pr) \<and> cl_Delete (bp_client p) (cp_Namespace pod) (cp_UID pod) w2 = (None, w'))"
proof -
  let ?c = "poll_condition (bp_client p) (cp_Namespace pod) (cp_UID pod)" and ?r = "bind_request pod node"
  have uid: "cp_UID pod \<noteq> ''''" using assms(1,3,4) by (auto simp: Bind_def status_contract_def)
  obtain e w1 where cr: "create_request (bp_client p) ?r w = (e, w1)" by fastforce
  with uid assms(1,3,4) have e: "e = None" by (cases e) (auto simp: Bind_def status_contract_def)
  with cr uid assms(3) obtain t where t: "Timeout (bp_config p) = Some t" by (cases "Timeout (bp_config p)") (auto simp: Bind_def)
  obtain pe w2 pr where pl: "poll t Second True ?c (w1, ?r) = (pe, w2, pr)" by (metis prod_cases3)
  show ?thesis
  proof (cases pe)
    case (Some err)
    obtain de w3 where "cl_Delete (bp_client p) (cp_Namespace pod) (cp_UID pod) w2 = (de, w3)" by fastforce
    moreover from this Some pl cr e t uid assms(1,3,4) have "de = None \<and> w3 = w'"
      by (cases de) (auto simp: Bind_def status_contract_def)
    ultimately show ?thesis using Some pl by blast
  next
    case None
    with pl assms(2) obtain s0 where "?c s0 = ((True, None), w2, pr)" by (fastforce simp: poll_contract_def)
    from poll_condition_True [OF this] None pl cr e t uid assms(1,3,4) show ?thesis
      by (auto simp: Bind_def status_contract_def split: if_splits)
  qed
qed

text \<open>
  C24: \<open>Bind\<close> reports a success after a wait that failed. When the poll ends with an error, such as the
  timeout, and the request can be deleted, the error of the poll is overwritten by the nil of the
  deletion, and the status returned is that of a success, whatever the state of the request.
\<close>

theorem Bind_success_after_failed_wait:
  assumes "status_contract is_success fw" and "cp_UID pod \<noteq> ''''" and "Timeout (bp_config p) = Some t"
    and "create_request (bp_client p) (bind_request pod node) w = (None, w1)"
    and "poll t Second True (poll_condition (bp_client p) (cp_Namespace pod) (cp_UID pod)) (w1, bind_request pod node) =
      (Some err, w2, pr)"
    and "cl_Delete (bp_client p) (cp_Namespace pod) (cp_UID pod) w2 = (None, w3)"
  shows "Bind fw poll p pod node w = Some (AsStatus fw None, w3) \<and> is_success (AsStatus fw None)"
  using assms by (simp add: Bind_def status_contract_def)

text \<open>
  Concrete parameters: a status is an optional error, the poll tries a number of times and then reports
  the expired deadline, and the client's requests never get a result.
\<close>

definition error_status :: "go_error option framework" where
  "error_status = \<lparr>AsStatus = (\<lambda>e. e), NewStatus_Success = (\<lambda>_. None)\<rparr>"

fun try_times :: "nat \<Rightarrow> 'w condition \<Rightarrow> 'w \<times> PlacementRequest \<Rightarrow> go_error option \<times> 'w \<times> PlacementRequest" where
  "try_times 0 cond s = (Some ''context deadline exceeded'', s)"
| "try_times (Suc n) cond s =
     (case cond s of
        ((_, Some err), s') \<Rightarrow> (Some err, s')
      | ((True, None), s') \<Rightarrow> (None, s')
      | ((False, None), s') \<Rightarrow> try_times n cond s')"

definition bounded_poll :: "'w poller" where
  "bounded_poll t i im cond s = try_times (nat (t div i)) cond s"

definition pending_client :: "PlacementRequest \<Rightarrow> unit pr_client" where
  "pending_client pr = \<lparr>cl_Get = (\<lambda>_ _ w. ((pr, None), w)), cl_Create = (\<lambda>_ w. (None, w)), cl_Delete = (\<lambda>_ _ w. (None, w))\<rparr>"

lemma status_contract_error_status: "status_contract (\<lambda>e. e = None) error_status"
  by (simp add: status_contract_def error_status_def)

lemma try_times_None: "try_times n cond s = (None, s') \<Longrightarrow> \<exists>s0. cond s0 = ((True, None), s')"
  by (induction n cond s rule: try_times.induct) (auto split: prod.splits option.splits bool.splits)

lemma poll_contract_bounded: "poll_contract bounded_poll"
  unfolding poll_contract_def bounded_poll_def using try_times_None by blast

definition sample_pod :: CorePod where
  "sample_pod = \<lparr>cp_Name = ''p'', cp_Namespace = ''default'', cp_UID = ''uid-p'', cp_SchedulerName = ''''\<rparr>"

theorem Bind_success_after_failed_wait_witness:
  "Bind error_status bounded_poll \<lparr>bp_client = pending_client (bind_request sample_pod ''n''), bp_config = \<lparr>args_TypeMeta = ('''', ''''), Timeout = Some (3 * Second)\<rparr>\<rparr>
     sample_pod ''n'' () = Some (None, ())"
proof -
  let ?p = "\<lparr>bp_client = pending_client (bind_request sample_pod ''n''), bp_config = \<lparr>args_TypeMeta = ('''', ''''), Timeout = Some (3 * Second)\<rparr>\<rparr>"
  have "try_times (Suc (Suc (Suc 0))) (poll_condition (bp_client ?p) ''default'' ''uid-p'') ((), bind_request sample_pod ''n'') =
      (Some ''context deadline exceeded'', (), bind_request sample_pod ''n'')"
    by (simp add: poll_condition_def pending_client_def bind_request_def result_defs)
  then have "bounded_poll (3 * Second) Second True (poll_condition (bp_client ?p) (cp_Namespace sample_pod) (cp_UID sample_pod))
      ((), bind_request sample_pod ''n'') = (Some ''context deadline exceeded'', (), bind_request sample_pod ''n'')"
    by (simp add: bounded_poll_def Second_def sample_pod_def numeral_3_eq_3)
  from Bind_success_after_failed_wait [where p = ?p and poll = bounded_poll and pod = sample_pod,
    OF status_contract_error_status _ _ _ this, of "()" "()"]
  show ?thesis by (simp add: sample_pod_def create_request_def pending_client_def bind_request_def error_status_def)
qed

definition done_request :: PlacementRequest where
  "done_request = set_status (bind_request sample_pod ''n'') PlacementRequestResultSuccess ''ok''"

theorem Bind_success_meaning_witness:
  "(\<exists>w0 pr. cl_Get (pending_client done_request) ''default'' ''uid-p'' w0 = ((pr, None), ()) \<and>
       Result (Status pr) = PlacementRequestResultSuccess) \<or>
   (\<exists>t w1 err w2 pr. bounded_poll t Second True (poll_condition (pending_client done_request) ''default'' ''uid-p'')
       (w1, bind_request sample_pod ''n'') = (Some err, w2, pr) \<and>
     cl_Delete (pending_client done_request) ''default'' ''uid-p'' w2 = (None, ()))"
proof -
  have "Bind error_status bounded_poll \<lparr>bp_client = pending_client done_request, bp_config = \<lparr>args_TypeMeta = ('''', ''''), Timeout = Some Second\<rparr>\<rparr>
      sample_pod ''n'' () = Some (None, ())"
    by (simp add: Bind_def create_request_def pending_client_def error_status_def bounded_poll_def Second_def sample_pod_def
      poll_condition_def done_request_def result_defs)
  from Bind_success_meaning [OF status_contract_error_status poll_contract_bounded this] show ?thesis
    by (simp add: sample_pod_def)
qed

theorem bind_request_accepted_witness:
  "\<exists>p r. NewBindPlugin (\<lambda>_. Inr (pending_client (bind_request sample_pod ''n''))) (BinderArgs \<lparr>args_TypeMeta = ('''', ''''), Timeout = None\<rparr>) = Inr p \<and>
     Bind error_status bounded_poll p sample_pod ''n'' () = Some r"
proof -
  let ?c = "\<lambda>_ :: string. Inr (pending_client (bind_request sample_pod ''n'')) :: go_error + unit pr_client"
  obtain p where p: "NewBindPlugin ?c (BinderArgs \<lparr>args_TypeMeta = ('''', ''''), Timeout = None\<rparr>) = Inr p"
    by (simp add: NewBindPlugin_def)
  from bind_request_accepted [OF this] show ?thesis using p by blast
qed

end
