(* ===== verification/Scheme_Registration.thy ===== *)
theory Scheme_Registration
  imports Bind_Plugin Request_Informer
begin

text \<open>
  The registration of the API types in apimachinery's schemes: the three \<open>register.go\<close> of
  \<open>pkg/apis\<close>, \<open>RegisterConversions\<close> and \<open>init\<close> of \<open>pkg/apis/scheduler/conversion.go\<close>, \<open>RegisterDefaults\<close>, the
  schemes of the generated clientset, and the \<open>init\<close> of the controller binary.

  \<open>runtime.Scheme\<close> belongs to apimachinery. Its operations are the record \<open>runtime_lib\<close>, on a state \<open>'w\<close>
  that holds all schemes, which are known by a pointer \<open>'p\<close>; \<open>None\<close> is a panic. The theorems use the
  documented behaviour of these operations (\<open>scheme_contract\<close>): what is registered afterwards, which
  registrations panic, and that a scheme builder runs its functions in order up to the first error.
  They show that every initialisation succeeds, which types each scheme knows then under which group
  and version, and that the conversions of the plugin's arguments carry the timeout over in both
  directions.
\<close>

section \<open>Types and schemes\<close>

type_synonym GroupVersion = "string \<times> string"

text \<open>The Go types that are registered, and the values behind an \<open>interface{}\<close>.\<close>

datatype go_type = T_PlacementRequest | T_PlacementRequestList | T_Configuration | T_InternalBinderArgs | T_V1alpha1BinderArgs

fun go_kind :: "go_type \<Rightarrow> string" where
  "go_kind T_PlacementRequest = ''PlacementRequest''"
| "go_kind T_PlacementRequestList = ''PlacementRequestList''"
| "go_kind T_Configuration = ''Configuration''"
| "go_kind T_InternalBinderArgs = ''PlacementRequestBinderArgs''"
| "go_kind T_V1alpha1BinderArgs = ''PlacementRequestBinderArgs''"

datatype go_object = InternalArgs PlacementRequestBinderArgs | V1alpha1Args V1alpha1BinderArgs | OtherValue go_type

text \<open>A conversion gets both objects and changes the second; a failed type assertion is a panic.\<close>

type_synonym conversion_func = "go_object \<Rightarrow> go_object \<Rightarrow> (go_error option \<times> go_object) option"
type_synonym ('p, 'w) scheme_func = "'p \<Rightarrow> 'w \<Rightarrow> (go_error option \<times> 'w) option"

record ('p, 'w) runtime_lib =
  rt_AddKnownTypes :: "'p \<Rightarrow> GroupVersion \<Rightarrow> go_type list \<Rightarrow> 'w \<Rightarrow> 'w option"
  rt_AddConversionFunc :: "'p \<Rightarrow> go_type \<Rightarrow> go_type \<Rightarrow> conversion_func \<Rightarrow> 'w \<Rightarrow> go_error option \<times> 'w"
  rt_AddToGroupVersion :: "'p \<Rightarrow> GroupVersion \<Rightarrow> 'w \<Rightarrow> 'w option"
  rt_AddToScheme :: "('p, 'w) scheme_func list \<Rightarrow> ('p, 'w) scheme_func"
  rt_Must :: "go_error option \<Rightarrow> unit option"
  cr_registration :: "GroupVersion \<Rightarrow> go_type list \<Rightarrow> ('p, 'w) scheme_func"
  clientgo_AddToScheme :: "('p, 'w) scheme_func"

section \<open>The API packages\<close>

text \<open>\<open>pkg/apis/kombiner/v1alpha1/register.go\<close>\<close>

definition addKnownTypes :: "('p, 'w) runtime_lib \<Rightarrow> ('p, 'w) scheme_func" where
  "addKnownTypes lib scheme w =
     do { w1 \<leftarrow> rt_AddKnownTypes lib scheme SchemeGroupVersion [T_PlacementRequest, T_PlacementRequestList] w;
          w2 \<leftarrow> rt_AddToGroupVersion lib scheme SchemeGroupVersion w1;
          Some (None, w2) }"

definition kombiner_SchemeBuilder :: "('p, 'w) runtime_lib \<Rightarrow> ('p, 'w) scheme_func list" where
  "kombiner_SchemeBuilder lib = [addKnownTypes lib]"

definition kombiner_AddToScheme :: "('p, 'w) runtime_lib \<Rightarrow> ('p, 'w) scheme_func" where
  "kombiner_AddToScheme lib = rt_AddToScheme lib (kombiner_SchemeBuilder lib)"

text \<open>\<open>pkg/apis/scheduler/v1alpha1/register.go\<close>\<close>

definition scheduler_GroupName :: string where
  "scheduler_GroupName = ''kubescheduler.config.k8s.io''"

definition v1alpha1_SchemeGroupVersion :: GroupVersion where
  "v1alpha1_SchemeGroupVersion = (scheduler_GroupName, ''v1'')"

definition scheduler_Resource :: "string \<Rightarrow> string \<times> string" where
  "scheduler_Resource resource = GroupResource (WithResource v1alpha1_SchemeGroupVersion resource)"

definition v1alpha1_addKnownTypes :: "('p, 'w) runtime_lib \<Rightarrow> ('p, 'w) scheme_func" where
  "v1alpha1_addKnownTypes lib scheme w =
     do { w1 \<leftarrow> rt_AddKnownTypes lib scheme v1alpha1_SchemeGroupVersion [T_V1alpha1BinderArgs] w;
          w2 \<leftarrow> rt_AddToGroupVersion lib scheme v1alpha1_SchemeGroupVersion w1;
          Some (None, w2) }"

definition v1alpha1_AddToScheme :: "('p, 'w) runtime_lib \<Rightarrow> ('p, 'w) scheme_func" where
  "v1alpha1_AddToScheme lib = rt_AddToScheme lib [v1alpha1_addKnownTypes lib]"

text \<open>
  \<open>pkg/apis/config/v1alpha1/register.go\<close>, with controller-runtime's builder: the functions of the
  embedded scheme builder, to which \<open>Register\<close> adds the registration of the objects it is given.
\<close>

record ('p, 'w) Builder =
  bl_GroupVersion :: GroupVersion
  bl_SchemeBuilder :: "('p, 'w) scheme_func list"

definition config_GroupName :: string where
  "config_GroupName = ''config.kombiner.x-k8s.io''"

definition config_GroupVersion :: GroupVersion where
  "config_GroupVersion = (config_GroupName, ''v1alpha1'')"

definition config_SchemeBuilder :: "('p, 'w) Builder" where
  "config_SchemeBuilder = \<lparr>bl_GroupVersion = config_GroupVersion, bl_SchemeBuilder = []\<rparr>"

definition RegisterDefaults :: "('p, 'w) scheme_func" where
  "RegisterDefaults scheme w = Some (None, w)"

definition config_init :: "('p, 'w) runtime_lib \<Rightarrow> ('p, 'w) Builder \<Rightarrow> ('p, 'w) Builder" where
  "config_init lib b =
     (let b1 = b\<lparr>bl_SchemeBuilder := bl_SchemeBuilder b @ [cr_registration lib (bl_GroupVersion b) [T_Configuration]]\<rparr>
      in b1\<lparr>bl_SchemeBuilder := bl_SchemeBuilder b1 @ [RegisterDefaults]\<rparr>)"

definition config_AddToScheme :: "('p, 'w) runtime_lib \<Rightarrow> ('p, 'w) scheme_func" where
  "config_AddToScheme lib = rt_AddToScheme lib (bl_SchemeBuilder (config_init lib config_SchemeBuilder))"

section \<open>The arguments of the scheduler plugin\<close>

definition internal_SchemeGroupVersion :: GroupVersion where
  "internal_SchemeGroupVersion = (''kubescheduler.config.k8s.io'', ''__internal'')"

definition internalToV1alpha1_func :: conversion_func where
  "internalToV1alpha1_func i out =
     (case (i, out) of
        (InternalArgs inArgs, V1alpha1Args outArgs) \<Rightarrow> Some (None, V1alpha1Args (internalToV1alpha1 inArgs outArgs))
      | _ \<Rightarrow> None)"

definition v1alpha1ToInternal_func :: conversion_func where
  "v1alpha1ToInternal_func i out =
     (case (i, out) of
        (V1alpha1Args inArgs, InternalArgs outArgs) \<Rightarrow> Some (None, InternalArgs (v1alpha1ToInternal inArgs outArgs))
      | _ \<Rightarrow> None)"

definition RegisterConversions :: "('p, 'w) runtime_lib \<Rightarrow> 'p \<Rightarrow> 'w \<Rightarrow> go_error option \<times> 'w" where
  "RegisterConversions lib scheme w =
     (case rt_AddConversionFunc lib scheme T_V1alpha1BinderArgs T_InternalBinderArgs v1alpha1ToInternal_func w of
        (Some err, w1) \<Rightarrow> (Some (''adding v1alpha1 to internal conversion: '' @ err), w1)
      | (None, w1) \<Rightarrow>
          (case rt_AddConversionFunc lib scheme T_InternalBinderArgs T_V1alpha1BinderArgs internalToV1alpha1_func w1 of
             (Some err, w2) \<Rightarrow> (Some (''adding internal to v1alpha1 conversion: '' @ err), w2)
           | (None, w2) \<Rightarrow> (None, w2)))"

text \<open>\<open>init\<close>, over the schemes of the scheduler's configuration.\<close>

fun scheduler_init :: "('p, 'w) runtime_lib \<Rightarrow> 'p list \<Rightarrow> 'w \<Rightarrow> 'w option" where
  "scheduler_init lib [] w = Some w"
| "scheduler_init lib (scheme # schemes) w =
     do { w1 \<leftarrow> rt_AddKnownTypes lib scheme internal_SchemeGroupVersion [T_InternalBinderArgs] w;
          (err, w2) \<leftarrow> v1alpha1_AddToScheme lib scheme w1;
          if err \<noteq> None then None
          else case RegisterConversions lib scheme w2 of
            (Some _, _) \<Rightarrow> None
          | (None, w3) \<Rightarrow> scheduler_init lib schemes w3 }"

section \<open>The schemes of the clients and of the controller\<close>

text \<open>\<open>clientset/versioned/scheme/register.go\<close>; the fake clientset has the same code for its own scheme.\<close>

definition clientset_AddToScheme :: "('p, 'w) runtime_lib \<Rightarrow> ('p, 'w) scheme_func" where
  "clientset_AddToScheme lib = rt_AddToScheme lib [kombiner_AddToScheme lib]"

definition clientset_scheme_init :: "('p, 'w) runtime_lib \<Rightarrow> 'p \<Rightarrow> 'w \<Rightarrow> 'w option" where
  "clientset_scheme_init lib Scheme w =
     do { w1 \<leftarrow> rt_AddToGroupVersion lib Scheme ('''', ''v1'') w;
          (err, w2) \<leftarrow> clientset_AddToScheme lib Scheme w1;
          rt_Must lib err;
          Some w2 }"

definition fake_AddToScheme :: "('p, 'w) runtime_lib \<Rightarrow> ('p, 'w) scheme_func" where
  "fake_AddToScheme lib = rt_AddToScheme lib [kombiner_AddToScheme lib]"

definition fake_scheme_init :: "('p, 'w) runtime_lib \<Rightarrow> 'p \<Rightarrow> 'w \<Rightarrow> 'w option" where
  "fake_scheme_init lib scheme w =
     do { w1 \<leftarrow> rt_AddToGroupVersion lib scheme ('''', ''v1'') w;
          (err, w2) \<leftarrow> fake_AddToScheme lib scheme w1;
          rt_Must lib err;
          Some w2 }"

text \<open>\<open>init\<close> of \<open>cmd/kombiner-controller/main.go\<close>\<close>

definition controller_init :: "('p, 'w) runtime_lib \<Rightarrow> 'p \<Rightarrow> 'w \<Rightarrow> 'w option" where
  "controller_init lib scheme w =
     do { (err, w1) \<leftarrow> clientgo_AddToScheme lib scheme w;
          rt_Must lib err;
          (err, w2) \<leftarrow> kombiner_AddToScheme lib scheme w1;
          rt_Must lib err;
          (err, w3) \<leftarrow> config_AddToScheme lib scheme w2;
          rt_Must lib err;
          Some w3 }"

section \<open>Documented behaviour of the schemes\<close>

text \<open>
  What can be seen of all schemes: the types each of them knows under a group and version, and the
  conversion it has from one type to another.
\<close>

record 'p registry =
  known :: "('p \<times> GroupVersion \<times> go_type) set"
  converters :: "'p \<times> go_type \<times> go_type \<rightharpoonup> conversion_func"

definition add_known :: "'p \<Rightarrow> GroupVersion \<Rightarrow> go_type list \<Rightarrow> 'p registry \<Rightarrow> 'p registry" where
  "add_known p gv ts g = g\<lparr>known := known g \<union> (\<lambda>t. (p, gv, t)) ` set ts\<rparr>"

definition add_converter :: "'p \<Rightarrow> go_type \<Rightarrow> go_type \<Rightarrow> conversion_func \<Rightarrow> 'p registry \<Rightarrow> 'p registry" where
  "add_converter p a b f g = g\<lparr>converters := (converters g)((p, a, b) \<mapsto> f)\<rparr>"

text \<open>A registration panics without a version, or if another type has the kind already.\<close>

definition registrable :: "'p registry \<Rightarrow> 'p \<Rightarrow> GroupVersion \<Rightarrow> go_type list \<Rightarrow> bool" where
  "registrable g p gv ts \<longleftrightarrow> snd gv \<noteq> '''' \<and> distinct (map go_kind ts) \<and>
     (\<forall>t \<in> set ts. \<forall>t'. (p, gv, t') \<in> known g \<longrightarrow> go_kind t' = go_kind t \<longrightarrow> t' = t)"

definition registers_laws :: "('p, 'w) runtime_lib \<Rightarrow> ('w \<Rightarrow> 'p registry) \<Rightarrow> bool" where
  "registers_laws lib view \<longleftrightarrow>
     (\<forall>p gv ts w. registrable (view w) p gv ts \<longrightarrow>
        (\<exists>w'. rt_AddKnownTypes lib p gv ts w = Some w' \<and> view w' = add_known p gv ts (view w))) \<and>
     (\<forall>p gv ts w. registrable (view w) p gv ts \<longrightarrow>
        (\<exists>w'. cr_registration lib gv ts p w = Some (None, w') \<and> view w' = add_known p gv ts (view w))) \<and>
     (\<forall>p a b f w. \<exists>w'. rt_AddConversionFunc lib p a b f w = (None, w') \<and> view w' = add_converter p a b f (view w)) \<and>
     (\<forall>p gv w. \<exists>w'. rt_AddToGroupVersion lib p gv w = Some w' \<and> view w' = view w) \<and>
     (\<forall>p w. \<exists>w'. clientgo_AddToScheme lib p w = Some (None, w') \<and> view w' = view w)"

text \<open>A builder applies its functions in order until one fails; \<open>Must\<close> panics on an error.\<close>

definition builder_laws :: "('p, 'w) runtime_lib \<Rightarrow> bool" where
  "builder_laws lib \<longleftrightarrow>
     (\<forall>p w. rt_AddToScheme lib [] p w = Some (None, w)) \<and>
     (\<forall>f fs p w. rt_AddToScheme lib (f # fs) p w =
        (case f p w of
           None \<Rightarrow> None
         | Some (Some err, w') \<Rightarrow> Some (Some err, w')
         | Some (None, w') \<Rightarrow> rt_AddToScheme lib fs p w')) \<and>
     rt_Must lib None = Some () \<and> (\<forall>err. rt_Must lib (Some err) = None)"

definition scheme_contract :: "('p, 'w) runtime_lib \<Rightarrow> ('w \<Rightarrow> 'p registry) \<Rightarrow> bool" where
  "scheme_contract lib view \<longleftrightarrow> registers_laws lib view \<and> builder_laws lib"

text \<open>A function that succeeds and has a given effect on the registry.\<close>

definition adds :: "('w \<Rightarrow> 'p registry) \<Rightarrow> ('p, 'w) scheme_func \<Rightarrow> 'p \<Rightarrow> 'w \<Rightarrow> 'p registry \<Rightarrow> bool" where
  "adds view f p w g \<longleftrightarrow> (\<exists>w'. f p w = Some (None, w') \<and> view w' = g)"

lemma AddKnownTypes_adds:
  assumes "scheme_contract lib view" and "registrable (view w) p gv ts"
  obtains w' where "rt_AddKnownTypes lib p gv ts w = Some w'" "view w' = add_known p gv ts (view w)"
  using assms unfolding scheme_contract_def registers_laws_def by blast

lemma AddToGroupVersion_adds:
  assumes "scheme_contract lib view"
  obtains w' where "rt_AddToGroupVersion lib p gv w = Some w'" "view w' = view w"
  using assms unfolding scheme_contract_def registers_laws_def by blast

lemma AddConversionFunc_adds:
  assumes "scheme_contract lib view"
  obtains w' where "rt_AddConversionFunc lib p a b f w = (None, w')" "view w' = add_converter p a b f (view w)"
  using assms unfolding scheme_contract_def registers_laws_def by blast

lemma builder_single:
  assumes "scheme_contract lib view" and "adds view f p w g"
  shows "adds view (rt_AddToScheme lib [f]) p w g"
  using assms by (auto simp: scheme_contract_def builder_laws_def adds_def)

lemma kombiner_AddToScheme_adds:
  assumes "scheme_contract lib view"
    and "registrable (view w) p SchemeGroupVersion [T_PlacementRequest, T_PlacementRequestList]"
  shows "adds view (kombiner_AddToScheme lib) p w
    (add_known p SchemeGroupVersion [T_PlacementRequest, T_PlacementRequestList] (view w))"
proof -
  obtain w1 where w1: "rt_AddKnownTypes lib p SchemeGroupVersion [T_PlacementRequest, T_PlacementRequestList] w = Some w1"
    "view w1 = add_known p SchemeGroupVersion [T_PlacementRequest, T_PlacementRequestList] (view w)"
    using AddKnownTypes_adds [OF assms] .
  obtain w2 where "rt_AddToGroupVersion lib p SchemeGroupVersion w1 = Some w2" "view w2 = view w1"
    using AddToGroupVersion_adds [OF assms(1)] .
  with w1 show ?thesis unfolding kombiner_AddToScheme_def kombiner_SchemeBuilder_def
    by (intro builder_single [OF assms(1)]) (simp add: adds_def addKnownTypes_def)
qed

lemma v1alpha1_AddToScheme_adds:
  assumes "scheme_contract lib view" and "registrable (view w) p v1alpha1_SchemeGroupVersion [T_V1alpha1BinderArgs]"
  shows "adds view (v1alpha1_AddToScheme lib) p w (add_known p v1alpha1_SchemeGroupVersion [T_V1alpha1BinderArgs] (view w))"
proof -
  obtain w1 where w1: "rt_AddKnownTypes lib p v1alpha1_SchemeGroupVersion [T_V1alpha1BinderArgs] w = Some w1"
    "view w1 = add_known p v1alpha1_SchemeGroupVersion [T_V1alpha1BinderArgs] (view w)"
    using AddKnownTypes_adds [OF assms] .
  obtain w2 where "rt_AddToGroupVersion lib p v1alpha1_SchemeGroupVersion w1 = Some w2" "view w2 = view w1"
    using AddToGroupVersion_adds [OF assms(1)] .
  with w1 show ?thesis unfolding v1alpha1_AddToScheme_def
    by (intro builder_single [OF assms(1)]) (simp add: adds_def v1alpha1_addKnownTypes_def)
qed

lemma config_AddToScheme_adds:
  assumes "scheme_contract lib view" and "registrable (view w) p config_GroupVersion [T_Configuration]"
  shows "adds view (config_AddToScheme lib) p w (add_known p config_GroupVersion [T_Configuration] (view w))"
proof -
  obtain w1 where "cr_registration lib config_GroupVersion [T_Configuration] p w = Some (None, w1)"
    "view w1 = add_known p config_GroupVersion [T_Configuration] (view w)"
    using assms unfolding scheme_contract_def registers_laws_def by blast
  with assms(1) show ?thesis
    by (simp add: adds_def config_AddToScheme_def config_init_def config_SchemeBuilder_def RegisterDefaults_def Let_def
      scheme_contract_def builder_laws_def)
qed

section \<open>What is registered\<close>

definition register_binder_args :: "'p \<Rightarrow> 'p registry \<Rightarrow> 'p registry" where
  "register_binder_args p g =
     add_converter p T_InternalBinderArgs T_V1alpha1BinderArgs internalToV1alpha1_func
       (add_converter p T_V1alpha1BinderArgs T_InternalBinderArgs v1alpha1ToInternal_func
         (add_known p v1alpha1_SchemeGroupVersion [T_V1alpha1BinderArgs]
           (add_known p internal_SchemeGroupVersion [T_InternalBinderArgs] g)))"

text \<open>No other type is known under the kind of the plugin's arguments.\<close>

definition binder_args_free :: "'p registry \<Rightarrow> 'p \<Rightarrow> bool" where
  "binder_args_free g p \<longleftrightarrow>
     registrable g p internal_SchemeGroupVersion [T_InternalBinderArgs] \<and>
     registrable g p v1alpha1_SchemeGroupVersion [T_V1alpha1BinderArgs]"

lemmas group_version_defs =
  internal_SchemeGroupVersion_def v1alpha1_SchemeGroupVersion_def scheduler_GroupName_def

lemma binder_args_free_register [simp]:
  "binder_args_free g q \<Longrightarrow> binder_args_free (register_binder_args p g) q"
  by (auto simp: binder_args_free_def register_binder_args_def registrable_def add_known_def add_converter_def group_version_defs)

lemma RegisterConversions_adds:
  assumes "scheme_contract lib view"
  obtains w' where "RegisterConversions lib p w = (None, w')"
    "view w' = add_converter p T_InternalBinderArgs T_V1alpha1BinderArgs internalToV1alpha1_func
       (add_converter p T_V1alpha1BinderArgs T_InternalBinderArgs v1alpha1ToInternal_func (view w))"
proof -
  obtain w1 where w1: "rt_AddConversionFunc lib p T_V1alpha1BinderArgs T_InternalBinderArgs v1alpha1ToInternal_func w = (None, w1)"
    "view w1 = add_converter p T_V1alpha1BinderArgs T_InternalBinderArgs v1alpha1ToInternal_func (view w)"
    using AddConversionFunc_adds [OF assms] .
  obtain w2 where "rt_AddConversionFunc lib p T_InternalBinderArgs T_V1alpha1BinderArgs internalToV1alpha1_func w1 = (None, w2)"
    "view w2 = add_converter p T_InternalBinderArgs T_V1alpha1BinderArgs internalToV1alpha1_func (view w1)"
    using AddConversionFunc_adds [OF assms] .
  with w1 that show thesis by (simp add: RegisterConversions_def)
qed

lemma scheduler_init_refines:
  assumes con: "scheme_contract lib view" and "\<forall>p \<in> set schemes. binder_args_free (view w) p"
  shows "\<exists>w'. scheduler_init lib schemes w = Some w' \<and> view w' = fold register_binder_args schemes (view w)"
  using assms(2)
proof (induction schemes arbitrary: w)
  case Nil
  then show ?case by simp
next
  case (Cons p schemes)
  then have free: "registrable (view w) p internal_SchemeGroupVersion [T_InternalBinderArgs]"
    by (simp add: binder_args_free_def)
  obtain w1 where w1: "rt_AddKnownTypes lib p internal_SchemeGroupVersion [T_InternalBinderArgs] w = Some w1"
    "view w1 = add_known p internal_SchemeGroupVersion [T_InternalBinderArgs] (view w)"
    using AddKnownTypes_adds [OF con free] .
  have "registrable (view w1) p v1alpha1_SchemeGroupVersion [T_V1alpha1BinderArgs]"
    using Cons.prems by (auto simp: w1(2) binder_args_free_def registrable_def add_known_def group_version_defs)
  from v1alpha1_AddToScheme_adds [OF con this] obtain w2 where w2: "v1alpha1_AddToScheme lib p w1 = Some (None, w2)"
    "view w2 = add_known p v1alpha1_SchemeGroupVersion [T_V1alpha1BinderArgs] (view w1)" by (auto simp: adds_def)
  obtain w3 where w3: "RegisterConversions lib p w2 = (None, w3)"
    "view w3 = add_converter p T_InternalBinderArgs T_V1alpha1BinderArgs internalToV1alpha1_func
       (add_converter p T_V1alpha1BinderArgs T_InternalBinderArgs v1alpha1ToInternal_func (view w2))"
    using RegisterConversions_adds [OF con] .
  have v: "view w3 = register_binder_args p (view w)" by (simp add: w1(2) w2(2) w3(2) register_binder_args_def)
  with Cons.prems have "\<forall>q \<in> set schemes. binder_args_free (view w3) q" by simp
  from Cons.IH [OF this] show ?case by (simp add: w1(1) w2(1) w3(1) v)
qed

lemma fold_register_known:
  "known (fold register_binder_args schemes g) = known g \<union>
     (\<Union>p \<in> set schemes. {(p, internal_SchemeGroupVersion, T_InternalBinderArgs), (p, v1alpha1_SchemeGroupVersion, T_V1alpha1BinderArgs)})"
  by (induction schemes arbitrary: g) (auto simp: register_binder_args_def add_known_def add_converter_def)

lemma fold_register_converters:
  assumes "p \<in> set schemes \<or> converters g (p, T_V1alpha1BinderArgs, T_InternalBinderArgs) = Some v1alpha1ToInternal_func \<and>
     converters g (p, T_InternalBinderArgs, T_V1alpha1BinderArgs) = Some internalToV1alpha1_func"
  shows "converters (fold register_binder_args schemes g) (p, T_V1alpha1BinderArgs, T_InternalBinderArgs) = Some v1alpha1ToInternal_func \<and>
     converters (fold register_binder_args schemes g) (p, T_InternalBinderArgs, T_V1alpha1BinderArgs) = Some internalToV1alpha1_func"
  using assms
proof (induction schemes arbitrary: g)
  case Nil
  then show ?case by simp
next
  case (Cons q schemes)
  show ?case unfolding fold_simps o_apply
    by (rule Cons.IH) (use Cons.prems in \<open>auto simp: register_binder_args_def add_known_def add_converter_def\<close>)
qed

text \<open>The initialisations of the controller's scheme and of those of the clientsets.\<close>

lemma kombiner_group_version: "SchemeGroupVersion = (''kombiner.x-k8s.io'', ''v1alpha1'')"
  by (simp add: SchemeGroupVersion_def GroupName_def)

lemma config_group_version: "config_GroupVersion = (''config.kombiner.x-k8s.io'', ''v1alpha1'')"
  by (simp add: config_GroupVersion_def config_GroupName_def)

abbreviation request_types :: "go_type list" where
  "request_types \<equiv> [T_PlacementRequest, T_PlacementRequestList]"

lemma requests_registrable:
  "\<forall>gv t. (p, gv, t) \<notin> known g \<Longrightarrow> registrable g p SchemeGroupVersion request_types"
  by (simp add: registrable_def kombiner_group_version)

lemma controller_init_succeeds:
  assumes "scheme_contract lib view" and "\<forall>gv t. (p, gv, t) \<notin> known (view w)"
  obtains w' where "controller_init lib p w = Some w'"
    "view w' = add_known p config_GroupVersion [T_Configuration] (add_known p SchemeGroupVersion request_types (view w))"
proof -
  have must: "rt_Must lib None = Some ()" using assms(1) by (simp add: scheme_contract_def builder_laws_def)
  obtain w1 where w1: "clientgo_AddToScheme lib p w = Some (None, w1)" "view w1 = view w"
    using assms(1) unfolding scheme_contract_def registers_laws_def by blast
  have "registrable (view w1) p SchemeGroupVersion request_types" using requests_registrable assms(2) w1(2) by metis
  from kombiner_AddToScheme_adds [OF assms(1) this] obtain w2 where w2: "kombiner_AddToScheme lib p w1 = Some (None, w2)"
    "view w2 = add_known p SchemeGroupVersion request_types (view w)" using w1(2) by (auto simp: adds_def)
  have "registrable (view w2) p config_GroupVersion [T_Configuration]"
    using assms(2) by (auto simp: w2(2) registrable_def config_group_version kombiner_group_version add_known_def)
  from config_AddToScheme_adds [OF assms(1) this] obtain w3 where "config_AddToScheme lib p w2 = Some (None, w3)"
    "view w3 = add_known p config_GroupVersion [T_Configuration] (view w2)" by (auto simp: adds_def)
  with that [of w3] show thesis by (simp add: controller_init_def w1 w2 must)
qed

lemma clientset_init_succeeds:
  assumes "scheme_contract lib view" and "\<forall>gv t. (p, gv, t) \<notin> known (view w)"
  obtains w' where "clientset_scheme_init lib p w = Some w'" "fake_scheme_init lib p w = Some w'"
    "view w' = add_known p SchemeGroupVersion request_types (view w)"
proof -
  have must: "rt_Must lib None = Some ()" using assms(1) by (simp add: scheme_contract_def builder_laws_def)
  obtain w1 where w1: "rt_AddToGroupVersion lib p ('''', ''v1'') w = Some w1" "view w1 = view w"
    using AddToGroupVersion_adds [OF assms(1)] .
  have "registrable (view w1) p SchemeGroupVersion request_types" using requests_registrable assms(2) w1(2) by metis
  from builder_single [OF assms(1) kombiner_AddToScheme_adds [OF assms(1) this]] obtain w2 where
    "rt_AddToScheme lib [kombiner_AddToScheme lib] p w1 = Some (None, w2)"
    "view w2 = add_known p SchemeGroupVersion request_types (view w)" using w1(2) by (auto simp: adds_def)
  with that [of w2] show thesis
    by (simp add: clientset_scheme_init_def fake_scheme_init_def clientset_AddToScheme_def fake_AddToScheme_def w1 must)
qed

section \<open>Properties\<close>

text \<open>
  What the two conversions do: the timeout is carried over, the rest of the object written to stays.
\<close>

lemma conversions_eq:
  "v1alpha1ToInternal_func (V1alpha1Args v) (InternalArgs i) = Some (None, InternalArgs (i\<lparr>Timeout := v1_Timeout v\<rparr>))"
  "internalToV1alpha1_func (InternalArgs i) (V1alpha1Args v) = Some (None, V1alpha1Args (v\<lparr>v1_Timeout := Timeout i\<rparr>))"
  by (simp_all add: v1alpha1ToInternal_func_def internalToV1alpha1_func_def v1alpha1ToInternal_def internalToV1alpha1_def)

text \<open>
  C29: the timeout of the plugin survives the conversions of the scheduler. If no other type has their
  kind, the \<open>init\<close> of \<open>pkg/apis/scheduler\<close> does not panic; afterwards each of the schemes it is given
  knows the internal and the versioned type, both in the group of the scheduler's configuration (which
  is where the scheduler looks for them) and no scheme knows any other new type. Of the conversions it
  registered, each sets the timeout of the object it writes to and leaves that object's kind and API
  version alone. So versioned arguments converted to the internal type and back are the object written
  to with the original timeout, which is the original if kind and API version agree, whatever was in
  between; and the same holds in the other order.
\<close>

theorem binder_args_round_trip:
  assumes "scheme_contract lib view" and "\<forall>p \<in> set schemes. binder_args_free (view w) p"
  shows "\<exists>w'. scheduler_init lib schemes w = Some w' \<and>
     known (view w') = known (view w) \<union>
       (\<Union>p \<in> set schemes. {(p, (''kubescheduler.config.k8s.io'', ''__internal''), T_InternalBinderArgs),
                          (p, (''kubescheduler.config.k8s.io'', ''v1''), T_V1alpha1BinderArgs)}) \<and>
     (\<forall>p \<in> set schemes. \<exists>to_int to_v1.
        converters (view w') (p, T_V1alpha1BinderArgs, T_InternalBinderArgs) = Some to_int \<and>
        converters (view w') (p, T_InternalBinderArgs, T_V1alpha1BinderArgs) = Some to_v1 \<and>
        (\<forall>v i0 v0. \<exists>i. to_int (V1alpha1Args v) (InternalArgs i0) = Some (None, InternalArgs i) \<and>
           args_TypeMeta i = args_TypeMeta i0 \<and> Timeout i = v1_Timeout v \<and>
           to_v1 (InternalArgs i) (V1alpha1Args v0) = Some (None, V1alpha1Args (v0\<lparr>v1_Timeout := v1_Timeout v\<rparr>)) \<and>
           (v1_TypeMeta v0 = v1_TypeMeta v \<longrightarrow> v0\<lparr>v1_Timeout := v1_Timeout v\<rparr> = v)) \<and>
        (\<forall>i v0 i0. \<exists>v. to_v1 (InternalArgs i) (V1alpha1Args v0) = Some (None, V1alpha1Args v) \<and>
           v1_TypeMeta v = v1_TypeMeta v0 \<and> v1_Timeout v = Timeout i \<and>
           to_int (V1alpha1Args v) (InternalArgs i0) = Some (None, InternalArgs (i0\<lparr>Timeout := Timeout i\<rparr>)) \<and>
           (args_TypeMeta i0 = args_TypeMeta i \<longrightarrow> i0\<lparr>Timeout := Timeout i\<rparr> = i)))"
proof -
  from scheduler_init_refines [OF assms] obtain w' where
    w': "scheduler_init lib schemes w = Some w'" "view w' = fold register_binder_args schemes (view w)" by blast
  have "converters (view w') (p, T_V1alpha1BinderArgs, T_InternalBinderArgs) = Some v1alpha1ToInternal_func \<and>
      converters (view w') (p, T_InternalBinderArgs, T_V1alpha1BinderArgs) = Some internalToV1alpha1_func"
    if "p \<in> set schemes" for p
    unfolding w'(2) by (rule fold_register_converters) (simp add: that)
  moreover have "v0\<lparr>v1_Timeout := v1_Timeout v\<rparr> = v" if "v1_TypeMeta v0 = v1_TypeMeta v" for v v0 :: V1alpha1BinderArgs
    using that by simp
  moreover have "i0\<lparr>Timeout := Timeout i\<rparr> = i" if "args_TypeMeta i0 = args_TypeMeta i" for i i0 :: PlacementRequestBinderArgs
    using that by simp
  ultimately show ?thesis using w' by (simp add: fold_register_known group_version_defs conversions_eq)
qed

text \<open>
  C30: the types each scheme knows. The controller's scheme gets the placement request, its list and the
  configuration, each under the group and version of its package; those of the clientset and of the
  fake clientset get the placement request and its list, the types the client sends and receives. None
  of the three initialisations panics on a scheme that knows none of these types.
\<close>

theorem schemes_know_types:
  assumes "scheme_contract lib view" and "\<forall>gv t. (p, gv, t) \<notin> known (view w)"
  shows "\<exists>w1 w2 w3. controller_init lib p w = Some w1 \<and> clientset_scheme_init lib p w = Some w2 \<and>
     fake_scheme_init lib p w = Some w3 \<and>
     known (view w1) = known (view w) \<union> {(p, (''kombiner.x-k8s.io'', ''v1alpha1''), T_PlacementRequest),
       (p, (''kombiner.x-k8s.io'', ''v1alpha1''), T_PlacementRequestList),
       (p, (''config.kombiner.x-k8s.io'', ''v1alpha1''), T_Configuration)} \<and>
     known (view w2) = known (view w) \<union> {(p, (''kombiner.x-k8s.io'', ''v1alpha1''), T_PlacementRequest),
       (p, (''kombiner.x-k8s.io'', ''v1alpha1''), T_PlacementRequestList)} \<and>
     known (view w3) = known (view w2)"
proof -
  obtain w1 where w1: "controller_init lib p w = Some w1"
    "view w1 = add_known p config_GroupVersion [T_Configuration] (add_known p SchemeGroupVersion request_types (view w))"
    by (rule controller_init_succeeds [OF assms])
  obtain w2 where w2: "clientset_scheme_init lib p w = Some w2" "fake_scheme_init lib p w = Some w2"
    "view w2 = add_known p SchemeGroupVersion request_types (view w)" by (rule clientset_init_succeeds [OF assms])
  have "known (view w1) = known (view w) \<union> {(p, SchemeGroupVersion, T_PlacementRequest),
      (p, SchemeGroupVersion, T_PlacementRequestList), (p, config_GroupVersion, T_Configuration)}"
    "known (view w2) = known (view w) \<union> {(p, SchemeGroupVersion, T_PlacementRequest), (p, SchemeGroupVersion, T_PlacementRequestList)}"
    by (auto simp: w1(2) w2(3) add_known_def)
  then show ?thesis using w1(1) w2(1,2) unfolding kombiner_group_version config_group_version by blast
qed

text \<open>Concrete schemes: the registry itself is the state.\<close>

fun run_builder :: "('p, 'w) scheme_func list \<Rightarrow> ('p, 'w) scheme_func" where
  "run_builder [] p w = Some (None, w)"
| "run_builder (f # fs) p w =
     (case f p w of
        None \<Rightarrow> None
      | Some (Some err, w') \<Rightarrow> Some (Some err, w')
      | Some (None, w') \<Rightarrow> run_builder fs p w')"

definition map_schemes :: "(nat, nat registry) runtime_lib" where
  "map_schemes =
     \<lparr>rt_AddKnownTypes = (\<lambda>p gv ts g. if registrable g p gv ts then Some (add_known p gv ts g) else None),
      rt_AddConversionFunc = (\<lambda>p a b f g. (None, add_converter p a b f g)),
      rt_AddToGroupVersion = (\<lambda>_ _ g. Some g),
      rt_AddToScheme = run_builder,
      rt_Must = (\<lambda>err. if err = None then Some () else None),
      cr_registration = (\<lambda>gv ts p g. if registrable g p gv ts then Some (None, add_known p gv ts g) else None),
      clientgo_AddToScheme = (\<lambda>_ g. Some (None, g))\<rparr>"

lemma map_schemes_contract: "scheme_contract map_schemes (\<lambda>g. g)"
  by (simp add: scheme_contract_def registers_laws_def builder_laws_def map_schemes_def split: option.split prod.split)

definition new_schemes :: "nat registry" where
  "new_schemes = \<lparr>known = {}, converters = Map.empty\<rparr>"

theorem binder_args_round_trip_witness:
  "\<exists>g to_int to_v1 i. scheduler_init map_schemes [0, 1] new_schemes = Some g \<and>
     converters g (1, T_V1alpha1BinderArgs, T_InternalBinderArgs) = Some to_int \<and>
     converters g (1, T_InternalBinderArgs, T_V1alpha1BinderArgs) = Some to_v1 \<and>
     to_int (V1alpha1Args \<lparr>v1_TypeMeta = (''PlacementRequestBinderArgs'', ''v1''), v1_Timeout = Some 5\<rparr>)
       (InternalArgs \<lparr>args_TypeMeta = ('''', ''''), Timeout = None\<rparr>) = Some (None, InternalArgs i) \<and>
     to_v1 (InternalArgs i) (V1alpha1Args \<lparr>v1_TypeMeta = ('''', ''''), v1_Timeout = None\<rparr>) =
       Some (None, V1alpha1Args \<lparr>v1_TypeMeta = ('''', ''''), v1_Timeout = Some 5\<rparr>)"
proof -
  let ?v = "\<lparr>v1_TypeMeta = (''PlacementRequestBinderArgs'', ''v1''), v1_Timeout = Some 5\<rparr> :: V1alpha1BinderArgs"
  let ?out = "\<lparr>v1_TypeMeta = ('''', ''''), v1_Timeout = None\<rparr> :: V1alpha1BinderArgs"
  let ?int = "\<lparr>args_TypeMeta = ('''', ''''), Timeout = None\<rparr> :: PlacementRequestBinderArgs"
  have "\<forall>p \<in> set [0, 1]. binder_args_free new_schemes p"
    by (simp add: binder_args_free_def registrable_def new_schemes_def group_version_defs)
  from binder_args_round_trip [OF map_schemes_contract this] obtain g to_int to_v1 where
    g: "scheduler_init map_schemes [0, 1] new_schemes = Some g"
      "converters g (1, T_V1alpha1BinderArgs, T_InternalBinderArgs) = Some to_int"
      "converters g (1, T_InternalBinderArgs, T_V1alpha1BinderArgs) = Some to_v1" and
    r: "\<forall>v i0 v0. \<exists>i. to_int (V1alpha1Args v) (InternalArgs i0) = Some (None, InternalArgs i) \<and>
      to_v1 (InternalArgs i) (V1alpha1Args v0) = Some (None, V1alpha1Args (v0\<lparr>v1_Timeout := v1_Timeout v\<rparr>))" by fastforce
  from r obtain i where "to_int (V1alpha1Args ?v) (InternalArgs ?int) = Some (None, InternalArgs i)"
    "to_v1 (InternalArgs i) (V1alpha1Args ?out) = Some (None, V1alpha1Args (?out\<lparr>v1_Timeout := v1_Timeout ?v\<rparr>))" by blast
  then show ?thesis using g unfolding V1alpha1BinderArgs.simps by blast
qed

theorem schemes_know_types_witness:
  "\<exists>g. controller_init map_schemes 0 new_schemes = Some g \<and>
     (0, (''config.kombiner.x-k8s.io'', ''v1alpha1''), T_Configuration) \<in> known g"
proof -
  have "\<forall>gv t. (0, gv, t) \<notin> known new_schemes" by (simp add: new_schemes_def)
  from schemes_know_types [OF map_schemes_contract this] show ?thesis by auto
qed

end
