(* ===== verification/Binaries.thy ===== *)
theory Binaries
  imports Controller_Main Scheme_Registration
begin

text \<open>
  The two binaries: \<open>cmd/kombiner-controller\<close> (the flag of \<open>init.go\<close>, the registration of types, the
  parsing of the command line and \<open>main\<close>) and \<open>cmd/kombiner-scheduler\<close>, which gives the plugin to
  kube-scheduler. The packages \<open>flag\<close> and \<open>klog\<close> and kube-scheduler's command are parameters; what is
  used of \<open>flag\<close> is \<open>flag_contract\<close>: a parsed command line gives every registered flag a value, which is
  its default unless the command line sets it.
\<close>

section \<open>The controller\<close>

record flag =
  fl_name :: string
  fl_default :: string
  fl_usage :: string

definition flag_init :: "flag list \<Rightarrow> flag list" where
  "flag_init flags = flags @ [\<lparr>fl_name = ''config'', fl_default = '''',
     fl_usage = ''The controller will load its initial configuration from this file. ''\<rparr>]"

text \<open>\<open>flag.Parse\<close>, on the flags registered: \<open>None\<close> is the exit of the process with the usage.\<close>

type_synonym flag_parser = "flag list \<Rightarrow> string list \<Rightarrow> (string \<rightharpoonup> string) option"

datatype 'o process = UsageExit | MainReturned 'o

definition controller_binary ::
  "(flag list \<Rightarrow> flag list) \<Rightarrow> flag_parser \<Rightarrow> ('p, 's) runtime_lib \<Rightarrow> 'p \<Rightarrow> string list \<Rightarrow>
   ('w, 'l, 'z, 'h, 'r, 'd, 'k) environment \<Rightarrow> chan \<Rightarrow> 's \<Rightarrow> (('r, 'd) main_outcome process \<times> 's) option" where
  "controller_binary klog_InitFlags parse lib scheme args en stopCh s =
     (let flags = flag_init [] in
      do { s1 \<leftarrow> controller_init lib scheme s;
           (case parse (klog_InitFlags flags) args of
              None \<Rightarrow> Some (UsageExit, s1)
            | Some values \<Rightarrow>
                do { configFile \<leftarrow> values ''config'';
                     outcome \<leftarrow> main (en\<lparr>en_configFile := configFile\<rparr>) stopCh;
                     Some (MainReturned outcome, s1) }) })"

definition flag_contract :: "flag_parser \<Rightarrow> (string \<Rightarrow> string list \<Rightarrow> string option) \<Rightarrow> bool" where
  "flag_contract parse setting \<longleftrightarrow>
     (\<forall>flags args values f. parse flags args = Some values \<longrightarrow> f \<in> set flags \<longrightarrow> distinct (map fl_name flags) \<longrightarrow>
        values (fl_name f) = Some (case setting (fl_name f) args of None \<Rightarrow> fl_default f | Some v \<Rightarrow> v))"

text \<open>\<open>klog.InitFlags\<close> adds flags of its own, none of them called \<open>config\<close>.\<close>

definition klog_contract :: "(flag list \<Rightarrow> flag list) \<Rightarrow> bool" where
  "klog_contract klog_InitFlags \<longleftrightarrow>
     (\<forall>f. fl_name f = ''config'' \<longrightarrow> f \<in> set (klog_InitFlags [f]) \<and> distinct (map fl_name (klog_InitFlags [f])))"

lemma config_flag:
  assumes "klog_contract klog_InitFlags" and "flag_contract parse setting"
    and "parse (klog_InitFlags (flag_init [])) args = Some values"
  shows "values ''config'' = Some (case setting ''config'' args of None \<Rightarrow> '''' | Some v \<Rightarrow> v)"
proof -
  let ?f = "\<lparr>fl_name = ''config'', fl_default = '''', fl_usage = ''The controller will load its initial configuration from this file. ''\<rparr>"
  have "?f \<in> set (klog_InitFlags (flag_init []))" "distinct (map fl_name (klog_InitFlags (flag_init [])))"
    using assms(1) by (simp_all add: klog_contract_def flag_init_def)
  with assms(2,3) have "values (fl_name ?f) = Some (case setting (fl_name ?f) args of None \<Rightarrow> fl_default ?f | Some v \<Rightarrow> v)"
    unfolding flag_contract_def by blast
  then show ?thesis by (simp split: option.splits)
qed

section \<open>The scheduler\<close>

text \<open>The option \<open>app.WithPlugin\<close>, kube-scheduler's command, and the end of the process.\<close>

datatype 'w app_option = WithPlugin string "plugin_args \<Rightarrow> plugin_error + 'w BindPlugin"

record ('c, 'w) scheduler_app =
  NewSchedulerCommand :: "'w app_option list \<Rightarrow> 'c"
  Execute :: "'c \<Rightarrow> go_error option"

datatype scheduler_exit = Success | Exit int string

definition scheduler_options :: "(string \<Rightarrow> go_error + 'w pr_client) \<Rightarrow> 'w app_option list" where
  "scheduler_options new_client = [WithPlugin PluginName (NewBindPlugin new_client)]"

definition scheduler_main :: "('c, 'w) scheduler_app \<Rightarrow> (string \<Rightarrow> go_error + 'w pr_client) \<Rightarrow> scheduler_exit" where
  "scheduler_main app new_client =
     (let command = NewSchedulerCommand app (scheduler_options new_client) in
      case Execute app command of
        Some err \<Rightarrow> Exit 1 (err @ [CHR 0x0A])
      | None \<Rightarrow> Success)"

text \<open>The object that a plugin factory is given, as the factory sees it.\<close>

fun factory_args :: "go_object \<Rightarrow> plugin_args" where
  "factory_args (InternalArgs args) = BinderArgs args"
| "factory_args (V1alpha1Args args) = OtherArgs ''*v1alpha1.PlacementRequestBinderArgs''"
| "factory_args (OtherValue t) = OtherArgs (go_kind t)"

section \<open>Properties\<close>

text \<open>
  C33: the binary of the controller. Its \<open>init\<close> functions do not panic on a scheme without the types.
  After a command line that parses, \<open>main\<close> runs on the file the flag \<open>config\<close> names; if the flag is not
  given it tries to read the file with the empty name and, when that fails, ends with that error,
  having started nothing.
\<close>

theorem controller_binary_config:
  assumes "scheme_contract lib view" and "\<forall>gv t. (p, gv, t) \<notin> known (view s)"
    and "klog_contract klog_InitFlags" and "flag_contract parse setting"
    and "parse (klog_InitFlags (flag_init [])) args = Some values"
  shows "\<exists>s1. controller_init lib p s = Some s1 \<and>
     controller_binary klog_InitFlags parse lib p args en stopCh s =
       map_option (\<lambda>outcome. (MainReturned outcome, s1))
         (main (en\<lparr>en_configFile := (case setting ''config'' args of None \<Rightarrow> '''' | Some file \<Rightarrow> file)\<rparr>) stopCh) \<and>
     (setting ''config'' args = None \<and> en_read_file en '''' = Inl err \<longrightarrow>
       controller_binary klog_InitFlags parse lib p args en stopCh s =
         Some (MainReturned (UnableToLoadConfiguration (IOError err)), s1))"
proof -
  obtain s1 where s1: "controller_init lib p s = Some s1" by (rule controller_init_succeeds [OF assms(1,2)])
  note val = config_flag [OF assms(3-5)]
  have eq: "controller_binary klog_InitFlags parse lib p args en stopCh s =
      map_option (\<lambda>outcome. (MainReturned outcome, s1))
        (main (en\<lparr>en_configFile := (case setting ''config'' args of None \<Rightarrow> '''' | Some file \<Rightarrow> file)\<rparr>) stopCh)"
    using s1 val assms(5) by (simp add: controller_binary_def Let_def map_option_case split: option.split)
  have "main (en\<lparr>en_configFile := ''''\<rparr>) stopCh = Some (UnableToLoadConfiguration (IOError err))"
    if "en_read_file en '''' = Inl err"
    using that by (simp add: main_def getConfig_def Load_def fromFile_def)
  with s1 eq show ?thesis by auto
qed

text \<open>
  C32: the timeout written into the scheduler's configuration reaches the plugin. With the types and
  conversions that the \<open>init\<close> of \<open>pkg/apis/scheduler\<close> registers, converting the versioned arguments to
  the internal ones (into any object) gives arguments that the factory registered by the scheduler
  binary under \<open>PluginName\<close> accepts; the plugin it makes has that name and waits for the configured timeout, or a
  minute if none is configured. Given the versioned arguments unconverted, the factory reports an error.
\<close>

theorem scheduler_configures_plugin:
  assumes "scheme_contract lib view" and "\<forall>p \<in> set schemes. binder_args_free (view w) p" and "p \<in> set schemes"
    and "new_client ''application/json'' = Inr client"
  shows "\<exists>w' convert factory i plugin. scheduler_init lib schemes w = Some w' \<and>
     converters (view w') (p, T_V1alpha1BinderArgs, T_InternalBinderArgs) = Some convert \<and>
     convert (V1alpha1Args v) (InternalArgs i0) = Some (None, i) \<and>
     scheduler_options new_client = [WithPlugin ''PlacementRequestBinder'' factory] \<and>
     factory (factory_args i) = Inr plugin \<and> bp_client plugin = client \<and> plugin_Name plugin = ''PlacementRequestBinder'' \<and>
     Timeout (bp_config plugin) = Some (case v1_Timeout v of None \<Rightarrow> 60 * 1000000000 | Some t \<Rightarrow> t) \<and>
     (\<exists>err. factory (factory_args (V1alpha1Args v)) = Inl err)"
proof -
  from scheduler_init_refines [OF assms(1,2)] obtain w' where
    w': "scheduler_init lib schemes w = Some w'" "view w' = fold register_binder_args schemes (view w)" by blast
  have "converters (view w') (p, T_V1alpha1BinderArgs, T_InternalBinderArgs) = Some v1alpha1ToInternal_func"
    unfolding w'(2) using fold_register_converters [of p schemes "view w"] assms(3) by blast
  moreover obtain i where i: "v1alpha1ToInternal_func (V1alpha1Args v) (InternalArgs i0) = Some (None, InternalArgs i)"
    "Timeout i = v1_Timeout v" by (simp add: conversions_eq)
  moreover have "NewBindPlugin new_client (BinderArgs i) = Inr \<lparr>bp_client = client, bp_config = SetDefaults i\<rparr>"
    using assms(4) by (simp add: NewBindPlugin_def)
  moreover have "Timeout (SetDefaults i) = Some (case v1_Timeout v of None \<Rightarrow> 60 * 1000000000 | Some t \<Rightarrow> t)"
    using i(2) by (auto simp: SetDefaults_def Minute_def split: option.split)
  ultimately show ?thesis
    using w'(1) by (intro exI [of _ w'] exI [of _ v1alpha1ToInternal_func] exI [of _ "NewBindPlugin new_client"]
      exI [of _ "InternalArgs i"] exI [of _ "\<lparr>bp_client = client, bp_config = SetDefaults i\<rparr>"])
      (simp add: scheduler_options_def PluginName_def NewBindPlugin_def plugin_Name_def)
qed

text \<open>Concrete parameters: the flags take their defaults, and a client that finds every request pending.\<close>

definition default_flags :: flag_parser where
  "default_flags flags args = Some (map_of (map (\<lambda>f. (fl_name f, fl_default f)) flags))"

lemma default_flags_contract: "flag_contract default_flags (\<lambda>_ _. None)"
proof -
  have "map_of (map (\<lambda>f. (fl_name f, fl_default f)) flags) (fl_name f) = Some (fl_default f)"
    if "f \<in> set flags" "distinct (map fl_name flags)" for f flags
    using that by (intro map_of_is_SomeI) (auto simp: comp_def)
  then show ?thesis by (auto simp: flag_contract_def default_flags_def)
qed

lemma no_klog_flags: "klog_contract (\<lambda>flags. flags)"
  by (simp add: klog_contract_def)

theorem controller_binary_config_witness:
  "\<exists>s1. controller_binary (\<lambda>flags. flags) default_flags map_schemes 0 []
      (sample_environment\<lparr>en_read_file := (\<lambda>_. Inl ''no such file'')\<rparr>) 0 new_schemes =
     Some (MainReturned (UnableToLoadConfiguration (IOError ''no such file'')), s1)"
proof -
  have "\<forall>gv t. (0, gv, t) \<notin> known new_schemes" by (simp add: new_schemes_def)
  from controller_binary_config [OF map_schemes_contract this no_klog_flags default_flags_contract, of "[]" _
    "sample_environment\<lparr>en_read_file := (\<lambda>_. Inl ''no such file'')\<rparr>" 0 "''no such file''"]
  show ?thesis by (auto simp: default_flags_def)
qed

theorem scheduler_configures_plugin_witness:
  "\<exists>factory i plugin. scheduler_options (\<lambda>_. Inr (pending_client done_request)) = [WithPlugin ''PlacementRequestBinder'' factory] \<and>
     v1alpha1ToInternal_func (V1alpha1Args \<lparr>v1_TypeMeta = ('''', ''''), v1_Timeout = None\<rparr>) (InternalArgs \<lparr>args_TypeMeta = ('''', ''''), Timeout = None\<rparr>) = Some (None, i) \<and>
     factory (factory_args i) = Inr plugin \<and> Timeout (bp_config plugin) = Some 60000000000"
proof -
  have "\<forall>p \<in> set [0]. binder_args_free new_schemes p"
    by (simp add: binder_args_free_def registrable_def new_schemes_def group_version_defs)
  from scheduler_configures_plugin [OF map_schemes_contract this, of 0 "\<lambda>_. Inr (pending_client done_request)" _
    "\<lparr>v1_TypeMeta = ('''', ''''), v1_Timeout = None\<rparr>" "\<lparr>args_TypeMeta = ('''', ''''), Timeout = None\<rparr>"]
  show ?thesis
    by (auto simp: map_schemes_def v1alpha1_AddToScheme_def v1alpha1_addKnownTypes_def RegisterConversions_def add_converter_def
      split: if_splits option.splits prod.splits bind_splits)
qed

end
