(* ===== verification/Arbiter.thy ===== *)
theory Arbiter
  imports Controller
begin

text \<open>
  What the controller promises, without queues, readers, goroutines and channels: an arbiter between
  schedulers. Requests arrive; each is ignored, refused or admitted, by fixed rules on the request
  alone; of the admitted requests of one scheduler the oldest is taken first, and the one that was
  taken is served before the next is taken. The theory \<open>Controller_System\<close> shows that the controller,
  in every interleaving of its goroutines, does nothing else; here are the consequences for every
  request that arrives.
\<close>

section \<open>The verdict on a request\<close>

text \<open>The configured schedulers with the size each allows; why a request is refused, if it is.\<close>

type_synonym limits = "string \<rightharpoonup> int"

definition refusal :: "limits \<Rightarrow> PlacementRequest \<Rightarrow> (string \<times> string) option" where
  "refusal L pr =
     (if SchedulerName (Spec pr) = '''' then None
      else case L (SchedulerName (Spec pr)) of
        None \<Rightarrow> Some (''QueueNotFound'', ''Scheduler queue not found'')
      | Some m \<Rightarrow>
          if int (length (Bindings (Spec pr))) > m then Some (''PlacementRequestTooLarge'', ''Placement request too large'')
          else None)"

definition admitted :: "limits \<Rightarrow> PlacementRequest \<Rightarrow> bool" where
  "admitted L pr \<longleftrightarrow> SchedulerName (Spec pr) \<noteq> '''' \<and> refusal L pr = None"

definition refused_status :: "PlacementRequest \<Rightarrow> string \<times> string \<Rightarrow> PlacementRequest" where
  "refused_status pr why =
     pr\<lparr>Status := (Status pr)\<lparr>Result := PlacementRequestResultRejected, Reason := fst why, Message := snd why\<rparr>\<rparr>"

lemma admitted_limit:
  "admitted L pr \<longleftrightarrow> SchedulerName (Spec pr) \<noteq> '''' \<and>
     (\<exists>m. L (SchedulerName (Spec pr)) = Some m \<and> int (length (Bindings (Spec pr))) \<le> m)"
  by (auto simp: admitted_def refusal_def split: option.splits)

section \<open>The arbiter\<close>

record arbiter =
  ar_arrived :: "PlacementRequest list"
  ar_refused :: "PlacementRequest list"
  ar_waiting :: "string \<Rightarrow> PlacementRequest multiset"
  ar_serving :: "PlacementRequest option"
  ar_served :: "PlacementRequest list"
  ar_dropped :: "PlacementRequest list"
  ar_stopped :: bool

inductive arbiter_step :: "limits \<Rightarrow> arbiter \<Rightarrow> arbiter \<Rightarrow> bool" for L where
  ignore: "SchedulerName (Spec pr) = '''' \<Longrightarrow> arbiter_step L s (s\<lparr>ar_arrived := ar_arrived s @ [pr]\<rparr>)"
| refuse: "refusal L pr = Some why \<Longrightarrow>
    arbiter_step L s (s\<lparr>ar_arrived := ar_arrived s @ [pr], ar_refused := ar_refused s @ [refused_status pr why]\<rparr>)"
| admit: "admitted L pr \<Longrightarrow> name = SchedulerName (Spec pr) \<Longrightarrow>
    arbiter_step L s (s\<lparr>ar_arrived := ar_arrived s @ [pr],
      ar_waiting := (ar_waiting s)(name := add_mset pr (ar_waiting s name))\<rparr>)"
| take: "ar_serving s = None \<Longrightarrow> pr \<in># ar_waiting s name \<Longrightarrow> \<forall>x. x \<in># ar_waiting s name \<longrightarrow> age_rank pr \<le> age_rank x \<Longrightarrow>
    arbiter_step L s (s\<lparr>ar_waiting := (ar_waiting s)(name := ar_waiting s name - {#pr#}), ar_serving := Some pr\<rparr>)"
| serve: "ar_serving s = Some pr \<Longrightarrow>
    arbiter_step L s (s\<lparr>ar_serving := None, ar_served := ar_served s @ [pr]\<rparr>)"
| drop: "ar_serving s = Some pr \<Longrightarrow> ar_stopped s \<Longrightarrow>
    arbiter_step L s (s\<lparr>ar_serving := None, ar_dropped := ar_dropped s @ [pr]\<rparr>)"
| stop: "arbiter_step L s (s\<lparr>ar_stopped := True\<rparr>)"

definition arbiter_start :: arbiter where
  "arbiter_start = \<lparr>ar_arrived = [], ar_refused = [], ar_waiting = (\<lambda>_. {#}), ar_serving = None, ar_served = [],
     ar_dropped = [], ar_stopped = False\<rparr>"

section \<open>Every request is accounted for\<close>

text \<open>The request taken but not yet served, as a multiset, and the requests of one scheduler.\<close>

definition taken :: "arbiter \<Rightarrow> PlacementRequest multiset" where
  "taken s = (case ar_serving s of None \<Rightarrow> {#} | Some pr \<Rightarrow> {#pr#})"

definition of_scheduler :: "string \<Rightarrow> PlacementRequest multiset \<Rightarrow> PlacementRequest multiset" where
  "of_scheduler name M = filter_mset (\<lambda>pr. SchedulerName (Spec pr) = name) M"

lemma of_scheduler_simps [simp]:
  "of_scheduler name {#} = {#}" "of_scheduler name (M + N) = of_scheduler name M + of_scheduler name N"
  "of_scheduler name (add_mset pr M) =
     (if SchedulerName (Spec pr) = name then add_mset pr (of_scheduler name M) else of_scheduler name M)"
  by (simp_all add: of_scheduler_def)

definition arbiter_inv :: "limits \<Rightarrow> arbiter \<Rightarrow> bool" where
  "arbiter_inv L s \<longleftrightarrow>
     ar_refused s = List.map_filter (\<lambda>pr. map_option (refused_status pr) (refusal L pr)) (ar_arrived s) \<and>
     (\<forall>name. of_scheduler name (mset (filter (admitted L) (ar_arrived s))) =
        of_scheduler name (mset (ar_served s) + mset (ar_dropped s) + taken s) + ar_waiting s name) \<and>
     (\<forall>name x. x \<in># ar_waiting s name \<longrightarrow> SchedulerName (Spec x) = name) \<and>
     (ar_dropped s \<noteq> [] \<longrightarrow> ar_stopped s)"

lemma map_filter_snoc:
  "List.map_filter f (xs @ [x]) = List.map_filter f xs @ (case f x of None \<Rightarrow> [] | Some y \<Rightarrow> [y])"
  by (induction xs) (auto simp: List.map_filter_simps split: option.splits)

lemma arbiter_step_inv:
  assumes "arbiter_step L s s'" and "arbiter_inv L s"
  shows "arbiter_inv L s'"
  using assms(1)
proof cases
  case (ignore pr)
  then show ?thesis using assms(2) by (simp add: arbiter_inv_def taken_def map_filter_snoc admitted_def refusal_def)
next
  case (refuse pr why)
  then show ?thesis using assms(2) by (simp add: arbiter_inv_def taken_def map_filter_snoc admitted_def)
next
  case (admit pr name)
  then have "refusal L pr = None" by (simp add: admitted_def)
  with admit show ?thesis using assms(2) by (auto simp: arbiter_inv_def taken_def map_filter_snoc)
next
  case (take pr name)
  then have "SchedulerName (Spec pr) = name" "ar_waiting s name = add_mset pr (ar_waiting s name - {#pr#})"
    using assms(2) by (auto simp: arbiter_inv_def)
  then show ?thesis using take assms(2) by (auto simp: arbiter_inv_def taken_def dest: in_diffD)
next
  case (serve pr)
  then show ?thesis using assms(2) by (auto simp: arbiter_inv_def taken_def)
next
  case (drop pr)
  then show ?thesis using assms(2) by (auto simp: arbiter_inv_def taken_def)
next
  case stop
  then show ?thesis using assms(2) by (auto simp: arbiter_inv_def taken_def)
qed

lemma arbiter_reaches_inv:
  assumes "(arbiter_step L)\<^sup>*\<^sup>* arbiter_start s"
  shows "arbiter_inv L s"
  using assms
proof (induction rule: rtranclp_induct)
  case base
  show ?case by (simp add: arbiter_inv_def arbiter_start_def taken_def List.map_filter_simps)
next
  case (step s s')
  then show ?case using arbiter_step_inv by blast
qed

text \<open>A multiset is the union of what it holds of each scheduler.\<close>

lemma of_scheduler_all: "(\<And>name. of_scheduler name M = of_scheduler name N) \<Longrightarrow> M = N"
proof (rule multiset_eqI)
  fix x
  assume "\<And>name. of_scheduler name M = of_scheduler name N"
  then have "count (of_scheduler (SchedulerName (Spec x)) M) x = count (of_scheduler (SchedulerName (Spec x)) N) x" by simp
  then show "count M x = count N x" by (simp add: of_scheduler_def)
qed

lemma arbiter_settled:
  assumes "arbiter_inv L s" and "\<forall>name. ar_waiting s name = {#}" and "ar_serving s = None"
  shows "mset (filter (admitted L) (ar_arrived s)) = mset (ar_served s) + mset (ar_dropped s)"
  by (rule of_scheduler_all) (use assms in \<open>simp add: arbiter_inv_def taken_def\<close>)

end
