(* ===== verification/Controller_System.thy ===== *)
theory Controller_System
  imports Controller_Progress Arbiter
begin

text \<open>
  The whole controller: the informer's handler \<open>enqueue\<close> (\<open>pkg/controller/controller.go\<close>), the iterator
  and the loop of \<open>Run\<close> together. The informer reports new requests in any order and at any time; a
  request is ignored, rejected through the API, or pushed to the queue of its scheduler, the push being
  cut, as in \<open>Queue_Iterator\<close>, into the insertion, the calls of the handlers and the release of the
  mutex. The theory shows that \<open>enqueue\<close> is a sequence of such steps, that the system does what the
  arbiter of \<open>Arbiter\<close> does, and that every request reported is answered in the end.
\<close>

section \<open>The steps of the system\<close>

record 'w system =
  sy_run :: "'w run_state"
  sy_events :: "PlacementRequest list"
  sy_rejected :: "PlacementRequest list"

inductive system_step ::
  "'w api \<Rightarrow> reader_state option set \<Rightarrow> (string \<rightharpoonup> QueueConfig) \<Rightarrow> 'w system \<Rightarrow> 'w system \<Rightarrow> bool" for api fresh queues where
  own: "controller_step api fresh (sy_run y) rs' \<Longrightarrow> system_step api fresh queues y (y\<lparr>sy_run := rs'\<rparr>)"
| background: "env_step (rs_sys (sy_run y)) s' \<Longrightarrow> pushed s' = pushed (rs_sys (sy_run y)) \<Longrightarrow>
    system_step api fresh queues y (y\<lparr>sy_run := (sy_run y)\<lparr>rs_sys := s'\<rparr>\<rparr>)"
| event_ignored: "SchedulerName (Spec pr) = '''' \<Longrightarrow>
    system_step api fresh queues y (y\<lparr>sy_events := sy_events y @ [pr]\<rparr>)"
| event_not_found: "SchedulerName (Spec pr) \<noteq> '''' \<Longrightarrow> queues (SchedulerName (Spec pr)) = None \<Longrightarrow>
    TryToRejectPlacementRequest api pr ''QueueNotFound'' ''Scheduler queue not found'' (rs_world (sy_run y)) = (pr', w') \<Longrightarrow>
    system_step api fresh queues y
      (y\<lparr>sy_run := (sy_run y)\<lparr>rs_world := w'\<rparr>, sy_events := sy_events y @ [pr], sy_rejected := sy_rejected y @ [pr']\<rparr>)"
| event_too_large: "SchedulerName (Spec pr) \<noteq> '''' \<Longrightarrow> queues (SchedulerName (Spec pr)) = Some qcfg \<Longrightarrow>
    int (length (Bindings (Spec pr))) > sint (MaxSize qcfg) \<Longrightarrow>
    TryToRejectPlacementRequest api pr ''PlacementRequestTooLarge'' ''Placement request too large'' (rs_world (sy_run y)) = (pr', w') \<Longrightarrow>
    system_step api fresh queues y
      (y\<lparr>sy_run := (sy_run y)\<lparr>rs_world := w'\<rparr>, sy_events := sy_events y @ [pr], sy_rejected := sy_rejected y @ [pr']\<rparr>)"
| event_pushed: "SchedulerName (Spec pr) \<noteq> '''' \<Longrightarrow> queues (SchedulerName (Spec pr)) = Some qcfg \<Longrightarrow>
    \<not> int (length (Bindings (Spec pr))) > sint (MaxSize qcfg) \<Longrightarrow> QueueRef qcfg = Some a \<Longrightarrow>
    s = rs_sys (sy_run y) \<Longrightarrow> a < length (store s) \<Longrightarrow> mid s a = None \<Longrightarrow>
    Push (\<lambda>_ x. x) (store s ! a) () (Some pr) = Some (q', ()) \<Longrightarrow>
    system_step api fresh queues y
      (y\<lparr>sy_run := (sy_run y)\<lparr>rs_sys := s\<lparr>store := (store s)[a := q'],
           mid := (mid s)(a := Some (length (pushHandlers (store s ! a)))), pushed := add_mset pr (pushed s)\<rparr>\<rparr>,
         sy_events := sy_events y @ [pr]\<rparr>)"

definition system_start :: "unit qstore \<Rightarrow> 'w \<Rightarrow> 'w system" where
  "system_start st w = \<lparr>sy_run = run_start st w, sy_events = [], sy_rejected = []\<rparr>"

definition system_reaches ::
  "'w api \<Rightarrow> reader_state option set \<Rightarrow> (string \<rightharpoonup> QueueConfig) \<Rightarrow> unit qstore \<Rightarrow> 'w \<Rightarrow> 'w system \<Rightarrow> bool" where
  "system_reaches api fresh queues st w y \<longleftrightarrow> (system_step api fresh queues)\<^sup>*\<^sup>* (system_start st w) y"

section \<open>The invariant of Run\<close>

lemma run_inv_world [simp]: "run_inv api fresh st (rs\<lparr>rs_world := w\<rparr>) = run_inv api fresh st rs"
  by (simp add: run_inv_def)

lemma system_step_run_inv:
  assumes "system_step api fresh queues y y'" and "run_inv api fresh st (sy_run y)"
  shows "run_inv api fresh st (sy_run y')"
  using assms(1)
proof cases
  case (own rs')
  then show ?thesis using run_step_inv [OF controller_run_step] assms(2) by simp
next
  case (background s')
  then show ?thesis using run_step_inv [OF run_step.others assms(2)] by simp
next
  case (event_pushed pr qcfg a s q')
  then show ?thesis using run_step_inv [OF run_step.others [OF env_step.push] assms(2)] by simp
qed (use assms(2) in simp_all)

lemma system_reaches_run_inv:
  assumes "system_reaches api fresh queues st w y"
  shows "run_inv api fresh st (sy_run y)"
  using assms unfolding system_reaches_def
proof (induction rule: rtranclp_induct)
  case base
  show ?case using run_reaches_inv [of api fresh st w "run_start st w"] by (simp add: system_start_def run_reaches_def)
next
  case (step y y')
  then show ?case using system_step_run_inv by blast
qed

section \<open>The system as an arbiter\<close>

definition size_limits :: "(string \<rightharpoonup> QueueConfig) \<Rightarrow> limits" where
  "size_limits queues name = map_option (\<lambda>q. sint (MaxSize q)) (queues name)"

text \<open>The requests in the queue of a scheduler, and the one the iterator holds.\<close>

definition queued :: "(string \<rightharpoonup> QueueConfig) \<Rightarrow> unit qstore \<Rightarrow> string \<Rightarrow> PlacementRequest multiset" where
  "queued queues st name =
     (case queues name of
        None \<Rightarrow> {#}
      | Some q \<Rightarrow> (case QueueRef q of None \<Rightarrow> {#} | Some a \<Rightarrow> requests (st ! a)))"

definition holding :: "'r sys \<Rightarrow> PlacementRequest option" where
  "holding s = (case pc s of Reading (Return (Some pr) r) \<Rightarrow> Some pr | Sending pr r \<Rightarrow> Some pr | _ \<Rightarrow> None)"

definition arbiter_of :: "(string \<rightharpoonup> QueueConfig) \<Rightarrow> 'w system \<Rightarrow> arbiter" where
  "arbiter_of queues y =
     (let s = rs_sys (sy_run y) in
      \<lparr>ar_arrived = sy_events y, ar_refused = sy_rejected y, ar_waiting = queued queues (store s),
       ar_serving = holding s, ar_served = delivered s, ar_dropped = dropped s, ar_stopped = cancelled s\<rparr>)"

lemma in_hand_holding: "in_hand s = (case holding s of None \<Rightarrow> {#} | Some pr \<Rightarrow> {#pr#})"
  by (auto simp: in_hand_def holding_def split: it_pc.splits prog.splits option.splits)

lemma holding_eqI: "in_hand s = in_hand s' \<Longrightarrow> holding s = holding s'"
  by (auto simp: in_hand_holding split: option.splits)

text \<open>Each configured scheduler has a queue of its own in the store, and each queue has a scheduler.\<close>

definition routes :: "(string \<rightharpoonup> QueueConfig) \<Rightarrow> nat \<Rightarrow> bool" where
  "routes queues n \<longleftrightarrow>
     (\<forall>name q. queues name = Some q \<longrightarrow> (\<exists>a < n. QueueRef q = Some a)) \<and>
     (\<forall>name name' q q'. queues name = Some q \<longrightarrow> queues name' = Some q' \<longrightarrow> QueueRef q = QueueRef q' \<longrightarrow> name = name') \<and>
     (\<forall>a < n. \<exists>name q. queues name = Some q \<and> QueueRef q = Some a)"

lemma queued_update:
  assumes "routes queues (length st)" and "queues name = Some q" and "QueueRef q = Some a"
  shows "queued queues (st[a := q']) = (queued queues st)(name := requests q')"
proof
  fix name'
  have a: "a < length st" using assms by (fastforce simp: routes_def)
  show "queued queues (st[a := q']) name' = ((queued queues st)(name := requests q')) name'"
  proof (cases "name' = name")
    case True
    then show ?thesis using assms(2,3) a by (simp add: queued_def)
  next
    case False
    then have "QueueRef q1 \<noteq> Some a" if "queues name' = Some q1" for q1
      using assms that unfolding routes_def by metis
    then show ?thesis using False by (auto simp: queued_def split: option.splits)
  qed
qed

text \<open>What a step of the iterator does to the requests.\<close>

lemma sys_inv_accounted:
  "sys_inv I S s \<Longrightarrow> pushed s = mset (delivered s) + mset (dropped s) + in_hand s + contents (store s)"
  by (simp add: sys_inv_def accounted_def)

lemma ref_Pop_cases:
  assumes "ref_Pop st (Some a) = Some (res, st')" and "store_inv st"
  shows "a < length st \<and> (if Len (st ! a) = 0 then res = None \<and> st' = st
    else \<exists>pr q'. res = Some pr \<and> st' = st[a := q'] \<and> requests (st ! a) = add_mset pr (requests q') \<and>
      (\<forall>x. x \<in># requests (st ! a) \<longrightarrow> age_rank pr \<le> age_rank x))"
proof -
  have a: "a < length st" using assms(1) by (auto simp: ref_Pop_def deref_def split: if_splits)
  show ?thesis
  proof (cases "Len (st ! a) = 0")
    case True
    then show ?thesis using a assms(1) ref_Pop_empty [OF a] by simp
  next
    case False
    then show ?thesis using a assms(1) ref_Pop_nonempty [OF assms(2) a False] by auto
  qed
qed

lemma it_step_effect:
  assumes step: "it_step prog fresh s s'" and inv: "sys_inv I S s" "sys_inv I S s'"
  shows "cancelled s' = cancelled s \<and>
    ((store s' = store s \<and> holding s' = holding s \<and> delivered s' = delivered s \<and> dropped s' = dropped s) \<or>
     (\<exists>a pr q'. a < length (store s) \<and> store s' = (store s)[a := q'] \<and> requests (store s ! a) = add_mset pr (requests q') \<and>
        (\<forall>x. x \<in># requests (store s ! a) \<longrightarrow> age_rank pr \<le> age_rank x) \<and>
        holding s = None \<and> holding s' = Some pr \<and> delivered s' = delivered s \<and> dropped s' = dropped s) \<or>
     (\<exists>pr. store s' = store s \<and> holding s = Some pr \<and> holding s' = None \<and>
        (delivered s' = delivered s @ [pr] \<and> dropped s' = dropped s \<or>
         delivered s' = delivered s \<and> dropped s' = dropped s @ [pr] \<and> cancelled s)))"
proof -
  note acc = sys_inv_accounted [OF inv(1)] sys_inv_accounted [OF inv(2)]
  have same: "holding s' = holding s"
    if "store s' = store s" "delivered s' = delivered s" "dropped s' = dropped s" "pushed s' = pushed s"
    using acc that by (intro holding_eqI) simp
  show ?thesis using step
  proof (cases rule: it_cases)
    case (read_pop a k res st')
    have "store_inv (store s)" using inv(1) by (simp add: sys_inv_def store_ok_def)
    note pop = ref_Pop_cases [OF read_pop(4) this]
    have nil: "holding s = None" using read_pop(2) by (simp add: holding_def)
    show ?thesis
    proof (cases "Len (store s ! a) = 0")
      case True
      then show ?thesis using pop same read_pop(1) by simp
    next
      case False
      with pop obtain pr q' where p: "res = Some pr" "st' = (store s)[a := q']" "requests (store s ! a) = add_mset pr (requests q')"
        "\<forall>x. x \<in># requests (store s ! a) \<longrightarrow> age_rank pr \<le> age_rank x" by auto
      have "contents (store s) = add_mset pr (contents st')"
        using contents_update [of a "store s" q'] pop p(2,3) by simp
      then have "in_hand s' = {#pr#}" using acc nil read_pop(1) by (simp add: in_hand_holding [of s])
      then have "holding s' = Some pr" by (simp add: in_hand_holding split: option.splits)
      moreover have "store s' = (store s)[a := q']" "delivered s' = delivered s" "dropped s' = dropped s"
        "cancelled s' = cancelled s" "a < length (store s)" using read_pop(1) p(2) pop by simp_all
      ultimately show ?thesis using nil p(3,4) by blast
    qed
  next
    case (send pr r)
    then have "holding s = Some pr" by (simp add: holding_def)
    moreover from this have "in_hand s' = {#}" using acc send by (simp add: in_hand_holding [of s])
    then have "holding s' = None" by (simp add: in_hand_holding split: option.splits)
    ultimately show ?thesis using send by simp
  next
    case (send_cancelled pr r)
    then have "holding s = Some pr" by (simp add: holding_def)
    moreover from this have "in_hand s' = {#}" using acc send_cancelled by (simp add: in_hand_holding [of s])
    then have "holding s' = None" by (simp add: in_hand_holding split: option.splits)
    ultimately show ?thesis using send_cancelled by simp
  qed (use same in auto)
qed

lemma it_step_simulates:
  assumes step: "it_step prog fresh (rs_sys (sy_run y)) (rs_sys (sy_run y'))"
    and inv: "sys_inv I S (rs_sys (sy_run y))" "sys_inv I S (rs_sys (sy_run y'))"
    and r: "routes queues (length (store (rs_sys (sy_run y))))"
    and e: "sy_events y' = sy_events y" "sy_rejected y' = sy_rejected y"
  shows "(arbiter_step L)\<^sup>=\<^sup>= (arbiter_of queues y) (arbiter_of queues y')"
proof -
  let ?s = "rs_sys (sy_run y)" and ?s' = "rs_sys (sy_run y')" and ?A = "arbiter_of queues y"
  note eff = it_step_effect [OF step inv]
  consider (same) "store ?s' = store ?s" "holding ?s' = holding ?s" "delivered ?s' = delivered ?s" "dropped ?s' = dropped ?s"
    | (popped) a pr q' where "a < length (store ?s)" "store ?s' = (store ?s)[a := q']"
        "requests (store ?s ! a) = add_mset pr (requests q')" "\<forall>x. x \<in># requests (store ?s ! a) \<longrightarrow> age_rank pr \<le> age_rank x"
        "holding ?s = None" "holding ?s' = Some pr" "delivered ?s' = delivered ?s" "dropped ?s' = dropped ?s"
    | (sent) pr where "store ?s' = store ?s" "holding ?s = Some pr" "holding ?s' = None"
        "delivered ?s' = delivered ?s @ [pr]" "dropped ?s' = dropped ?s"
    | (lost) pr where "store ?s' = store ?s" "holding ?s = Some pr" "holding ?s' = None"
        "delivered ?s' = delivered ?s" "dropped ?s' = dropped ?s @ [pr]" "cancelled ?s"
    using eff by blast
  then show ?thesis
  proof cases
    case same
    then show ?thesis using eff e by (simp add: arbiter_of_def Let_def)
  next
    case (popped a pr q')
    then obtain name q where q: "queues name = Some q" "QueueRef q = Some a" using r by (auto simp: routes_def)
    then have w: "ar_waiting ?A name = add_mset pr (requests q')" using popped(3) by (simp add: arbiter_of_def Let_def queued_def)
    have "arbiter_of queues y' = ?A\<lparr>ar_waiting := (ar_waiting ?A)(name := ar_waiting ?A name - {#pr#}), ar_serving := Some pr\<rparr>"
      unfolding w using popped eff e queued_update [OF r q] by (simp add: arbiter_of_def Let_def)
    moreover have "ar_serving ?A = None" using popped by (simp add: arbiter_of_def Let_def)
    moreover have "\<forall>x. x \<in># ar_waiting ?A name \<longrightarrow> age_rank pr \<le> age_rank x" using popped(3,4) w by simp
    ultimately show ?thesis using w arbiter_step.take [of ?A pr name L] by simp
  next
    case (sent pr)
    then have "arbiter_of queues y' = ?A\<lparr>ar_serving := None, ar_served := ar_served ?A @ [pr]\<rparr>"
      using eff e by (simp add: arbiter_of_def Let_def)
    moreover have "ar_serving ?A = Some pr" using sent by (simp add: arbiter_of_def Let_def)
    ultimately show ?thesis using arbiter_step.serve by simp
  next
    case (lost pr)
    then have "arbiter_of queues y' = ?A\<lparr>ar_serving := None, ar_dropped := ar_dropped ?A @ [pr]\<rparr>"
      using eff e by (simp add: arbiter_of_def Let_def)
    moreover have "ar_serving ?A = Some pr" "ar_stopped ?A" using lost by (simp_all add: arbiter_of_def Let_def)
    ultimately show ?thesis using arbiter_step.drop by simp
  qed
qed

lemma TryToReject_result:
  "TryToRejectPlacementRequest api pr reason msg w = (pr', w') \<Longrightarrow> pr' = refused_status pr (reason, msg)"
  by (auto simp: TryToRejectPlacementRequest_def refused_status_def Let_def split: prod.splits)

lemma system_step_simulates:
  assumes step: "system_step api fresh queues y y'"
    and inv: "sys_inv I S (rs_sys (sy_run y))" "sys_inv I S (rs_sys (sy_run y'))"
    and r: "routes queues (length (store (rs_sys (sy_run y))))"
  shows "(arbiter_step (size_limits queues))\<^sup>=\<^sup>= (arbiter_of queues y) (arbiter_of queues y')"
  using step
proof cases
  case (own rs')
  from controller_step_projects [OF own(2)] show ?thesis
  proof
    assume "it_step read_prog fresh (rs_sys (sy_run y)) (rs_sys rs') \<and> rs_ctl rs' = rs_ctl (sy_run y)"
    then have "it_step read_prog fresh (rs_sys (sy_run y)) (rs_sys (sy_run y'))" using own(1) by simp
    then show ?thesis using own(1) by (intro it_step_simulates [OF _ inv r]) simp_all
  qed (use own(1) in \<open>simp add: arbiter_of_def\<close>)
next
  case (background s')
  from background(2) show ?thesis
  proof (cases rule: env_cases)
    case (push a pr q')
    then show ?thesis using background(3) by simp
  next
    case cancel
    then show ?thesis using background(1) arbiter_step.stop [of _ "arbiter_of queues y"] by (simp add: arbiter_of_def Let_def holding_def)
  qed (use background(1) in \<open>simp_all add: arbiter_of_def Let_def holding_def\<close>)
next
  case (event_ignored pr)
  then show ?thesis using arbiter_step.ignore [of pr _ "arbiter_of queues y"] by (simp add: arbiter_of_def Let_def)
next
  case (event_not_found pr pr' w')
  then have "refusal (size_limits queues) pr = Some (''QueueNotFound'', ''Scheduler queue not found'')"
    by (simp add: refusal_def size_limits_def)
  from arbiter_step.refuse [OF this, of "arbiter_of queues y"] show ?thesis
    using event_not_found(1) TryToReject_result [OF event_not_found(4)] by (simp add: arbiter_of_def Let_def)
next
  case (event_too_large pr qcfg pr' w')
  then have "refusal (size_limits queues) pr = Some (''PlacementRequestTooLarge'', ''Placement request too large'')"
    by (simp add: refusal_def size_limits_def)
  from arbiter_step.refuse [OF this, of "arbiter_of queues y"] show ?thesis
    using event_too_large(1) TryToReject_result [OF event_too_large(5)] by (simp add: arbiter_of_def Let_def)
next
  case (event_pushed pr qcfg a s q')
  let ?name = "SchedulerName (Spec pr)"
  have ok: "store_ok S (store s)" using inv(1) event_pushed(6) by (simp add: sys_inv_def)
  have "requests q' = add_mset pr (queued queues (store s) ?name)"
    using push_effect [OF ok event_pushed(7,9)] event_pushed(3,5) by (simp add: queued_def)
  then have w: "queued queues ((store s)[a := q']) = (queued queues (store s))(?name := add_mset pr (queued queues (store s) ?name))"
    using queued_update [of queues "store s" ?name qcfg a q'] r event_pushed by simp
  have "admitted (size_limits queues) pr" using event_pushed by (simp add: admitted_limit size_limits_def)
  from arbiter_step.admit [OF this refl, of "arbiter_of queues y"] show ?thesis
    using event_pushed(1,6) w by (simp add: arbiter_of_def Let_def holding_def)
qed

section \<open>The system of a controller made by New\<close>

lemma New_config:
  assumes "New informer api opts cfg [] = Some (Inr c, st')"
  obtains cs st1 f where "QueueConfigFromV1Alpha1Config [] cfg = Some (cs, st1)" "ctl_queues c = ToMap cs"
    "NewQueueIterator st1 cs (map WithReaderFactory [f]) = Some (Inr (ctl_iterator c), st')"
    "refs_ok st1 cs" "distinct (config_refs cs)"
proof -
  from New_outcome [of "[]" cfg informer api opts] assms obtain cs st1 f where
    q: "QueueConfigFromV1Alpha1Config [] cfg = Some (cs, st1)" "ctl_queues c = ToMap cs"
      "NewQueueIterator st1 cs (map WithReaderFactory [f]) = Some (Inr (ctl_iterator c), st')"
    by (auto simp: store_inv_def split: if_splits option.splits)
  moreover have "refs_ok st1 cs" "distinct (config_refs cs)" using from_config_refs [OF q(1)] by (simp_all add: store_inv_def)
  ultimately show ?thesis using that by blast
qed

lemma New_queues:
  assumes "New informer api opts cfg [] = Some (Inr c, st')"
  shows "ctl_queues c = ToMap (it_configs (ctl_iterator c)) \<and> QueueConfigs_Validate (it_configs (ctl_iterator c)) = None"
  by (rule New_config [OF assms], drule NewQueueIterator_success) simp_all

lemma New_routes:
  assumes "New informer api opts cfg [] = Some (Inr c, st')"
  shows "routes (ctl_queues c) (length st')"
proof -
  let ?cs = "it_configs (ctl_iterator c)"
  have names: "distinct (map q_SchedulerName ?cs)" and refs: "\<forall>q \<in> set ?cs. QueueRef q \<noteq> None"
    using New_queues [OF assms] by (auto simp: QueueConfigs_Validate_None config_ok_def)
  have dr: "distinct (map QueueRef ?cs)" by (rule New_parts [OF assms]) (simp add: config_refs_def)
  have look: "ctl_queues c name = Some q \<longleftrightarrow> q \<in> set ?cs \<and> q_SchedulerName q = name" for name q
    using New_queues [OF assms] ToMap_distinct [OF names] by simp
  have "\<exists>a < length st'. QueueRef q = Some a" if "q \<in> set ?cs" for q
  proof -
    from refs that obtain a where "QueueRef q = Some a" by auto
    moreover from this that have "a \<in> addresses ?cs" by (auto simp: addresses_def)
    ultimately show ?thesis using New_addresses [OF assms] by auto
  qed
  moreover have "q = q'" if "q \<in> set ?cs" "q' \<in> set ?cs" "QueueRef q = QueueRef q'" for q q'
    using dr that by (metis distinct_map inj_onD)
  moreover have "\<exists>q \<in> set ?cs. QueueRef q = Some a" if "a < length st'" for a
  proof -
    have "a \<in> addresses ?cs" using that New_addresses [OF assms] by simp
    then show ?thesis by (simp add: addresses_def)
  qed
  ultimately show ?thesis unfolding routes_def look by (intro conjI; blast)
qed

lemma system_inv:
  assumes "New informer api opts cfg [] = Some (Inr c, st')" and "factory_weights (ctl_iterator c)"
    and "system_reaches api' (new_readers oor (ctl_iterator c)) (ctl_queues c) st' w y"
  shows "sys_inv (reader_ok (it_configs (ctl_iterator c))) (addresses (it_configs (ctl_iterator c))) (rs_sys (sy_run y)) \<and>
    length (store (rs_sys (sy_run y))) = length st'"
  using run_inv_sys_inv [OF assms(1,2) system_reaches_run_inv [OF assms(3)]] system_reaches_run_inv [OF assms(3)]
  by (auto simp: run_inv_def dest: reaches_length)

lemma contents_replicate: "requests q = {#} \<Longrightarrow> contents (replicate n q) = {#}"
  unfolding contents_def by (induction n) simp_all

lemma New_store_empty:
  assumes "New informer api opts cfg [] = Some (Inr c, st')"
  shows "contents st' = {#}" "queued (ctl_queues c) st' = (\<lambda>_. {#})"
proof -
  from New_config [OF assms] obtain cs st1 f where
    q: "QueueConfigFromV1Alpha1Config [] cfg = Some (cs, st1)"
      "NewQueueIterator st1 cs (map WithReaderFactory [f]) = Some (Inr (ctl_iterator c), st')"
      "refs_ok st1 cs" "distinct (config_refs cs)" by blast
  have "contents st' = contents st1" using NewQueueIterator_success [OF q(2-4)] by simp
  moreover have "contents st1 = {#}"
    using q(1) by (auto simp: QueueConfigFromV1Alpha1Config_eq requests_def intro: contents_replicate)
  ultimately show c: "contents st' = {#}" by simp
  have "requests (st' ! a) = {#}" if "a < length st'" for a
    using c contents_update [OF that, of "\<lparr>queue = \<lparr>items = []\<rparr>, pushHandlers = []\<rparr>"] by (simp add: requests_def)
  moreover have "\<exists>a < length st'. QueueRef q = Some a" if "ctl_queues c name = Some q" for name q
    using New_routes [OF assms] that unfolding routes_def by blast
  ultimately show "queued (ctl_queues c) st' = (\<lambda>_. {#})"
    by (intro ext) (fastforce simp: queued_def split: option.split)
qed

lemma system_arbiter:
  assumes "New informer api opts cfg [] = Some (Inr c, st')" and "factory_weights (ctl_iterator c)"
    and "system_reaches api' (new_readers oor (ctl_iterator c)) (ctl_queues c) st' w y"
  shows "(arbiter_step (size_limits (ctl_queues c)))\<^sup>*\<^sup>* arbiter_start (arbiter_of (ctl_queues c) y)"
  using assms(3)[unfolded system_reaches_def]
proof (induction rule: rtranclp_induct)
  case base
  show ?case
    using New_store_empty(2) [OF assms(1)]
    by (simp add: arbiter_of_def arbiter_start_def system_start_def run_start_def start_state_def holding_def)
next
  case (step y y')
  let ?reach = "system_reaches api' (new_readers oor (ctl_iterator c)) (ctl_queues c) st' w"
  have r: "?reach y" "?reach y'" using step(1,2) by (auto simp: system_reaches_def)
  note inv = system_inv [OF assms(1,2) r(1)] system_inv [OF assms(1,2) r(2)]
  have "(arbiter_step (size_limits (ctl_queues c)))\<^sup>=\<^sup>= (arbiter_of (ctl_queues c) y) (arbiter_of (ctl_queues c) y')"
    using system_step_simulates [OF step(2)] inv New_routes [OF assms(1)] by metis
  then show ?case using step.IH by (auto intro: rtranclp.rtrancl_into_rtrancl)
qed

text \<open>What was pushed are the admitted requests among those reported.\<close>

lemma own_step_pushed: "controller_step api fresh rs rs' \<Longrightarrow> pushed (rs_sys rs') = pushed (rs_sys rs)"
  using controller_step_projects [of api fresh rs rs'] it_step_frame [of read_prog fresh "rs_sys rs" "rs_sys rs'"] by metis

lemma system_pushed:
  assumes "system_reaches api fresh queues st w y" and "contents st = {#}"
  shows "pushed (rs_sys (sy_run y)) = mset (filter (admitted (size_limits queues)) (sy_events y))"
  using assms(1) unfolding system_reaches_def
proof (induction rule: rtranclp_induct)
  case base
  show ?case using assms(2) by (simp add: system_start_def run_start_def start_state_def)
next
  case (step y y')
  from step(2) show ?case
  proof cases
    case (own rs')
    then show ?thesis using step.IH own_step_pushed [OF own(2)] by simp
  qed (use step.IH in \<open>simp_all add: admitted_limit size_limits_def\<close>)
qed

section \<open>The handler as a sequence of steps\<close>

lemma one_step: "system_step api fresh queues y y' \<Longrightarrow> (system_step api fresh queues)\<^sup>*\<^sup>* y y'"
  by (rule r_into_rtranclp)

text \<open>The handlers of a push are called, and the mutex is released.\<close>

lemma push_completes:
  assumes "mid (rs_sys (sy_run y)) a = Some k"
  shows "(system_step api fresh queues)\<^sup>*\<^sup>* y
    (y\<lparr>sy_run := (sy_run y)\<lparr>rs_sys := (rs_sys (sy_run y))\<lparr>resume := (Resume ^^ k) (resume (rs_sys (sy_run y))),
       mid := (mid (rs_sys (sy_run y)))(a := None)\<rparr>\<rparr>\<rparr>)"
  using assms
proof (induction k arbitrary: y)
  case 0
  from system_step.background [OF env_step.unlock [OF this], of api fresh queues, THEN one_step]
  show ?case by (simp add: fun_upd_def)
next
  case (Suc k)
  let ?s = "rs_sys (sy_run y)"
  let ?y = "y\<lparr>sy_run := (sy_run y)\<lparr>rs_sys := ?s\<lparr>resume := Resume (resume ?s), mid := (mid ?s)(a := Some k)\<rparr>\<rparr>\<rparr>"
  have "system_step api fresh queues y ?y" using system_step.background [OF env_step.signal [OF Suc.prems]] by simp
  moreover have "(system_step api fresh queues)\<^sup>*\<^sup>* ?y
    (y\<lparr>sy_run := (sy_run y)\<lparr>rs_sys := ?s\<lparr>resume := (Resume ^^ Suc k) (resume ?s), mid := (mid ?s)(a := None)\<rparr>\<rparr>\<rparr>)"
    using Suc.IH [of ?y] by (simp add: funpow_swap1 fun_upd_def cong: if_cong)
  ultimately show ?case by (rule converse_rtranclp_into_rtranclp)
qed

lemma Push_split:
  assumes "Push call q x (Some pr) = Some (q', x')"
  shows "Push (\<lambda>_ u. u) q () (Some pr) = Some (q', ()) \<and> x' = fold call (pushHandlers q) x"
  using assms by (auto simp: Push_def bind_eq_Some_conv)

lemma push_as_steps:
  assumes "SchedulerName (Spec pr) \<noteq> ''''" and "queues (SchedulerName (Spec pr)) = Some q"
    and "\<not> int (length (Bindings (Spec pr))) > sint (MaxSize q)" and "QueueRef q = Some a"
    and "s = rs_sys (sy_run y)" and "a < length (store s)" and "mid s = (\<lambda>_. None)"
    and "Push (\<lambda>_ u. u) (store s ! a) () (Some pr) = Some (q', ())"
  shows "(system_step api fresh queues)\<^sup>*\<^sup>* y
    (y\<lparr>sy_run := (sy_run y)\<lparr>rs_sys := s\<lparr>store := (store s)[a := q'],
         resume := (Resume ^^ length (pushHandlers (store s ! a))) (resume s), pushed := add_mset pr (pushed s)\<rparr>\<rparr>,
       sy_events := sy_events y @ [pr]\<rparr>)"
proof -
  let ?k = "length (pushHandlers (store s ! a))"
  let ?s1 = "s\<lparr>store := (store s)[a := q'], mid := (mid s)(a := Some ?k), pushed := add_mset pr (pushed s)\<rparr>"
  let ?y1 = "y\<lparr>sy_run := (sy_run y)\<lparr>rs_sys := ?s1\<rparr>, sy_events := sy_events y @ [pr]\<rparr>"
  let ?s2 = "?s1\<lparr>resume := (Resume ^^ ?k) (resume s), mid := (mid ?s1)(a := None)\<rparr>"
  have "mid s a = None" using assms(7) by simp
  from system_step.event_pushed [where queues = queues and pr = pr and y = y, OF assms(1-6) this assms(8), of api fresh]
  have "system_step api fresh queues y ?y1" .
  moreover have "(system_step api fresh queues)\<^sup>*\<^sup>* ?y1 (?y1\<lparr>sy_run := (sy_run ?y1)\<lparr>rs_sys := ?s2\<rparr>\<rparr>)"
    using push_completes [of ?y1 a ?k api fresh queues] by simp
  ultimately have "(system_step api fresh queues)\<^sup>*\<^sup>* y (?y1\<lparr>sy_run := (sy_run ?y1)\<lparr>rs_sys := ?s2\<rparr>\<rparr>)"
    by (rule converse_rtranclp_into_rtranclp)
  moreover have "?s2 = s\<lparr>store := (store s)[a := q'], resume := (Resume ^^ ?k) (resume s), pushed := add_mset pr (pushed s)\<rparr>"
    using assms(7) by (cases s) (simp add: fun_upd_idem)
  ultimately show ?thesis by (cases y) simp
qed

section \<open>Properties\<close>

text \<open>
  C1: the controller answers every request. Take a controller made by \<open>New\<close> of a configuration whose
  weights its reader can work with (round robin: at least one queue and weights up to \<open>2 ^ 58\<close>; uniform: a
  sum of weights below \<open>2 ^ 63\<close>), and any reachable state of its system (events of the informer, iterator,
  \<open>Run\<close>) in which no push is under way. The requests rejected so far are exactly those reported that name
  an unknown scheduler or exceed its size limit, in order, each with its reason in the status. If no
  more events come, \<open>Run\<close> and the iterator cannot run for ever; and when they can do nothing more, the
  context not being cancelled, they have handed over exactly the admitted requests among those
  reported, each once, and \<open>ScheduleOne\<close> has processed each.
\<close>

theorem every_request_answered:
  assumes "New informer api opts cfg [] = Some (Inr c, st')" and "config_weights cfg"
    and "system_reaches api (new_readers oor (ctl_iterator c)) (ctl_queues c) st' w y" and "\<forall>a. mid (rs_sys (sy_run y)) a = None"
  shows "sy_rejected y = List.map_filter (\<lambda>pr. map_option (refused_status pr) (refusal (size_limits (ctl_queues c)) pr)) (sy_events y) \<and>
    (\<nexists>f. f 0 = sy_run y \<and> (\<forall>i. controller_step api (new_readers oor (ctl_iterator c)) (f i) (f (Suc i)))) \<and>
    (\<forall>rs'. (controller_step api (new_readers oor (ctl_iterator c)))\<^sup>*\<^sup>* (sy_run y) rs' \<and>
        (\<nexists>rs''. controller_step api (new_readers oor (ctl_iterator c)) rs' rs'') \<and> \<not> cancelled (rs_sys (sy_run y)) \<longrightarrow>
      pc (rs_sys rs') = Waiting \<and> rs_ctl rs' = Selecting \<and>
      mset (delivered (rs_sys rs')) = mset (filter (admitted (size_limits (ctl_queues c))) (sy_events y)) \<and>
      list_all2 (\<lambda>pr pr'. \<exists>w err w'. ScheduleOne api (Some pr) w = Some (err, pr', w'))
        (delivered (rs_sys rs')) (rs_scheduled rs'))"
proof -
  note fw = config_factory_weights [OF assms(1,2)] and ri = system_reaches_run_inv [OF assms(3)]
  have "sy_rejected y = List.map_filter (\<lambda>pr. map_option (refused_status pr) (refusal (size_limits (ctl_queues c)) pr)) (sy_events y)"
    using arbiter_reaches_inv [OF system_arbiter [OF assms(1) fw assms(3)]] by (simp add: arbiter_inv_def arbiter_of_def Let_def)
  moreover have "pushed (rs_sys (sy_run y)) = mset (filter (admitted (size_limits (ctl_queues c))) (sy_events y))"
    by (rule system_pushed [OF assms(3) New_store_empty(1) [OF assms(1)]])
  ultimately show ?thesis
    using own_run_finite [OF assms(1) fw ri] own_run_stops [OF assms(1) fw ri assms(4)] by fastforce
qed

text \<open>
  C3: the controller is an arbiter. In every interleaving of the informer's events, the iterator, the
  loop of \<open>Run\<close> and the cancellation, what a controller made by \<open>New\<close> (with weights its reader can work
  with, as in \<open>config_weights\<close>) has done with the requests is what the arbiter may do: it ignored those without a scheduler, refused exactly those of an unknown
  scheduler or beyond the size limit, with the reason written into their status, kept the others apart
  by scheduler, took the oldest of a scheduler's requests each time, and handed it over before taking
  the next.
\<close>

theorem controller_refines_arbiter:
  assumes "New informer api opts cfg [] = Some (Inr c, st')" and "factory_weights (ctl_iterator c)"
    and "system_reaches api' (new_readers oor (ctl_iterator c)) (ctl_queues c) st' w y"
  shows "(arbiter_step (size_limits (ctl_queues c)))\<^sup>*\<^sup>* arbiter_start (arbiter_of (ctl_queues c) y)"
  by (rule system_arbiter [OF assms])

text \<open>
  C5: requests stay with their scheduler. In every reachable state of the system of a controller made by
  \<open>New\<close> (with weights its reader can work with, as in \<open>config_weights\<close>) and for every scheduler name, the admitted requests of that scheduler among those reported are the ones handed over, dropped
  after a cancellation, in the iterator's hand, or waiting in the scheduler's own queue; that queue
  holds requests of no other scheduler, and none with more bindings than the queue's size allows.
\<close>

theorem controller_routes_requests:
  assumes "New informer api opts cfg [] = Some (Inr c, st')" and "factory_weights (ctl_iterator c)"
    and "system_reaches api' (new_readers oor (ctl_iterator c)) (ctl_queues c) st' w y"
  shows "of_scheduler name (mset (filter (admitted (size_limits (ctl_queues c))) (sy_events y))) =
      of_scheduler name (mset (delivered (rs_sys (sy_run y))) + mset (dropped (rs_sys (sy_run y))) + in_hand (rs_sys (sy_run y))) +
      queued (ctl_queues c) (store (rs_sys (sy_run y))) name \<and>
    (\<forall>x q. ctl_queues c name = Some q \<longrightarrow> x \<in># queued (ctl_queues c) (store (rs_sys (sy_run y))) name \<longrightarrow>
      SchedulerName (Spec x) = name \<and> int (length (Bindings (Spec x))) \<le> sint (MaxSize q))"
proof -
  let ?s = "rs_sys (sy_run y)" and ?A = "arbiter_of (ctl_queues c) y" and ?L = "size_limits (ctl_queues c)"
  have inv: "arbiter_inv ?L ?A" by (rule arbiter_reaches_inv [OF system_arbiter [OF assms]])
  have A: "ar_arrived ?A = sy_events y" "ar_served ?A = delivered ?s" "ar_dropped ?A = dropped ?s" "taken ?A = in_hand ?s"
      "ar_waiting ?A = queued (ctl_queues c) (store ?s)"
    by (simp_all add: arbiter_of_def Let_def taken_def in_hand_holding)
  from inv have eq: "of_scheduler name (mset (filter (admitted ?L) (sy_events y))) =
      of_scheduler name (mset (delivered ?s) + mset (dropped ?s) + in_hand ?s) + queued (ctl_queues c) (store ?s) name"
    unfolding arbiter_inv_def A by blast
  have "SchedulerName (Spec x) = name \<and> int (length (Bindings (Spec x))) \<le> sint (MaxSize q)"
    if q: "ctl_queues c name = Some q" and x: "x \<in># queued (ctl_queues c) (store ?s) name" for x q
  proof -
    have "x \<in># of_scheduler name (mset (filter (admitted ?L) (sy_events y)))" unfolding eq using x by simp
    then have "admitted ?L x" "SchedulerName (Spec x) = name" by (simp_all add: of_scheduler_def)
    then show ?thesis using q by (auto simp: admitted_limit size_limits_def)
  qed
  with eq show ?thesis by blast
qed

text \<open>
  C20: the handler, run without interruption, is a sequence of steps of the system. Whatever \<open>enqueue\<close>
  makes of a request reported while no push is under way (queues, signals to the iterator, cluster), the
  system reaches it by its steps, with no push under way at the end and everything else as it was.
\<close>

theorem enqueue_as_steps:
  assumes "s = rs_sys (sy_run y)" and "mid s = (\<lambda>_. None)"
    and "enqueue api queues (PlacementRequestPtr (Some pr))
      \<lparr>e_store = store s, e_resume = resume s, e_world = rs_world (sy_run y)\<rparr> = Some (obj, e)"
  shows "\<exists>y'. (system_step api fresh queues)\<^sup>*\<^sup>* y y' \<and> rs_world (sy_run y') = e_world e \<and> sy_events y' = sy_events y @ [pr] \<and>
    rs_sys (sy_run y') = s\<lparr>store := e_store e, resume := e_resume e,
      pushed := pushed s + (if admitted (size_limits queues) pr then {#pr#} else {#})\<rparr> \<and>
    rs_ctl (sy_run y') = rs_ctl (sy_run y) \<and> rs_scheduled (sy_run y') = rs_scheduled (sy_run y)"
proof -
  let ?n = "SchedulerName (Spec pr)" and ?w = "rs_world (sy_run y)"
  consider (ignored) "?n = ''''"
    | (unknown) "?n \<noteq> ''''" "queues ?n = None"
    | (large) q where "?n \<noteq> ''''" "queues ?n = Some q" "int (length (Bindings (Spec pr))) > sint (MaxSize q)"
    | (fits) q where "?n \<noteq> ''''" "queues ?n = Some q" "\<not> int (length (Bindings (Spec pr))) > sint (MaxSize q)"
    by (cases "queues ?n") auto
  then show ?thesis
  proof cases
    case ignored
    with assms have "e = \<lparr>e_store = store s, e_resume = resume s, e_world = ?w\<rparr>" by (simp add: enqueue_def)
    with ignored assms(1) system_step.event_ignored [OF ignored, of api fresh queues y] show ?thesis
      by (intro exI [of _ "y\<lparr>sy_events := sy_events y @ [pr]\<rparr>"]) (simp add: r_into_rtranclp admitted_def)
  next
    case unknown
    obtain pr' w' where t: "TryToRejectPlacementRequest api pr ''QueueNotFound'' ''Scheduler queue not found'' ?w = (pr', w')"
      by fastforce
    with unknown assms have e: "e = \<lparr>e_store = store s, e_resume = resume s, e_world = w'\<rparr>" by (auto simp: enqueue_def)
    from system_step.event_not_found [where queues = queues and pr = pr and y = y and fresh = fresh, OF unknown t, THEN one_step] show ?thesis
      by (intro exI conjI; assumption?) (use unknown assms(1) e in \<open>simp_all add: admitted_limit size_limits_def\<close>)
  next
    case (large q)
    obtain pr' w' where t: "TryToRejectPlacementRequest api pr ''PlacementRequestTooLarge'' ''Placement request too large'' ?w = (pr', w')"
      by fastforce
    with large assms have e: "e = \<lparr>e_store = store s, e_resume = resume s, e_world = w'\<rparr>" by (auto simp: enqueue_def)
    from system_step.event_too_large [where queues = queues and pr = pr and y = y and fresh = fresh, OF large t, THEN one_step] show ?thesis
      by (intro exI conjI; assumption?) (use large assms(1) e in \<open>simp_all add: admitted_limit size_limits_def\<close>)
  next
    case (fits q)
    with assms(3) obtain st1 n1 where p: "ref_Push (\<lambda>_. Resume) (store s) (QueueRef q) (resume s) (Some pr) = Some (st1, n1)"
      and e: "e = \<lparr>e_store = st1, e_resume = n1, e_world = ?w\<rparr>" by (auto simp: enqueue_def bind_eq_Some_conv)
    then obtain a q' where a: "QueueRef q = Some a" "a < length (store s)"
        "Push (\<lambda>_. Resume) (store s ! a) (resume s) (Some pr) = Some (q', n1)" "st1 = (store s)[a := q']"
      by (auto simp: ref_Push_def deref_def bind_eq_Some_conv split: if_splits)
    note push = Push_split [OF a(3)]
    note steps = push_as_steps [where queues = queues and pr = pr and api = api and fresh = fresh, OF fits a(1) assms(1) a(2) assms(2) conjunct1 [OF push]]
    have "n1 = (Resume ^^ length (pushHandlers (store s ! a))) (resume s)" using push by (simp add: fold_Resume)
    moreover have "admitted (size_limits queues) pr" using fits by (simp add: admitted_limit size_limits_def)
    ultimately show ?thesis using steps e a(4) by (intro exI conjI) (assumption | simp)+
  qed
qed

text \<open>A system in which a request for an unknown scheduler has been reported.\<close>

definition stray_request :: PlacementRequest where
  "stray_request = first_request\<lparr>Spec := (Spec first_request)\<lparr>SchedulerName := ''z''\<rparr>\<rparr>"

definition stray_rejected :: PlacementRequest where
  "stray_rejected = refused_status stray_request (''QueueNotFound'', ''Scheduler queue not found'')"

definition stray_system :: "unit qstore \<Rightarrow> unit system" where
  "stray_system st = \<lparr>sy_run = run_start st (), sy_events = [stray_request], sy_rejected = [stray_rejected]\<rparr>"

lemma sample_queues:
  assumes "New (\<lambda>_. None) sample_api [] sample_configuration [] = Some (Inr c, st')"
  shows "ctl_queues c ''z'' = None"
proof -
  obtain cs st1 f where "QueueConfigFromV1Alpha1Config [] sample_configuration = Some (cs, st1)" "ctl_queues c = ToMap cs"
    "NewQueueIterator st1 cs (map WithReaderFactory [f]) = Some (Inr (ctl_iterator c), st')"
    by (rule New_config [OF assms])
  then show ?thesis by (auto simp: QueueConfigFromV1Alpha1Config_eq sample_configuration_def ToMap_def)
qed

lemma stray_name [simp]: "SchedulerName (Spec stray_request) = ''z''"
  by (simp add: stray_request_def)

lemma stray_step:
  assumes "queues ''z'' = None"
  shows "system_step sample_api fresh queues (system_start st ()) (stray_system st)"
proof -
  have "TryToRejectPlacementRequest sample_api stray_request ''QueueNotFound'' ''Scheduler queue not found'' () = (stray_rejected, ())"
    by (simp add: TryToRejectPlacementRequest_def stray_rejected_def refused_status_def sample_api_def)
  with system_step.event_not_found [where pr = stray_request and queues = queues and y = "system_start st ()" and api = sample_api] assms
  show ?thesis by (simp add: system_start_def stray_system_def run_start_def)
qed

lemma sample_system:
  obtains c st' where "New (\<lambda>_. None) sample_api [] sample_configuration [] = Some (Inr c, st')"
    "factory_weights (ctl_iterator c)" "ctl_queues c ''z'' = None"
    "system_reaches sample_api (new_readers (\<lambda>_. 0) (ctl_iterator c)) (ctl_queues c) st' () (stray_system st')"
proof -
  obtain c st' where n: "New (\<lambda>_. None) sample_api [] sample_configuration [] = Some (Inr c, st')"
    "factory_weights (ctl_iterator c)" by (rule sample_controller)
  note q = sample_queues [OF n(1)]
  show ?thesis using that [OF n q] stray_step [of "ctl_queues c", OF q] by (simp add: system_reaches_def one_step)
qed

theorem every_request_answered_witness:
  "\<exists>c st'. New (\<lambda>_. None) sample_api [] sample_configuration [] = Some (Inr c, st') \<and>
     sy_rejected (stray_system st') = [stray_rejected] \<and>
     (\<nexists>f. f 0 = sy_run (stray_system st') \<and>
        (\<forall>i. controller_step sample_api (new_readers (\<lambda>_. 0) (ctl_iterator c)) (f i) (f (Suc i))))"
proof -
  obtain c st' where n: "New (\<lambda>_. None) sample_api [] sample_configuration [] = Some (Inr c, st')"
    "factory_weights (ctl_iterator c)" "ctl_queues c ''z'' = None"
    "system_reaches sample_api (new_readers (\<lambda>_. 0) (ctl_iterator c)) (ctl_queues c) st' () (stray_system st')"
    by (rule sample_system)
  have "\<forall>a. mid (rs_sys (sy_run (stray_system st'))) a = None" by (simp add: stray_system_def run_start_def start_state_def)
  from every_request_answered [OF n(1) sample_config_weights n(4) this] n(1) show ?thesis by (auto simp: stray_system_def)
qed

theorem controller_refines_arbiter_witness:
  "\<exists>c st'. New (\<lambda>_. None) sample_api [] sample_configuration [] = Some (Inr c, st') \<and>
     (arbiter_step (size_limits (ctl_queues c)))\<^sup>*\<^sup>* arbiter_start (arbiter_of (ctl_queues c) (stray_system st'))"
proof -
  obtain c st' where n: "New (\<lambda>_. None) sample_api [] sample_configuration [] = Some (Inr c, st')"
    "factory_weights (ctl_iterator c)" "ctl_queues c ''z'' = None"
    "system_reaches sample_api (new_readers (\<lambda>_. 0) (ctl_iterator c)) (ctl_queues c) st' () (stray_system st')"
    by (rule sample_system)
  from controller_refines_arbiter [OF n(1,2,4)] n(1) show ?thesis by blast
qed

theorem controller_routes_requests_witness:
  "\<exists>c st'. New (\<lambda>_. None) sample_api [] sample_configuration [] = Some (Inr c, st') \<and>
     queued (ctl_queues c) (store (rs_sys (sy_run (stray_system st')))) ''a'' = {#}"
proof -
  obtain c st' where n: "New (\<lambda>_. None) sample_api [] sample_configuration [] = Some (Inr c, st')"
    "factory_weights (ctl_iterator c)" "ctl_queues c ''z'' = None"
    "system_reaches sample_api (new_readers (\<lambda>_. 0) (ctl_iterator c)) (ctl_queues c) st' () (stray_system st')"
    by (rule sample_system)
  have "\<not> admitted (size_limits (ctl_queues c)) stray_request" using n(3) by (simp add: admitted_limit size_limits_def)
  with controller_routes_requests [OF n(1,2,4), of "''a''"] n(1) show ?thesis by (auto simp: stray_system_def)
qed

theorem enqueue_as_steps_witness:
  "\<exists>y'. (system_step sample_api {} (\<lambda>_. None))\<^sup>*\<^sup>* (system_start [] ()) y' \<and> sy_events y' = [stray_request]"
proof -
  have "enqueue sample_api (\<lambda>_. None) (PlacementRequestPtr (Some stray_request)) \<lparr>e_store = [], e_resume = 0, e_world = ()\<rparr> =
      Some (PlacementRequestPtr (Some stray_rejected), \<lparr>e_store = [], e_resume = 0, e_world = ()\<rparr>)"
    by (simp add: enqueue_def TryToRejectPlacementRequest_def stray_rejected_def refused_status_def sample_api_def)
  with enqueue_as_steps [of "start_state []" "system_start [] ()" sample_api "\<lambda>_. None" stray_request _ _ "{}"] show ?thesis
    by (auto simp: system_start_def run_start_def start_state_def)
qed

end
