(* ===== verification/E2E_Scenarios.thy ===== *)
theory E2E_Scenarios
  imports Binaries Controller_System
begin

text \<open>
  \<open>e2e/invalid_requests.go\<close>: the end-to-end scenarios in which a request that is too large, and one for an
  unknown scheduler, are created in a cluster and must end up rejected with the right reason. The
  client, gomega's \<open>Eventually\<close> and the cluster are parameters. The theorem composes the scenarios with
  the controller's handler, the API server and the time that passes between the polls: such a scenario
  passes exactly if it expects the reason for which the controller refuses the request.
\<close>

section \<open>Definitions\<close>


text \<open>\<open>BeforeEach\<close>: the clientset from the kubeconfig in the home directory; a failed expectation is \<open>None\<close>.\<close>

definition before_each ::
  "('l, 'z, 'h, 'r, 'd) restlib \<Rightarrow> (string \<Rightarrow> string \<Rightarrow> go_error + ('l, 'z) rest_config) \<Rightarrow> string \<Rightarrow> ('r, 'd) Clientset option" where
  "before_each lib BuildConfigFromFlags RecommendedHomeFile =
     (case BuildConfigFromFlags '''' RecommendedHomeFile of
        Inl err \<Rightarrow> None
      | Inr config \<Rightarrow>
          (case cs_NewForConfig lib (Some config) of
             Some (Inr prclientset) \<Rightarrow> Some prclientset
           | _ \<Rightarrow> None))"

definition e2e_request :: "string \<Rightarrow> string \<Rightarrow> string \<Rightarrow> Binding list \<Rightarrow> PlacementRequest" where
  "e2e_request name ns scheduler bindings =
     \<lparr>Name = name, Namespace = ns, CreationTimestamp = zero_time, DeletionTimestamp = None, OwnerReferences = [],
      Spec = \<lparr>Policy = PlacementRequestPolicyLenient, spec_Priority = 0, SchedulerName = scheduler, Bindings = bindings\<rparr>,
      Status = \<lparr>Result = '''', Reason = '''', Message = '''', st_Bindings = []\<rparr>\<rparr>"

definition oversized_request :: PlacementRequest where
  "oversized_request = e2e_request ''oversized-pr'' ''default'' ''kombiner-scheduler''
     [\<lparr>PodName = ''pod1'', PodUID = ''pod1-uid'', NodeName = ''node1''\<rparr>,
      \<lparr>PodName = ''pod2'', PodUID = ''pod2-uid'', NodeName = ''node2''\<rparr>]"







section \<open>The cluster the scenarios run on\<close>


abbreviation key :: "PlacementRequest \<Rightarrow> string \<times> string" where
  "key pr \<equiv> (Namespace pr, Name pr)"







section \<open>The scenarios decide on the reason\<close>















text \<open>
  A cluster of one request and a clock. Its controller has the queue of the Helm chart; in a move the
  handler is given the request and time passes.
\<close>

type_synonym small_world = "PlacementRequest option \<times> int"



definition small_client :: "small_world pr_client" where
  "small_client =
     \<lparr>cl_Get = (\<lambda>ns name (o', t). case o' of
        None \<Rightarrow> ((oversized_request, Some ''not found''), (o', t))
      | Some obj \<Rightarrow> if (ns, name) = key obj then ((obj, None), (o', t)) else ((obj, Some ''not found''), (o', t))),
      cl_Create = (\<lambda>pr (_, t). (None, (Some pr, t))), cl_Delete = (\<lambda>_ _ (_, t). (None, (None, t)))\<rparr>"







lemma small_Get [simp]: "snd (cl_Get small_client ns name u) = u"
  by (cases u) (simp add: small_client_def split: option.split)








end
