(* ===== verification/Iterator_Fairness.thy ===== *)
theory Iterator_Fairness
  imports Iterator_Progress
begin

text \<open>
  Fairness of the iterator (\<open>pkg/queue/iterator.go\<close>) while requests are pushed between any two of its
  queue operations. \<open>Round_Robin_Fairness\<close> bounds the reads that go before the turn of a waiting queue,
  each read taken as a whole; here the bound is carried over to the programs of \<open>Reader_Programs\<close>, which
  are interrupted, and to the goroutine, which makes a new reader whenever it found nothing to read.

  The locale \<open>fair_reader\<close> is the contract: a reader state has, for each queue, a number of requests that
  may still be returned before that queue's turn, and a read that does not pop the queue lowers it. The
  round robin reader is an instance; the uniform reader, which draws lots, is not.
\<close>

section \<open>What an interrupted read does\<close>

text \<open>
  \<open>leaves\<close>: every reader state at the end of the program satisfies \<open>J\<close>, if the requests popped satisfy
  \<open>sz\<close>. \<open>yields_to a n\<close>: if the queue at \<open>a\<close> is not empty, the program pops it, or it returns another
  request and leaves less than \<open>n\<close> of them before the turn of that queue; it does not return nil.
\<close>

primrec leaves :: "(PlacementRequest \<Rightarrow> bool) \<Rightarrow> ('r \<Rightarrow> bool) \<Rightarrow> 'r prog \<Rightarrow> bool" where
  "leaves sz J (Return res r) \<longleftrightarrow> J r"
| "leaves sz J Panic \<longleftrightarrow> True"
| "leaves sz J Diverge \<longleftrightarrow> True"
| "leaves sz J (LenOf ref k) \<longleftrightarrow> (\<forall>n. leaves sz J (k n))"
| "leaves sz J (PopOf ref k) \<longleftrightarrow> (\<forall>res. (\<forall>pr. res = Some pr \<longrightarrow> sz pr) \<longrightarrow> leaves sz J (k res))"

primrec yields_to ::
  "(PlacementRequest \<Rightarrow> bool) \<Rightarrow> ('r \<Rightarrow> bool) \<Rightarrow> ('r \<Rightarrow> nat) \<Rightarrow> nat \<Rightarrow> nat \<Rightarrow> 'r prog \<Rightarrow> bool" where
  "yields_to sz J turn a n (Return res r) \<longleftrightarrow> False"
| "yields_to sz J turn a n Panic \<longleftrightarrow> True"
| "yields_to sz J turn a n Diverge \<longleftrightarrow> True"
| "yields_to sz J turn a n (LenOf ref k) \<longleftrightarrow> (\<forall>m. (ref = Some a \<longrightarrow> 0 < m) \<longrightarrow> yields_to sz J turn a n (k m))"
| "yields_to sz J turn a n (PopOf ref k) \<longleftrightarrow> ref = Some a \<or> yields_to sz J turn a n (k None) \<and>
     (\<forall>pr. sz pr \<longrightarrow> (\<exists>r. k (Some pr) = Return (Some pr) r \<and> J r \<and> turn r < n))"

lemma yields_to_mono: "yields_to sz J turn a m p \<Longrightarrow> m \<le> n \<Longrightarrow> yields_to sz J turn a n p"
proof (induction p)
  case (LenOf ref k)
  then show ?case by auto
next
  case (PopOf ref k)
  then show ?case using order_less_le_trans by fastforce
qed simp_all

lemma leaves_map: "leaves sz J (map_prog f p) = leaves sz (J \<circ> f) p"
  by (induction p) simp_all

lemma yields_to_map: "yields_to sz J turn a n (map_prog f p) = yields_to sz (J \<circ> f) (turn \<circ> f) a n p"
proof (induction p)
  case (PopOf ref k)
  have "(\<exists>r. map_prog f p = Return res r \<and> J r \<and> turn r < n) \<longleftrightarrow> (\<exists>r. p = Return res r \<and> J (f r) \<and> turn (f r) < n)" for p res
    using map_prog_Return [where f = f and p = p and res = res and I = "\<lambda>r. J r \<and> turn r < n"] by simp
  with PopOf show ?case by simp
qed simp_all

section \<open>The goroutine takes turns\<close>

locale fair_reader = reader_program prog I S for prog :: "'r \<Rightarrow> 'r prog" and I and S +
  fixes sz :: "PlacementRequest \<Rightarrow> bool" and J :: "'r \<Rightarrow> bool" and turn :: "nat \<Rightarrow> 'r \<Rightarrow> nat" and longest :: "nat \<Rightarrow> nat"
  assumes keeps: "J r \<Longrightarrow> leaves sz J (prog r)"
    and turns: "J r \<Longrightarrow> a \<in> S \<Longrightarrow> yields_to sz J (turn a) a (turn a r) (prog r)"
    and turn_le: "J r \<Longrightarrow> a \<in> S \<Longrightarrow> turn a r \<le> longest a"
begin

text \<open>The readers at hand satisfy \<open>J\<close>.\<close>

definition readers_fair :: "'r sys \<Rightarrow> bool" where
  "readers_fair s \<longleftrightarrow> (case pc s of Reading p \<Rightarrow> leaves sz J p | Sending pr r \<Rightarrow> J r | _ \<Rightarrow> True)"

definition all_sized :: "'r sys \<Rightarrow> bool" where
  "all_sized s \<longleftrightarrow> (\<forall>a \<in> S. \<forall>x. x \<in># requests (store s ! a) \<longrightarrow> sz x)"

lemma popped_sized:
  assumes "sys_inv I S s" and "all_sized s" and "a \<in> S" and "ref_Pop (store s) (Some a) = Some (Some pr, st')"
  shows "sz pr"
proof -
  have ok: "store_ok S (store s)" using assms(1) by (simp add: sys_inv_def)
  then have "a < length (store s)" using assms(3) by (auto simp: store_ok_def)
  with Pop_result [OF ok assms(3)] assms(4) have "pr \<in># requests (store s ! a)"
    by (auto simp: ref_Pop_def split: option.splits)
  then show ?thesis using assms(2,3) by (auto simp: all_sized_def)
qed

lemma readers_fair_step:
  assumes step: "it_step prog fresh s s'" and inv: "sys_inv I S s" and "readers_fair s" and "all_sized s"
    and fresh: "\<forall>x \<in> fresh. \<exists>r. x = Some r \<and> J r"
  shows "readers_fair s'"
  using step
proof (cases rule: it_cases)
  case (top_read r)
  then show ?thesis using fresh keeps by (auto simp: readers_fair_def)
next
  case (read_pop a k res st')
  have "a \<in> S" using wants_addressed [OF inv read_pop(2)] by simp
  then have "\<forall>pr. res = Some pr \<longrightarrow> sz pr" using popped_sized [OF inv assms(4)] read_pop(4) by blast
  then show ?thesis using assms(3) read_pop(1,2) by (simp add: readers_fair_def)
next
  case (send pr r)
  then show ?thesis using assms(3) keeps by (simp add: readers_fair_def)
next
  case (send_cancelled pr r)
  then show ?thesis using assms(3) keeps by (simp add: readers_fair_def)
qed (use assms(3) in \<open>auto simp: readers_fair_def\<close>)

text \<open>
  \<open>due a m s\<close>: at most \<open>m\<close> requests are sent before the queue at \<open>a\<close>, which has something to read, is
  popped. A read under way that may have seen the queue empty is of no help; a new one is.
\<close>

definition on_turn :: "nat \<Rightarrow> nat \<Rightarrow> 'r prog \<Rightarrow> bool" where
  "on_turn a m p \<longleftrightarrow> yields_to sz J (turn a) a m p \<or> (\<exists>pr r. p = Return (Some pr) r \<and> turn a r < m)"

definition due :: "nat \<Rightarrow> nat \<Rightarrow> 'r sys \<Rightarrow> bool" where
  "due a m s \<longleftrightarrow>
     (case pc s of
        Reading p \<Rightarrow> on_turn a m p \<or> longest a < m
      | Sending pr r \<Rightarrow> turn a r < m
      | Closed \<Rightarrow> True | Crashed \<Rightarrow> True
      | _ \<Rightarrow> longest a < m)"

lemma due_start: "readers_fair s \<Longrightarrow> a \<in> S \<Longrightarrow> due a (Suc (longest a)) s"
  using turn_le by (auto simp: due_def readers_fair_def less_Suc_eq_le split: it_pc.splits)

text \<open>The rank of a state, which the goroutine's own steps lower until the queue is popped.\<close>

definition stage :: "nat \<Rightarrow> nat \<Rightarrow> 'r sys \<Rightarrow> nat" where
  "stage a m s =
     (case pc s of
        Reading p \<Rightarrow> if on_turn a m p then 2 else 5
      | Waiting \<Rightarrow> 4 | Top \<Rightarrow> 3 | Sending pr r \<Rightarrow> 1 | Closed \<Rightarrow> 0 | Crashed \<Rightarrow> 0)"

definition turn_order :: "((nat \<times> nat \<times> 'r prog) \<times> (nat \<times> nat \<times> 'r prog)) set" where
  "turn_order = less_than <*lex*> less_than <*lex*> rest_of"

definition rank :: "nat \<Rightarrow> nat \<Rightarrow> 'r sys \<Rightarrow> nat \<times> nat \<times> 'r prog" where
  "rank a m s = (m, stage a m s, reading s)"

lemma wf_turn_order: "wf turn_order"
  unfolding turn_order_def by (intro wf_lex_prod wf_less_than wf_rest_of)

lemma on_turn_start: "J r \<Longrightarrow> a \<in> S \<Longrightarrow> turn a r \<le> m \<Longrightarrow> on_turn a m (prog r)"
  unfolding on_turn_def using yields_to_mono [OF turns] by blast

lemma due_cong: "pc s' = pc s \<Longrightarrow> due a m s' = due a m s \<and> rank a m s' = rank a m s"
  by (simp add: due_def rank_def stage_def reading_def)

lemma due_step:
  assumes step: "it_step prog fresh s s'" and inv: "sys_inv I S s" and rf: "readers_fair s" and "all_sized s"
    and fresh: "\<forall>x \<in> fresh. \<exists>r. x = Some r \<and> I r \<and> J r" and "\<not> cancelled s"
    and a: "a \<in> S" and wait: "Len (store s ! a) \<noteq> 0" and due: "due a m s"
    and other: "\<nexists>k. pc s = Reading (PopOf (Some a) k)"
  shows "\<exists>m'. due a m' s' \<and> length (delivered s') + m' \<le> length (delivered s) + m \<and>
    (rank a m' s', rank a m s) \<in> turn_order"
proof -
  have "sys_inv I S s'" using it_step_inv [OF inv step] fresh by blast
  then have live: "pc s' \<noteq> Crashed" by (auto simp: sys_inv_def pc_inv_def)
  show ?thesis using step
  proof (cases rule: it_cases)
    case (top_read r)
    then have "on_turn a m (prog r)" using fresh a due turn_le [of r a] on_turn_start [of r a m] by (fastforce simp: due_def)
    then show ?thesis using top_read by (intro exI [of _ m]) (simp add: due_def rank_def stage_def turn_order_def)
  next
    case (read_len b k n)
    have "n = Len (store s ! b)" using read_len(4) by (auto simp: ref_Len_def deref_def split: if_splits)
    then have "on_turn a m (LenOf (Some b) k) \<Longrightarrow> on_turn a m (k n)" using wait by (auto simp: on_turn_def)
    then show ?thesis using read_len due
      by (intro exI [of _ m]) (auto simp: due_def rank_def stage_def reading_def turn_order_def rest_of_def)
  next
    case (read_pop b k res st')
    have b: "b \<in> S" "b \<noteq> a" using wants_addressed [OF inv read_pop(2)] other read_pop(2) by auto
    have "on_turn a m (k res)" if "on_turn a m (PopOf (Some b) k)"
      using that b(2) popped_sized [OF inv assms(4) b(1)] read_pop(4) by (cases res) (auto simp: on_turn_def)
    then show ?thesis using read_pop due
      by (intro exI [of _ m]) (auto simp: due_def rank_def stage_def reading_def turn_order_def rest_of_def)
  next
    case (read_some pr r)
    have "J r" using rf read_some by (simp add: readers_fair_def)
    then have "turn a r < m" using due read_some turn_le [of r a] a by (auto simp: due_def on_turn_def)
    then show ?thesis using read_some
      by (intro exI [of _ m]) (auto simp: due_def rank_def stage_def turn_order_def)
  next
    case (read_nil r)
    then have "\<not> on_turn a m (Return None r)" by (simp add: on_turn_def)
    then show ?thesis using read_nil due
      by (intro exI [of _ m]) (auto simp: due_def rank_def stage_def turn_order_def)
  next
    case (send pr r)
    have "J r" "turn a r < m" using rf due send by (simp_all add: readers_fair_def due_def)
    then have "on_turn a (m - 1) (prog r)" "m - 1 < m" using on_turn_start [of r a "m - 1"] a by simp_all
    then show ?thesis using send by (intro exI [of _ "m - 1"]) (auto simp: due_def rank_def turn_order_def)
  next
    case (wake n)
    then show ?thesis using due by (intro exI [of _ m]) (auto simp: due_def rank_def stage_def turn_order_def)
  qed (use live assms(6) in auto)
qed

end

section \<open>The round robin reader takes turns\<close>

text \<open>The requests the API server lets through have at least one binding; no list has more than \<open>2 ^ 62\<close> elements.\<close>

definition request_sized :: "PlacementRequest \<Rightarrow> bool" where
  "request_sized pr \<longleftrightarrow> 0 < length (Bindings (Spec pr)) \<and> length (Bindings (Spec pr)) \<le> 2 ^ 62"

text \<open>The position of a queue among those of the reader, and the readers that come from \<open>r0\<close>.\<close>

definition queue_index :: "nat \<Rightarrow> RoundRobinReader \<Rightarrow> nat" where
  "queue_index a r = length (takeWhile (\<lambda>c. QueueRef c \<noteq> Some a) (rr_configs r))"

lemma queue_index_nth:
  assumes "a \<in> addresses (rr_configs r)"
  shows "queue_index a r < length (rr_configs r)" "QueueRef (rr_configs r ! queue_index a r) = Some a"
proof -
  from assms obtain c where "c \<in> set (rr_configs r)" "QueueRef c = Some a" by (auto simp: addresses_def)
  then show i: "queue_index a r < length (rr_configs r)"
    unfolding queue_index_def by (metis (mono_tags, lifting) length_takeWhile_le le_neq_implies_less takeWhile_eq_all_conv takeWhile_eq_take take_all_iff order_refl)
  then show "QueueRef (rr_configs r ! queue_index a r) = Some a"
    unfolding queue_index_def using nth_length_takeWhile [of "\<lambda>c. QueueRef c \<noteq> Some a" "rr_configs r"] by simp
qed

definition rr_from :: "RoundRobinReader \<Rightarrow> RoundRobinReader \<Rightarrow> bool" where
  "rr_from r0 r \<longleftrightarrow> rr_bounds r \<and> same_queues r0 r"

lemma rr_from_chosen:
  assumes "rr_from r0 r" and "rr_configs r \<noteq> []" and "rr_chosen r = (r1, k)"
  shows "rr_from r0 r1" "k < length (rr_configs r1)" "is_open (rr_configs r1 ! k)" "\<forall>j < k. \<not> is_open (rr_configs r1 ! j)"
    "\<And>i. i < length (rr_configs r) \<Longrightarrow> turn_bound i r1 = turn_bound i r" "length (rr_configs r1) = length (rr_configs r)"
    "0 \<le> BindingsRead (rr_configs r1 ! k)" "0 < MaximumBindings (rr_configs r1 ! k)"
proof -
  have pos: "\<forall>c \<in> set (rr_configs r). 0 < MaximumBindings c" using assms(1) by (simp add: rr_from_def rr_bounds_def)
  note c = rr_chosen_open [OF pos assms(2,3)]
  then show r1: "rr_from r0 r1" using assms(1,3) rr_bounds_chosen same_queues_trans unfolding rr_from_def by blast
  show k: "k < length (rr_configs r1)" and "is_open (rr_configs r1 ! k)" "\<forall>j < k. \<not> is_open (rr_configs r1 ! j)"
    "length (rr_configs r1) = length (rr_configs r)" using c same_queues_length [of r r1] by simp_all
  show "turn_bound i r1 = turn_bound i r" if "i < length (rr_configs r)" for i
    by (rule turn_bound_chosen [OF pos assms(3) that])
  show "0 \<le> BindingsRead (rr_configs r1 ! k)" "0 < MaximumBindings (rr_configs r1 ! k)"
    using rr_bounds_nth [of r1 k] r1 k by (simp_all add: rr_from_def)
qed

lemma rr_from_charge:
  "rr_from r0 r \<Longrightarrow> k < length (rr_configs r) \<Longrightarrow> 0 \<le> b \<Longrightarrow> rr_from r0 (rr_charge r k b)"
  unfolding rr_from_def using rr_bounds_charge same_queues_trans rr_charge_same by blast

lemma rr_from_read:
  assumes "rr_from r0 r" and "k < length (rr_configs r)" and "is_open (rr_configs r ! k)" and "request_sized pr"
  shows "wrap64 (BindingsRead (rr_configs r ! k) + int (length (Bindings (Spec pr)))) =
      BindingsRead (rr_configs r ! k) + int (length (Bindings (Spec pr)))"
  by (rule charge_no_wrap [OF _ assms(2,3)]) (use assms(1,4) in \<open>simp_all add: rr_from_def request_sized_def\<close>)

lemma leaves_empty_prog: "(\<And>b. leaves sz J (k b)) \<Longrightarrow> leaves sz J (rr_empty_prog cs k)"
  by (induction cs k rule: rr_empty_prog.induct) auto

lemma yields_to_empty_prog:
  "yields_to sz J turn a n (k False) \<Longrightarrow> \<exists>c \<in> set cs. QueueRef c = Some a \<Longrightarrow> yields_to sz J turn a n (rr_empty_prog cs k)"
proof (induction cs)
  case (Cons c cs)
  then show ?case by (cases "QueueRef c = Some a") auto
qed simp

lemma rr_prog_leaves: "rr_from r0 r \<Longrightarrow> leaves request_sized (rr_from r0) (rr_prog n r)"
proof (induction n arbitrary: r)
  case (Suc n)
  show ?case unfolding rr_prog_cont
  proof (rule leaves_empty_prog)
    fix none
    show "leaves request_sized (rr_from r0) (rr_cont n r none)"
    proof (cases "none \<or> rr_configs r = []")
      case True
      then show ?thesis using Suc.prems by (auto simp: rr_cont_def rr_chosen_def rr_next_def Let_def)
    next
      case False
      obtain r1 k where ch: "rr_chosen r = (r1, k)" by fastforce
      note c = rr_from_chosen [OF Suc.prems _ ch]
      have "rr_from r0 (rr_charge r1 k (wrap64 (BindingsRead (rr_configs r1 ! k) + int (length (Bindings (Spec pr))))))"
        if "request_sized pr" for pr
        using rr_from_read [OF c(1-3) that] rr_from_charge [OF c(1,2)] c(7) False by simp
      moreover have "leaves request_sized (rr_from r0) (rr_prog n (rr_charge r1 k (MaximumBindings (rr_configs r1 ! k))))"
        using Suc.IH rr_from_charge [OF c(1,2)] c(8) False by simp
      ultimately show ?thesis using False ch by (auto simp: rr_cont_def split: option.split)
    qed
  qed
qed simp

lemma rr_prog_yields:
  assumes "rr_from r0 r" and "i < length (rr_configs r)" and "QueueRef (rr_configs r ! i) = Some a" and "turn_bound i r \<le> m"
  shows "yields_to request_sized (rr_from r0) (turn_bound i) a m (rr_prog n r)"
  using assms
proof (induction n arbitrary: r)
  case (Suc n)
  have ne: "rr_configs r \<noteq> []" using Suc.prems(2) by auto
  obtain r1 k where ch: "rr_chosen r = (r1, k)" by fastforce
  note c = rr_from_chosen [OF Suc.prems(1) ne ch]
  have s: "same_queues r r1" using rr_chosen_open [OF _ ne ch] Suc.prems(1) by (simp add: rr_from_def rr_bounds_def)
  have i1: "i < length (rr_configs r1)" "QueueRef (rr_configs r1 ! i) = Some a" "turn_bound i r1 \<le> m"
    using Suc.prems(2-4) c(5,6) same_queues_nth(1) [OF s Suc.prems(2)] by simp_all
  have other: "yields_to request_sized (rr_from r0) (turn_bound i) a m (rr_prog n (rr_charge r1 k (MaximumBindings (rr_configs r1 ! k))))"
    if "QueueRef (rr_configs r1 ! k) \<noteq> Some a"
  proof (rule Suc.IH)
    have "k \<noteq> i" using that i1(2) by auto
    then show "turn_bound i (rr_charge r1 k (MaximumBindings (rr_configs r1 ! k))) \<le> m"
      using turn_bound_charge [OF c(2-4) i1(1) _ c(3)] i1(3) by simp
    show "QueueRef (rr_configs (rr_charge r1 k (MaximumBindings (rr_configs r1 ! k))) ! i) = Some a"
      using i1(2) c(2) \<open>k \<noteq> i\<close> by (simp add: rr_charge_nth)
  qed (use rr_from_charge [OF c(1,2)] c(8) i1(1) in simp_all)
  have read: "rr_from r0 (rr_charge r1 k b) \<and> turn_bound i (rr_charge r1 k b) < m"
    if "QueueRef (rr_configs r1 ! k) \<noteq> Some a" "request_sized pr"
      "b = wrap64 (BindingsRead (rr_configs r1 ! k) + int (length (Bindings (Spec pr))))" for pr b
  proof -
    have b: "b = BindingsRead (rr_configs r1 ! k) + int (length (Bindings (Spec pr)))" "0 < length (Bindings (Spec pr))"
      using rr_from_read [OF c(1-3) that(2)] that by (simp_all add: request_sized_def)
    have "k \<noteq> i" using that(1) i1(2) by auto
    with b show ?thesis
      using turn_bound_charge [OF c(2-4) i1(1), of b] i1(3) rr_from_charge [OF c(1,2), of b] c(7) by simp
  qed
  have "yields_to request_sized (rr_from r0) (turn_bound i) a m (rr_cont n r False)"
    using other read ch by (auto simp: rr_cont_def)
  then show ?case unfolding rr_prog_cont using Suc.prems(2,3) nth_mem by (intro yields_to_empty_prog) blast+
qed simp

lemma same_queues_longest_wait:
  assumes "same_queues r0 r" and "i \<le> length (rr_configs r0)"
  shows "longest_wait i r = longest_wait i r0"
proof -
  have "maximum r j = maximum r0 j" if "j < length (rr_configs r0)" for j
    using same_queues_nth(2) [OF assms(1) that] by (simp add: maximum_def)
  then show ?thesis unfolding longest_wait_def same_queues_length [OF assms(1)] using assms(2) by (intro arg_cong2 [of _ _ _ _ plus] sum.cong) auto
qed

primrec rr_fair_inv :: "QueueConfigs \<Rightarrow> RoundRobinReader \<Rightarrow> reader_state \<Rightarrow> bool" where
  "rr_fair_inv cs r0 (RoundRobinState r) \<longleftrightarrow> rr_from r0 r \<and> addresses (rr_configs r0) = addresses cs"
| "rr_fair_inv cs r0 (UniformState u) \<longleftrightarrow> False"

primrec rr_turn :: "RoundRobinReader \<Rightarrow> nat \<Rightarrow> reader_state \<Rightarrow> nat" where
  "rr_turn r0 a (RoundRobinState r) = turn_bound (queue_index a r0) r"
| "rr_turn r0 a (UniformState u) = 0"

interpretation rr_fair: fair_reader read_prog "reader_ok cs" "addresses cs" request_sized "rr_fair_inv cs r0" "rr_turn r0"
  "\<lambda>a. longest_wait (queue_index a r0) r0" for cs r0
proof unfold_locales
  fix rs
  assume J: "rr_fair_inv cs r0 rs"
  then obtain r where r: "rs = RoundRobinState r" "rr_from r0 r" "addresses (rr_configs r0) = addresses cs" by (cases rs) simp_all
  have conv: "rr_fair_inv cs r0 \<circ> RoundRobinState = rr_from r0" "\<And>a. rr_turn r0 a \<circ> RoundRobinState = turn_bound (queue_index a r0)"
    using r(3) by auto
  show "leaves request_sized (rr_fair_inv cs r0) (read_prog rs)"
    using rr_prog_leaves [OF r(2)] by (simp add: r(1) leaves_map conv rr_read_prog_def)
  fix a
  assume "a \<in> addresses cs"
  then have i0: "queue_index a r0 < length (rr_configs r0)" "QueueRef (rr_configs r0 ! queue_index a r0) = Some a"
    using queue_index_nth [of a r0] r(3) by simp_all
  have s: "same_queues r0 r" using r(2) by (simp add: rr_from_def)
  then have i: "queue_index a r0 < length (rr_configs r)" "QueueRef (rr_configs r ! queue_index a r0) = Some a"
    using i0 same_queues_length [OF s] same_queues_nth(1) [OF s i0(1)] by simp_all
  show "yields_to request_sized (rr_fair_inv cs r0) (rr_turn r0 a) a (rr_turn r0 a rs) (read_prog rs)"
    using rr_prog_yields [OF r(2) i order_refl] by (simp add: r(1) yields_to_map conv rr_read_prog_def)
  show "rr_turn r0 a rs \<le> longest_wait (queue_index a r0) r0"
    using turn_bound_le [OF _ i(1)] r(2) same_queues_longest_wait [OF s, of "queue_index a r0"] i0(1)
    by (simp add: r(1) rr_from_def)
qed

end
