(* ===== verification/System_Fairness.thy ===== *)
theory System_Fairness
  imports Controller_System Iterator_Fairness
begin

text \<open>
  No scheduler can keep the requests of another one waiting: the fairness of the whole controller, with
  the round robin algorithm, in every interleaving of the informer's events, the iterator and \<open>Run\<close>.
  The bound of \<open>Iterator_Fairness\<close> is carried over to the system of \<open>Controller_System\<close>: how many requests of
  other schedulers are handed over before one of a waiting scheduler is. In an infinite run in which
  the goroutines are scheduled fairly, every request that was admitted is handed over, although others
  keep arriving.
\<close>

section \<open>The states of a round robin controller\<close>

abbreviation sy_sys :: "'w system \<Rightarrow> reader_state sys" where
  "sy_sys y \<equiv> rs_sys (sy_run y)"

definition round_robin_iterator :: "(rat \<Rightarrow> int) \<Rightarrow> QueueIterator \<Rightarrow> RoundRobinReader \<Rightarrow> bool" where
  "round_robin_iterator oor it r0 \<longleftrightarrow>
     factory_weights it \<and> readerFactory it = RoundRobinFactory \<and> NewRoundRobinReader oor (it_configs it) = Some r0"

text \<open>A configuration with round robin, a queue, and weights whose quotas fit an \<open>int\<close> gives such an iterator.\<close>

lemma config_round_robin:
  assumes "New informer api opts cfg [] = Some (Inr c, st')" and "cfg_FairnessAlgorithm cfg \<noteq> Uniform"
    and "Queues cfg \<noteq> []" and "\<forall>q \<in> set (Queues cfg). uint (Weight q) \<le> 2 ^ 58"
    and "NewRoundRobinReader oor (it_configs (ctl_iterator c)) = Some r0"
  shows "round_robin_iterator oor (ctl_iterator c) r0"
  using config_factory_weights [OF assms(1)] New_factory(1) [OF assms(1)] assms(2-5)
  by (simp add: round_robin_iterator_def config_weights_def)

lemma config_round_robin_ex:
  assumes "New informer api opts cfg [] = Some (Inr c, st')" and "cfg_FairnessAlgorithm cfg \<noteq> Uniform"
    and "Queues cfg \<noteq> []" and "\<forall>q \<in> set (Queues cfg). uint (Weight q) \<le> 2 ^ 58"
  obtains r0 where "round_robin_iterator oor (ctl_iterator c) r0"
proof -
  have "factory_weights (ctl_iterator c)"
    using config_factory_weights [OF assms(1)] assms(2-4) by (simp add: config_weights_def)
  then obtain r0 where "NewRoundRobinReader oor (it_configs (ctl_iterator c)) = Some r0"
    using New_factory(1) [OF assms(1)] assms(2) new_reader_fields [of "it_configs (ctl_iterator c)" oor]
    by (auto simp: factory_weights_def)
  then show ?thesis using that config_round_robin [OF assms] by blast
qed

text \<open>The requests reported so far are of a size the counters of the reader can take.\<close>

definition sized_events :: "'w system \<Rightarrow> bool" where
  "sized_events y \<longleftrightarrow> (\<forall>pr \<in> set (sy_events y). request_sized pr)"

definition fair_state :: "PlacementRequestController \<Rightarrow> RoundRobinReader \<Rightarrow> 'w system \<Rightarrow> bool" where
  "fair_state c r0 y \<longleftrightarrow>
     sys_inv (reader_ok (it_configs (ctl_iterator c))) (addresses (it_configs (ctl_iterator c))) (sy_sys y) \<and>
     rr_fair.readers_fair (it_configs (ctl_iterator c)) r0 (sy_sys y) \<and>
     rr_fair.all_sized (it_configs (ctl_iterator c)) (sy_sys y) \<and>
     routes (ctl_queues c) (length (store (sy_sys y))) \<and>
     addresses (it_configs (ctl_iterator c)) = {..<length (store (sy_sys y))} \<and>
     arbiter_inv (size_limits (ctl_queues c)) (arbiter_of (ctl_queues c) y) \<and>
     (rs_ctl (sy_run y) \<noteq> Selecting \<longrightarrow> cancelled (sy_sys y))"

lemma queued_events:
  assumes "arbiter_inv L (arbiter_of queues y)" and "x \<in># queued queues (store (sy_sys y)) name"
  shows "x \<in> set (sy_events y)" "SchedulerName (Spec x) = name"
proof -
  have "of_scheduler name (mset (filter (admitted L) (sy_events y))) =
      of_scheduler name (mset (delivered (sy_sys y)) + mset (dropped (sy_sys y)) + taken (arbiter_of queues y)) +
      queued queues (store (sy_sys y)) name"
    using assms(1) by (simp add: arbiter_inv_def arbiter_of_def Let_def)
  then have "x \<in># of_scheduler name (mset (filter (admitted L) (sy_events y)))" using assms(2) by simp
  then show "x \<in> set (sy_events y)" "SchedulerName (Spec x) = name" by (auto simp: of_scheduler_def)
qed

lemma system_step_events:
  assumes "system_step api fresh queues y y'"
  shows "\<exists>evs. sy_events y' = sy_events y @ evs"
  using assms by cases auto

lemma round_robin_fresh:
  assumes "New informer api opts cfg [] = Some (Inr c, st')" and "round_robin_iterator oor (ctl_iterator c) r0"
  shows "\<forall>x \<in> new_readers oor (ctl_iterator c). \<exists>r. x = Some r \<and> reader_ok (it_configs (ctl_iterator c)) r \<and>
    rr_fair_inv (it_configs (ctl_iterator c)) r0 r"
proof -
  let ?it = "ctl_iterator c"
  have it: "factory_weights ?it" "readerFactory ?it = RoundRobinFactory" "NewRoundRobinReader oor (it_configs ?it) = Some r0"
    using assms(2) by (simp_all add: round_robin_iterator_def)
  then have r0: "rr_bounds r0" "map QueueRef (rr_configs r0) = map QueueRef (it_configs ?it)"
    using new_reader_fields [of "it_configs ?it" oor] by (auto simp: factory_weights_def)
  then have "QueueRef ` set (rr_configs r0) = QueueRef ` set (it_configs ?it)" by (metis list.set_map)
  then have "rr_fair_inv (it_configs ?it) r0 (RoundRobinState r0)" using r0(1) by (simp add: rr_from_def addresses_image)
  then show ?thesis using New_fresh [OF assms(1) it(1), of oor] it by (simp add: new_readers_def)
qed

lemma fair_state_sized:
  assumes "routes queues (length (store (sy_sys y)))" and "arbiter_inv L (arbiter_of queues y)" and "sized_events y"
    and "addresses cs = {..<length (store (sy_sys y))}"
  shows "rr_fair.all_sized cs (sy_sys y)"
proof -
  have "request_sized x" if a: "a < length (store (sy_sys y))" and x: "x \<in># requests (store (sy_sys y) ! a)" for a x
  proof -
    from a assms(1) obtain name q where "queues name = Some q" "QueueRef q = Some a" by (auto simp: routes_def)
    with x have "x \<in># queued queues (store (sy_sys y)) name" by (simp add: queued_def)
    then show ?thesis using queued_events(1) [OF assms(2)] assms(3) by (auto simp: sized_events_def)
  qed
  then show ?thesis unfolding rr_fair.all_sized_def by (simp add: assms(4))
qed

lemma fair_state_reached:
  assumes new: "New informer api opts cfg [] = Some (Inr c, st')" and rr: "round_robin_iterator oor (ctl_iterator c) r0"
    and reach: "system_reaches api' (new_readers oor (ctl_iterator c)) (ctl_queues c) st' w y" and "sized_events y"
  shows "fair_state c r0 y"
proof -
  let ?cs = "it_configs (ctl_iterator c)" and ?fresh = "new_readers oor (ctl_iterator c)"
  have fw: "factory_weights (ctl_iterator c)" using rr by (simp add: round_robin_iterator_def)
  have fresh: "\<forall>x \<in> ?fresh. \<exists>r. x = Some r \<and> rr_fair_inv ?cs r0 r" using round_robin_fresh [OF new rr] by blast
  have basic: "sys_inv (reader_ok ?cs) (addresses ?cs) (sy_sys y) \<and> rr_fair.all_sized ?cs (sy_sys y) \<and>
      routes (ctl_queues c) (length (store (sy_sys y))) \<and> addresses ?cs = {..<length (store (sy_sys y))} \<and>
      arbiter_inv (size_limits (ctl_queues c)) (arbiter_of (ctl_queues c) y) \<and>
      (rs_ctl (sy_run y) \<noteq> Selecting \<longrightarrow> cancelled (sy_sys y))"
    if r: "system_reaches api' ?fresh (ctl_queues c) st' w y" and "sized_events y" for y
  proof -
    note si = system_inv [OF new fw r]
    have ai: "arbiter_inv (size_limits (ctl_queues c)) (arbiter_of (ctl_queues c) y)"
      by (rule arbiter_reaches_inv [OF system_arbiter [OF new fw r]])
    have ad: "routes (ctl_queues c) (length (store (sy_sys y)))" "addresses ?cs = {..<length (store (sy_sys y))}"
      using si New_routes [OF new] New_addresses [OF new] by simp_all
    have "rs_ctl (sy_run y) \<noteq> Selecting \<longrightarrow> cancelled (sy_sys y)"
      using system_reaches_run_inv [OF r] unfolding run_inv_def by blast
    with si ai ad fair_state_sized [OF ad(1) ai that(2) ad(2)] show ?thesis by blast
  qed
  have "rr_fair.readers_fair ?cs r0 (sy_sys y)"
    using reach assms(4) unfolding system_reaches_def
  proof (induction rule: rtranclp_induct)
    case base
    show ?case by (simp add: rr_fair.readers_fair_def system_start_def run_start_def start_state_def)
  next
    case (step y y')
    have sz: "sized_events y" using system_step_events [OF step(2)] step.prems by (auto simp: sized_events_def)
    then have IH: "rr_fair.readers_fair ?cs r0 (sy_sys y)" using step.IH by blast
    have b: "sys_inv (reader_ok ?cs) (addresses ?cs) (sy_sys y)" "rr_fair.all_sized ?cs (sy_sys y)"
      using basic [of y] step(1) sz unfolding system_reaches_def by blast+
    from step(2) show ?case
    proof cases
      case (own rs')
      then show ?thesis using controller_step_projects [OF own(2)] IH
          rr_fair.readers_fair_step [OF _ b(1) IH b(2) fresh] by auto
    next
      case (background s')
      then have "pc s' = pc (sy_sys y)" by (auto elim!: env_step.cases)
      then show ?thesis using background(1) IH by (simp add: rr_fair.readers_fair_def)
    qed (use IH in \<open>simp_all add: rr_fair.readers_fair_def\<close>)
  qed
  with basic [OF reach assms(4)] show ?thesis unfolding fair_state_def by blast
qed

section \<open>What a step does to one queue\<close>

text \<open>A step of the controller's own, and a pop of the queue at \<open>a\<close>.\<close>

definition own_step :: "'w api \<Rightarrow> reader_state option set \<Rightarrow> 'w system \<Rightarrow> 'w system \<Rightarrow> bool" where
  "own_step api fresh y y' \<longleftrightarrow> (\<exists>rs'. controller_step api fresh (sy_run y) rs' \<and> y' = y\<lparr>sy_run := rs'\<rparr>)"

definition pops :: "nat \<Rightarrow> 'r sys \<Rightarrow> 'r sys \<Rightarrow> bool" where
  "pops a s s' \<longleftrightarrow>
     (\<exists>pr. requests (store s ! a) = add_mset pr (requests (store s' ! a)) \<and>
        (\<forall>x. x \<in># requests (store s ! a) \<longrightarrow> age_rank pr \<le> age_rank x) \<and> holding s' = Some pr \<and> delivered s' = delivered s)"

text \<open>Requests of newly reported events are added to the queue, and nothing else happens to it.\<close>

definition extends :: "nat \<Rightarrow> 'w system \<Rightarrow> 'w system \<Rightarrow> bool" where
  "extends a y y' \<longleftrightarrow>
     (\<exists>evs N. sy_events y' = sy_events y @ evs \<and> N \<subseteq># mset evs \<and>
        requests (store (sy_sys y') ! a) = requests (store (sy_sys y) ! a) + N)"

lemma extends_refl [simp]: "extends a y y"
  by (simp add: extends_def)

lemma extends_trans: "extends a y1 y2 \<Longrightarrow> extends a y2 y3 \<Longrightarrow> extends a y1 y3"
proof -
  assume "extends a y1 y2" "extends a y2 y3"
  then obtain e1 N1 e2 N2 where "sy_events y2 = sy_events y1 @ e1" "N1 \<subseteq># mset e1" "sy_events y3 = sy_events y2 @ e2" "N2 \<subseteq># mset e2"
    "requests (store (sy_sys y2) ! a) = requests (store (sy_sys y1) ! a) + N1"
    "requests (store (sy_sys y3) ! a) = requests (store (sy_sys y2) ! a) + N2" unfolding extends_def by blast
  then show ?thesis unfolding extends_def
    by (intro exI [of _ "e1 @ e2"] exI [of _ "N1 + N2"]) (simp add: subset_mset.add_mono ac_simps)
qed

lemma extends_Len: "extends a y y' \<Longrightarrow> Len (store (sy_sys y) ! a) \<noteq> 0 \<Longrightarrow> Len (store (sy_sys y') ! a) \<noteq> 0"
  by (auto simp: extends_def Len_requests)

lemma it_step_pops:
  assumes "it_step prog fresh s s'" and "sys_inv I S s" "sys_inv I S s'" and "a < length (store s)"
  shows "pops a s s' \<or> requests (store s' ! a) = requests (store s ! a)"
  using it_step_effect [OF assms(1-3)] assms(4) by (auto simp: pops_def nth_list_update split: if_splits)

lemma pop_pops:
  assumes "it_step prog fresh s s'" and inv: "sys_inv I S s" "sys_inv I S s'"
    and pc: "pc s = Reading (PopOf (Some a) k)" and "a < length (store s)" and "Len (store s ! a) \<noteq> 0"
  shows "pops a s s'"
proof (rule ccontr)
  assume "\<not> pops a s s'"
  then have same: "requests (store s' ! a) = requests (store s ! a)" using it_step_pops [OF assms(1-3,5)] by blast
  have "store_inv (store s)" using inv(1) by (simp add: sys_inv_def store_ok_def)
  have live: "pc s' \<noteq> Crashed" using inv(2) by (auto simp: sys_inv_def pc_inv_def)
  from assms(1) obtain res st' where "ref_Pop (store s) (Some a) = Some (res, st')" "store s' = st'"
    by (cases rule: it_cases) (use pc live in auto)
  then have "size (requests (store s' ! a)) < size (requests (store s ! a))"
    using ref_Pop_cases [of "store s" a res st'] \<open>store_inv (store s)\<close> assms(5,6) by auto
  with same show False by simp
qed

lemma own_step_iterates:
  assumes "own_step api fresh y y'" and "\<not> cancelled (sy_sys y)" and "pc (sy_sys y) \<noteq> Closed"
  shows "it_step read_prog fresh (sy_sys y) (sy_sys y')" "sy_events y' = sy_events y"
proof -
  from assms(1) obtain rs' where rs': "controller_step api fresh (sy_run y) rs'" "y' = y\<lparr>sy_run := rs'\<rparr>"
    by (auto simp: own_step_def)
  from rs'(1) have "it_step read_prog fresh (sy_sys y) (rs_sys rs')"
    by cases (use assms(2,3) it_step.send in auto)
  then show "it_step read_prog fresh (sy_sys y) (sy_sys y')" "sy_events y' = sy_events y" using rs'(2) by simp_all
qed

lemma other_step_extends:
  assumes "system_step api fresh queues y y'" and "\<not> own_step api fresh y y'" and "store_inv (store (sy_sys y))"
  shows "pc (sy_sys y') = pc (sy_sys y) \<and> delivered (sy_sys y') = delivered (sy_sys y) \<and> extends a y y'"
  using assms(1)
proof cases
  case (own rs')
  then show ?thesis using assms(2) by (auto simp: own_step_def)
next
  case (background s')
  then show ?thesis by (auto elim!: env_step.cases simp: extends_def)
next
  case (event_pushed pr qcfg b s q')
  have "requests q' = add_mset pr (requests (store s ! b))"
    using Push_correct [OF store_invD [OF _ event_pushed(7)], of "\<lambda>_ x. x" "()" pr] event_pushed(6,9) assms(3) by auto
  then have "extends a y y'"
    using event_pushed(1,6,7) unfolding extends_def
    by (intro exI [of _ "[pr]"] exI [of _ "if a = b then {#pr#} else {#}"]) (auto simp: nth_list_update)
  then show ?thesis using event_pushed(1,6) by auto
qed (auto simp: extends_def)

lemma system_step_cancelled: "system_step api fresh queues y y' \<Longrightarrow> cancelled (sy_sys y) \<Longrightarrow> cancelled (sy_sys y')"
  by (induction rule: system_step.induct)
    (auto elim!: controller_step.cases env_step.cases dest: it_step_frame)

lemma fair_state_parts:
  assumes "fair_state c r0 y"
  shows "sys_inv (reader_ok (it_configs (ctl_iterator c))) (addresses (it_configs (ctl_iterator c))) (sy_sys y)"
    "rr_fair.readers_fair (it_configs (ctl_iterator c)) r0 (sy_sys y)" "rr_fair.all_sized (it_configs (ctl_iterator c)) (sy_sys y)"
    "store_inv (store (sy_sys y))" "pc (sy_sys y) = Closed \<Longrightarrow> cancelled (sy_sys y)"
    "a < length (store (sy_sys y)) \<longleftrightarrow> a \<in> addresses (it_configs (ctl_iterator c))"
    "arbiter_inv (size_limits (ctl_queues c)) (arbiter_of (ctl_queues c) y)"
proof -
  show inv: "sys_inv (reader_ok (it_configs (ctl_iterator c))) (addresses (it_configs (ctl_iterator c))) (sy_sys y)"
    "rr_fair.readers_fair (it_configs (ctl_iterator c)) r0 (sy_sys y)" "rr_fair.all_sized (it_configs (ctl_iterator c)) (sy_sys y)"
    "arbiter_inv (size_limits (ctl_queues c)) (arbiter_of (ctl_queues c) y)"
    using assms unfolding fair_state_def by blast+
  show "store_inv (store (sy_sys y))" "pc (sy_sys y) = Closed \<Longrightarrow> cancelled (sy_sys y)"
    using inv(1) by (simp_all add: sys_inv_def store_ok_def pc_inv_def)
  show "a < length (store (sy_sys y)) \<longleftrightarrow> a \<in> addresses (it_configs (ctl_iterator c))"
    using assms by (simp add: fair_state_def)
qed

text \<open>A step while the queue at \<open>a\<close> has something to read: the queue is popped, or its turn comes nearer.\<close>

lemma waiting_step:
  assumes new: "New informer api opts cfg [] = Some (Inr c, st')" and rr: "round_robin_iterator oor (ctl_iterator c) r0"
    and fs: "fair_state c r0 y" "fair_state c r0 y'" and nc: "\<not> cancelled (sy_sys y)"
    and step: "system_step api' (new_readers oor (ctl_iterator c)) (ctl_queues c) y y'"
    and a: "a < length (store (sy_sys y))" and wait: "Len (store (sy_sys y) ! a) \<noteq> 0"
    and due: "rr_fair.due (it_configs (ctl_iterator c)) r0 a m (sy_sys y)"
  shows "own_step api' (new_readers oor (ctl_iterator c)) y y' \<and> pops a (sy_sys y) (sy_sys y') \<or>
    extends a y y' \<and> (\<exists>m'. rr_fair.due (it_configs (ctl_iterator c)) r0 a m' (sy_sys y') \<and>
      length (delivered (sy_sys y')) + m' \<le> length (delivered (sy_sys y)) + m \<and>
      (if own_step api' (new_readers oor (ctl_iterator c)) y y'
       then (rr_fair.rank (it_configs (ctl_iterator c)) r0 a m' (sy_sys y'), rr_fair.rank (it_configs (ctl_iterator c)) r0 a m (sy_sys y))
         \<in> rr_fair.turn_order
       else m' = m \<and> pc (sy_sys y') = pc (sy_sys y)))"
proof -
  let ?cs = "it_configs (ctl_iterator c)" and ?own = "own_step api' (new_readers oor (ctl_iterator c))"
  note p = fair_state_parts [OF fs(1)] and p' = fair_state_parts [OF fs(2)]
  have nclosed: "pc (sy_sys y) \<noteq> Closed" using p(5) nc by blast
  show ?thesis
  proof (cases "?own y y'")
    case True
    note it = own_step_iterates [OF True nc nclosed]
    show ?thesis
    proof (cases "pops a (sy_sys y) (sy_sys y')")
      case False
      then have "\<nexists>k. pc (sy_sys y) = Reading (PopOf (Some a) k)" using pop_pops [OF it(1) p(1) p'(1) _ a wait] by blast
      from rr_fair.due_step [OF it(1) p(1-3) round_robin_fresh [OF new rr] nc _ wait due this] a p(6)
      have "\<exists>m'. rr_fair.due ?cs r0 a m' (sy_sys y') \<and> length (delivered (sy_sys y')) + m' \<le> length (delivered (sy_sys y)) + m \<and>
          (rr_fair.rank ?cs r0 a m' (sy_sys y'), rr_fair.rank ?cs r0 a m (sy_sys y)) \<in> rr_fair.turn_order" by blast
      moreover have "extends a y y'" using it_step_pops [OF it(1) p(1) p'(1) a] False it(2) by (simp add: extends_def)
      ultimately show ?thesis using True by auto
    qed (use True in simp)
  next
    case False
    note same = other_step_extends [OF step False p(4), of a]
    then show ?thesis using False due rr_fair.due_cong [of "sy_sys y'" "sy_sys y" ?cs r0 a m] by auto
  qed
qed

section \<open>How long a scheduler waits\<close>

text \<open>The queue of a scheduler, by its address in the store.\<close>

definition queue_at :: "PlacementRequestController \<Rightarrow> string \<Rightarrow> nat \<Rightarrow> bool" where
  "queue_at c name a \<longleftrightarrow> (\<exists>q. ctl_queues c name = Some q \<and> QueueRef q = Some a)"

lemma queue_at_queued: "queue_at c name a \<Longrightarrow> queued (ctl_queues c) st name = requests (st ! a)"
  by (auto simp: queue_at_def queued_def)

lemma queue_at_bound: "fair_state c r0 y \<Longrightarrow> queue_at c name a \<Longrightarrow> a < length (store (sy_sys y))"
  unfolding fair_state_def routes_def queue_at_def by fastforce

text \<open>A request of the scheduler was handed over since \<open>n\<close>, or it is in the iterator's hand, or the turn is near.\<close>

definition wait_inv :: "PlacementRequestController \<Rightarrow> RoundRobinReader \<Rightarrow> string \<Rightarrow> nat \<Rightarrow> nat \<Rightarrow> nat \<Rightarrow> 'w system \<Rightarrow> bool" where
  "wait_inv c r0 name a n b y \<longleftrightarrow> n \<le> length (delivered (sy_sys y)) \<and>
     ((\<exists>pr \<in> set (drop n (delivered (sy_sys y))). SchedulerName (Spec pr) = name) \<or>
      length (delivered (sy_sys y)) \<le> n + b \<and> (\<exists>pr. holding (sy_sys y) = Some pr \<and> SchedulerName (Spec pr) = name) \<or>
      Len (store (sy_sys y) ! a) \<noteq> 0 \<and> (\<exists>m. rr_fair.due (it_configs (ctl_iterator c)) r0 a m (sy_sys y) \<and>
        length (delivered (sy_sys y)) + m \<le> n + b))"

lemma delivered_grows:
  assumes "fair_state c r0 y" "fair_state c r0 y'" and "\<not> cancelled (sy_sys y)"
    and "system_step api' fresh (ctl_queues c) y y'"
  shows "delivered (sy_sys y') = delivered (sy_sys y) \<and> holding (sy_sys y) \<in> {None, holding (sy_sys y')} \<or>
    (\<exists>pr. holding (sy_sys y) = Some pr \<and> delivered (sy_sys y') = delivered (sy_sys y) @ [pr])"
proof (cases "own_step api' fresh y y'")
  case True
  note p = fair_state_parts [OF assms(1)] and p' = fair_state_parts [OF assms(2)]
  from own_step_iterates(1) [OF True assms(3)] p(5) assms(3)
  have "it_step read_prog fresh (sy_sys y) (sy_sys y')" by blast
  from it_step_effect [OF this p(1) p'(1)] assms(3) show ?thesis by auto
next
  case False
  from other_step_extends [OF assms(4) False fair_state_parts(4) [OF assms(1)]] show ?thesis by (simp add: holding_def)
qed

lemma wait_inv_step:
  assumes new: "New informer api opts cfg [] = Some (Inr c, st')" and rr: "round_robin_iterator oor (ctl_iterator c) r0"
    and fs: "fair_state c r0 y" "fair_state c r0 y'" and nc: "\<not> cancelled (sy_sys y)"
    and step: "system_step api' (new_readers oor (ctl_iterator c)) (ctl_queues c) y y'"
    and q: "queue_at c name a" and inv: "wait_inv c r0 name a n b y"
  shows "wait_inv c r0 name a n b y'"
proof -
  note d = delivered_grows [OF fs nc step]
  have len: "n \<le> length (delivered (sy_sys y))" using inv by (simp add: wait_inv_def)
  consider (served) pr where "pr \<in> set (drop n (delivered (sy_sys y)))" "SchedulerName (Spec pr) = name"
    | (held) pr where "holding (sy_sys y) = Some pr" "SchedulerName (Spec pr) = name" "length (delivered (sy_sys y)) \<le> n + b"
    | (waits) m where "Len (store (sy_sys y) ! a) \<noteq> 0" "rr_fair.due (it_configs (ctl_iterator c)) r0 a m (sy_sys y)"
        "length (delivered (sy_sys y)) + m \<le> n + b"
    using inv unfolding wait_inv_def by blast
  then show ?thesis
  proof cases
    case served
    then show ?thesis using d len unfolding wait_inv_def by (elim disjE exE conjE) auto
  next
    case held
    then have "delivered (sy_sys y') = delivered (sy_sys y) \<and> holding (sy_sys y') = Some pr \<or>
        delivered (sy_sys y') = delivered (sy_sys y) @ [pr]" using d by auto
    then show ?thesis using held len unfolding wait_inv_def by (elim disjE conjE) simp_all
  next
    case waits
    have a: "a < length (store (sy_sys y))" by (rule queue_at_bound [OF fs(1) q])
    from waiting_step [OF new rr fs nc step a waits(1,2)] show ?thesis
    proof (elim disjE exE conjE)
      assume "pops a (sy_sys y) (sy_sys y')"
      then obtain pr where pr: "pr \<in># requests (store (sy_sys y) ! a)" "holding (sy_sys y') = Some pr"
        "delivered (sy_sys y') = delivered (sy_sys y)" unfolding pops_def by auto
      have "SchedulerName (Spec pr) = name"
        using queued_events(2) [OF fair_state_parts(7) [OF fs(1)]] pr(1) queue_at_queued [OF q] by simp
      then show ?thesis using pr(2,3) waits(3) len by (simp add: wait_inv_def)
    next
      fix m'
      assume "extends a y y'" "rr_fair.due (it_configs (ctl_iterator c)) r0 a m' (sy_sys y')"
        "length (delivered (sy_sys y')) + m' \<le> length (delivered (sy_sys y)) + m"
      then show ?thesis using extends_Len waits(1,3) len d unfolding wait_inv_def by fastforce
    qed
  qed
qed

lemma wait_inv_start:
  assumes "fair_state c r0 y" and "queue_at c name a" and "Len (store (sy_sys y) ! a) \<noteq> 0"
  shows "wait_inv c r0 name a (length (delivered (sy_sys y))) (Suc (longest_wait (queue_index a r0) r0)) y"
  using rr_fair.due_start [OF fair_state_parts(2) [OF assms(1)]] fair_state_parts(6) [OF assms(1)] queue_at_bound [OF assms(1,2)] assms(3)
  unfolding wait_inv_def by blast

text \<open>
  C4: a scheduler waits only for a bounded number of requests of the others. Take a controller made by
  \<open>New\<close> with the round robin algorithm, of at least one queue and weights up to \<open>2 ^ 58\<close>, a reachable
  state in which the queue of a scheduler has something to read, and any later state, in whatever
  interleaving of events, iterator and \<open>Run\<close>, pushes in the middle of a \<open>Read\<close> included, while the context
  is not cancelled. Then a request of that scheduler has been handed over in between, or not more
  requests than the maxima of all queues together, plus those of the queues before it, plus one, have
  been (the requests having at least one binding, as the API server requires, and at most \<open>2 ^ 62\<close>).
\<close>

theorem scheduler_wait_bounded:
  assumes "New informer api opts cfg [] = Some (Inr c, st')"
    and "cfg_FairnessAlgorithm cfg \<noteq> Uniform" and "Queues cfg \<noteq> []" and "\<forall>q \<in> set (Queues cfg). uint (Weight q) \<le> 2 ^ 58"
    and "NewRoundRobinReader oor (it_configs (ctl_iterator c)) = Some r0"
    and "system_reaches api' (new_readers oor (ctl_iterator c)) (ctl_queues c) st' w y"
    and "queue_at c name a" and "Len (store (sy_sys y) ! a) \<noteq> 0"
    and "(system_step api' (new_readers oor (ctl_iterator c)) (ctl_queues c))\<^sup>*\<^sup>* y y'"
    and "sized_events y'" and "\<not> cancelled (sy_sys y')"
  shows "(\<exists>pr \<in> set (drop (length (delivered (sy_sys y))) (delivered (sy_sys y'))). SchedulerName (Spec pr) = name) \<or>
    length (delivered (sy_sys y')) \<le> length (delivered (sy_sys y)) + longest_wait (queue_index a r0) r0 + 1"
proof -
  note rr = config_round_robin [OF assms(1-5)]
  let ?b = "Suc (longest_wait (queue_index a r0) r0)" and ?n = "length (delivered (sy_sys y))"
  have fs: "fair_state c r0 z" if "(system_step api' (new_readers oor (ctl_iterator c)) (ctl_queues c))\<^sup>*\<^sup>* y z" "sized_events z" for z
    using fair_state_reached [OF assms(1) rr _ that(2)] assms(6) that(1) unfolding system_reaches_def by (metis rtranclp_trans)
  have "wait_inv c r0 name a ?n ?b y'"
    using assms(9-11)
  proof (induction rule: rtranclp_induct)
    case base
    then show ?case using wait_inv_start [OF fs [OF rtranclp.rtrancl_refl] assms(7,8)] by blast
  next
    case (step z z')
    have "sized_events z" using system_step_events [OF step(2)] step.prems(1) by (auto simp: sized_events_def)
    moreover have "\<not> cancelled (sy_sys z)" using system_step_cancelled [OF step(2)] step.prems(2) by blast
    ultimately show ?case
      using wait_inv_step [OF assms(1) rr fs fs _ step(2) assms(7)] step by (meson rtranclp.rtrancl_into_rtrancl)
  qed
  then show ?thesis unfolding wait_inv_def by auto
qed

section \<open>Infinite runs\<close>

text \<open>
  A run is an infinite sequence of states, in which the system makes a step or rests. It is fair if
  every push under way comes to its end, and if the controller, when it can make a step of its own again
  and again, makes one again and again. This is what the Go runtime does for runnable goroutines and,
  since its mutexes do not starve a waiting goroutine, for one that waits for a queue.
\<close>

definition fair_run ::
  "'w api \<Rightarrow> reader_state option set \<Rightarrow> (string \<rightharpoonup> QueueConfig) \<Rightarrow> (nat \<Rightarrow> 'w system) \<Rightarrow> bool" where
  "fair_run api fresh queues f \<longleftrightarrow>
     (\<forall>i. f (Suc i) = f i \<or> system_step api fresh queues (f i) (f (Suc i))) \<and>
     (\<forall>i a. \<exists>j \<ge> i. mid (sy_sys (f j)) a = None) \<and>
     ((\<forall>i. \<exists>j \<ge> i. \<exists>rs'. controller_step api fresh (sy_run (f j)) rs') \<longrightarrow>
      (\<forall>i. \<exists>j \<ge> i. own_step api fresh (f j) (f (Suc j))))"

definition round_robin_run ::
  "(rat \<Rightarrow> int) \<Rightarrow> PlacementRequestController \<Rightarrow> RoundRobinReader \<Rightarrow> 'w api \<Rightarrow> (nat \<Rightarrow> 'w system) \<Rightarrow> bool" where
  "round_robin_run oor c r0 api f \<longleftrightarrow>
     fair_run api (new_readers oor (ctl_iterator c)) (ctl_queues c) f \<and>
     (\<forall>i. fair_state c r0 (f i) \<and> \<not> cancelled (sy_sys (f i)))"

lemma run_quiet:
  assumes "round_robin_run oor c r0 api f" and "i \<le> j"
    and "\<And>l. i \<le> l \<Longrightarrow> l < j \<Longrightarrow> \<not> own_step api (new_readers oor (ctl_iterator c)) (f l) (f (Suc l))"
  shows "pc (sy_sys (f j)) = pc (sy_sys (f i)) \<and> extends a (f i) (f j)"
  using assms(2,3)
proof (induction j rule: dec_induct)
  case (step n)
  then have IH: "pc (sy_sys (f n)) = pc (sy_sys (f i)) \<and> extends a (f i) (f n)" by simp
  have fs: "fair_state c r0 (f n)" using assms(1) by (simp add: round_robin_run_def)
  have "f (Suc n) = f n \<or> system_step api (new_readers oor (ctl_iterator c)) (ctl_queues c) (f n) (f (Suc n))"
    using assms(1) by (simp add: round_robin_run_def fair_run_def)
  then have "pc (sy_sys (f (Suc n))) = pc (sy_sys (f n)) \<and> extends a (f n) (f (Suc n))"
    using other_step_extends [OF _ step.prems fair_state_parts(4) [OF fs]] step.hyps by auto
  then show ?case using IH extends_trans by metis
qed simp

text \<open>While there is something to do, the controller can make a step of its own again and again.\<close>

definition busy :: "nat \<Rightarrow> 'w system \<Rightarrow> bool" where
  "busy a y \<longleftrightarrow> a < length (store (sy_sys y)) \<and> Len (store (sy_sys y) ! a) \<noteq> 0 \<or> holding (sy_sys y) \<noteq> None"

lemma busy_extends:
  assumes "fair_state c r0 y" and "fair_state c r0 y'" and "pc (sy_sys y') = pc (sy_sys y)" and "extends a y y'" and "busy a y"
  shows "busy a y'"
proof -
  have "a < length (store (sy_sys y)) \<longleftrightarrow> a < length (store (sy_sys y'))"
    using fair_state_parts(6) [OF assms(1), of a] fair_state_parts(6) [OF assms(2), of a] by metis
  moreover have "holding (sy_sys y') = holding (sy_sys y)" using assms(3) by (simp add: holding_def)
  ultimately show ?thesis using extends_Len [OF assms(4)] assms(5) unfolding busy_def by metis
qed

text \<open>The queue whose push the iterator may have to wait for.\<close>

definition blocker :: "nat \<Rightarrow> 'r it_pc \<Rightarrow> nat" where
  "blocker a p = (case p of Reading q \<Rightarrow> (case wants q of None \<Rightarrow> a | Some b \<Rightarrow> b) | _ \<Rightarrow> a)"

lemma busy_progress:
  assumes fs: "fair_state c r0 y" and "\<not> cancelled (sy_sys y)" and "busy a y"
  shows "(\<exists>rs'. controller_step api (new_readers oor (ctl_iterator c)) (sy_run y) rs') \<or>
    mid (sy_sys y) (blocker a (pc (sy_sys y))) \<noteq> None"
proof -
  let ?fresh = "new_readers oor (ctl_iterator c)"
  note p = fair_state_parts [OF fs]
  have sel: "rs_ctl (sy_run y) = Selecting" using fs assms(2) unfolding fair_state_def by blast
  have "\<exists>rs'. controller_step api ?fresh (sy_run y) rs'" if "\<exists>s'. it_step read_prog ?fresh (sy_sys y) s'"
    using controller_stuck [of api ?fresh "sy_run y"] that sel by blast
  moreover have "mid (sy_sys y) a \<noteq> None" if w: "pc (sy_sys y) = Waiting" "resume (sy_sys y) = 0"
  proof -
    have "holding (sy_sys y) = None" using w(1) by (simp add: holding_def)
    then have "a < length (store (sy_sys y))" "Len (store (sy_sys y) ! a) \<noteq> 0" using assms(3) by (auto simp: busy_def)
    moreover have "settled (sy_sys y) (addresses (it_configs (ctl_iterator c)))"
      using p(1) w(1) by (simp add: sys_inv_def pc_inv_def)
    ultimately show ?thesis using w(2) p(6) [of a] unfolding settled_def by auto
  qed
  ultimately show ?thesis
    using program_readers.progress [OF p(1) new_readers_nonempty [of oor "ctl_iterator c"]] p(5) assms(2)
    unfolding blocker_def by fastforce
qed

lemma own_soon:
  assumes run: "round_robin_run oor c r0 api f" and "busy a (f i)"
  shows "\<exists>j \<ge> i. own_step api (new_readers oor (ctl_iterator c)) (f j) (f (Suc j))"
proof (rule ccontr)
  let ?own = "\<lambda>j. own_step api (new_readers oor (ctl_iterator c)) (f j) (f (Suc j))"
  assume no: "\<not> ?thesis"
  have fair: "\<And>i a. \<exists>j \<ge> i. mid (sy_sys (f j)) a = None"
      "(\<forall>i. \<exists>j \<ge> i. \<exists>rs'. controller_step api (new_readers oor (ctl_iterator c)) (sy_run (f j)) rs') \<Longrightarrow> (\<forall>i. \<exists>j \<ge> i. ?own j)"
    and st: "\<And>j. fair_state c r0 (f j)" "\<And>j. \<not> cancelled (sy_sys (f j))"
    using run unfolding round_robin_run_def fair_run_def by blast+
  have quiet: "pc (sy_sys (f j)) = pc (sy_sys (f i)) \<and> extends a (f i) (f j)" if "i \<le> j" for j
    using run_quiet [OF run that, of a] no by blast
  have busy: "busy a (f j)" if "i \<le> j" for j
    using quiet [OF that] busy_extends [OF st(1) st(1) _ _ assms(2)] by blast
  have "\<exists>l \<ge> j. \<exists>rs'. controller_step api (new_readers oor (ctl_iterator c)) (sy_run (f l)) rs'" for j
  proof -
    obtain l where l: "max i j \<le> l" "mid (sy_sys (f l)) (blocker a (pc (sy_sys (f i)))) = None" using fair(1) by blast
    have "pc (sy_sys (f l)) = pc (sy_sys (f i))" using quiet [of l] l(1) by simp
    then have "\<exists>rs'. controller_step api (new_readers oor (ctl_iterator c)) (sy_run (f l)) rs'"
      using busy_progress [OF st busy, of l api oor] l by auto
    then show ?thesis using l(1) by auto
  qed
  then show False using fair(2) no by blast
qed

lemma next_own:
  assumes run: "round_robin_run oor c r0 api f" and "busy a (f i)"
  obtains j where "i \<le> j" "own_step api (new_readers oor (ctl_iterator c)) (f j) (f (Suc j))"
    "pc (sy_sys (f j)) = pc (sy_sys (f i))" "extends a (f i) (f j)"
proof -
  let ?P = "\<lambda>j. i \<le> j \<and> own_step api (new_readers oor (ctl_iterator c)) (f j) (f (Suc j))"
  from own_soon [OF assms] obtain j where j: "?P j" "\<And>l. l < j \<Longrightarrow> \<not> ?P l" using exists_least_iff [of ?P] by blast
  then have "pc (sy_sys (f j)) = pc (sy_sys (f i)) \<and> extends a (f i) (f j)" by (intro run_quiet [OF run]) blast+
  with j(1) show ?thesis using that by blast
qed

lemma run_own_iterates:
  assumes "round_robin_run oor c r0 api f" and "own_step api (new_readers oor (ctl_iterator c)) (f j) (f (Suc j))"
  shows "it_step read_prog (new_readers oor (ctl_iterator c)) (sy_sys (f j)) (sy_sys (f (Suc j)))"
proof -
  have "fair_state c r0 (f j)" "\<not> cancelled (sy_sys (f j))" using assms(1) by (simp_all add: round_robin_run_def)
  then show ?thesis using own_step_iterates(1) [OF assms(2)] fair_state_parts(5) by blast
qed

section \<open>Every request is handed over\<close>

lemma popped_eventually:
  assumes new: "New informer api opts cfg [] = Some (Inr c, st')" and rr: "round_robin_iterator oor (ctl_iterator c) r0"
    and run: "round_robin_run oor c r0 api' f" and a: "\<And>j. a < length (store (sy_sys (f j)))"
    and "Len (store (sy_sys (f i)) ! a) \<noteq> 0"
  shows "\<exists>j \<ge> i. pops a (sy_sys (f j)) (sy_sys (f (Suc j))) \<and> extends a (f i) (f j)"
proof -
  let ?cs = "it_configs (ctl_iterator c)" and ?fresh = "new_readers oor (ctl_iterator c)"
  have fs: "\<And>j. fair_state c r0 (f j)" and nc: "\<And>j. \<not> cancelled (sy_sys (f j))"
    using run by (simp_all add: round_robin_run_def)
  have "\<exists>j \<ge> i. pops a (sy_sys (f j)) (sy_sys (f (Suc j))) \<and> extends a (f i) (f j)"
    if "rr_fair.due ?cs r0 a m (sy_sys (f i))" "Len (store (sy_sys (f i)) ! a) \<noteq> 0" "x = rr_fair.rank ?cs r0 a m (sy_sys (f i))" for i m x
    using that
  proof (induction x arbitrary: i m rule: wf_induct_rule [OF rr_fair.wf_turn_order])
    case (1 x)
    have "busy a (f i)" using a "1.prems"(2) by (simp add: busy_def)
    then obtain j where j: "i \<le> j" "own_step api' ?fresh (f j) (f (Suc j))" "pc (sy_sys (f j)) = pc (sy_sys (f i))" "extends a (f i) (f j)"
      using next_own [OF run] by blast
    have step: "system_step api' ?fresh (ctl_queues c) (f j) (f (Suc j))" using j(2) system_step.own unfolding own_step_def by metis
    have w: "Len (store (sy_sys (f j)) ! a) \<noteq> 0" using extends_Len [OF j(4) "1.prems"(2)] .
    have same: "rr_fair.due ?cs r0 a m (sy_sys (f j))" "rr_fair.rank ?cs r0 a m (sy_sys (f j)) = x"
      using rr_fair.due_cong [OF j(3), of ?cs r0 a m] "1.prems"(1,3) by simp_all
    from waiting_step [OF new rr fs fs nc step a w same(1)] j(2) show ?case
    proof (elim disjE conjE exE)
      assume "pops a (sy_sys (f j)) (sy_sys (f (Suc j)))"
      then show ?thesis using j(1,4) by blast
    next
      fix m'
      assume e: "extends a (f j) (f (Suc j))" and d: "rr_fair.due ?cs r0 a m' (sy_sys (f (Suc j)))"
        and "if own_step api' ?fresh (f j) (f (Suc j))
          then (rr_fair.rank ?cs r0 a m' (sy_sys (f (Suc j))), rr_fair.rank ?cs r0 a m (sy_sys (f j))) \<in> rr_fair.turn_order
          else m' = m \<and> pc (sy_sys (f (Suc j))) = pc (sy_sys (f j))"
      then have "(rr_fair.rank ?cs r0 a m' (sy_sys (f (Suc j))), x) \<in> rr_fair.turn_order" using j(2) same(2) by simp
      from "1.IH" [OF this d extends_Len [OF e w] refl] obtain l where
        l: "Suc j \<le> l" "pops a (sy_sys (f l)) (sy_sys (f (Suc l)))" "extends a (f (Suc j)) (f l)" by blast
      have "extends a (f i) (f l)" using extends_trans j(4) e l(3) by blast
      then show ?thesis using l(1,2) j(1) by (intro exI [of _ l]) simp
    qed
  qed
  then show ?thesis
    using rr_fair.due_start [OF fair_state_parts(2) [OF fs]] fair_state_parts(6) [OF fs] a assms(5) by blast
qed

lemma held_eventually_delivered:
  assumes run: "round_robin_run oor c r0 api f" and held: "holding (sy_sys (f i)) = Some pr"
  shows "\<exists>j \<ge> i. pr \<in> set (delivered (sy_sys (f j)))"
proof -
  have nc: "\<And>j. \<not> cancelled (sy_sys (f j))" using run by (simp add: round_robin_run_def)
  have own: "\<exists>j \<ge> i. it_step read_prog (new_readers oor (ctl_iterator c)) (sy_sys (f j)) (sy_sys (f (Suc j))) \<and>
      pc (sy_sys (f j)) = pc (sy_sys (f i))" if "holding (sy_sys (f i)) = Some pr" for i
    by (rule next_own [OF run, of undefined i]) (use that run_own_iterates [OF run] in \<open>auto simp: busy_def\<close>)
  have sending: "\<exists>j \<ge> i. pr \<in> set (delivered (sy_sys (f j)))" if s: "pc (sy_sys (f i)) = Sending pr r" for i r
  proof -
    from own [of i] s obtain j where j: "i \<le> j" "it_step read_prog (new_readers oor (ctl_iterator c)) (sy_sys (f j)) (sy_sys (f (Suc j)))"
      "pc (sy_sys (f j)) = Sending pr r" by (auto simp: holding_def)
    from j(2) have "pr \<in> set (delivered (sy_sys (f (Suc j))))" by (cases rule: it_cases) (use j(3) nc [of j] in auto)
    then show ?thesis using j(1) by (intro exI [of _ "Suc j"]) simp
  qed
  from held consider r where "pc (sy_sys (f i)) = Sending pr r" | r where "pc (sy_sys (f i)) = Reading (Return (Some pr) r)"
    by (auto simp: holding_def split: it_pc.splits prog.splits option.splits)
  then show ?thesis
  proof cases
    case 2
    with own [OF held] obtain j where j: "i \<le> j" "it_step read_prog (new_readers oor (ctl_iterator c)) (sy_sys (f j)) (sy_sys (f (Suc j)))"
      "pc (sy_sys (f j)) = Reading (Return (Some pr) r)" by auto
    from j(2) have "pc (sy_sys (f (Suc j))) = Sending pr r" by (cases rule: it_cases) (use j(3) in auto)
    from sending [OF this] j(1) show ?thesis using Suc_leD order_trans by blast
  qed (rule sending)
qed

lemma run_events_mono:
  assumes "round_robin_run oor c r0 api f" and "i \<le> j"
  shows "\<exists>evs. sy_events (f j) = sy_events (f i) @ evs"
  using assms(2)
proof (induction j rule: dec_induct)
  case (step n)
  have "f (Suc n) = f n \<or> system_step api (new_readers oor (ctl_iterator c)) (ctl_queues c) (f n) (f (Suc n))"
    using assms(1) by (simp add: round_robin_run_def fair_run_def)
  then show ?case using step.IH system_step_events by (metis append.assoc append_Nil2)
qed simp

text \<open>The requests of the queue that are not younger than \<open>x\<close>; no more of them arrive, and each pop takes one.\<close>

lemma queued_eventually_delivered:
  assumes new: "New informer api opts cfg [] = Some (Inr c, st')" and rr: "round_robin_iterator oor (ctl_iterator c) r0"
    and run: "round_robin_run oor c r0 api' f" and q: "queue_at c name a"
    and late: "\<And>j z. z \<in> set (drop n (sy_events (f j))) \<Longrightarrow> SchedulerName (Spec z) = name \<Longrightarrow> age_rank x < age_rank z"
    and "n \<le> length (sy_events (f i))" and "x \<in># requests (store (sy_sys (f i)) ! a)"
  shows "\<exists>j \<ge> i. x \<in> set (delivered (sy_sys (f j)))"
  using assms(6,7)
proof (induction "size (filter_mset (\<lambda>z. age_rank z \<le> age_rank x) (requests (store (sy_sys (f i)) ! a)))" arbitrary: i rule: less_induct)
  case less
  let ?old = "\<lambda>M. filter_mset (\<lambda>z. age_rank z \<le> age_rank x) M" and ?R = "\<lambda>j. requests (store (sy_sys (f j)) ! a)"
  have fs: "\<And>j. fair_state c r0 (f j)" using run by (simp add: round_robin_run_def)
  have "Len (store (sy_sys (f i)) ! a) \<noteq> 0" using less.prems(2) by (auto simp: Len_requests)
  from popped_eventually [OF new rr run queue_at_bound [OF fs q] this] obtain j where
    j: "i \<le> j" "pops a (sy_sys (f j)) (sy_sys (f (Suc j)))" "extends a (f i) (f j)" by blast
  from j(3) obtain evs N where e: "sy_events (f j) = sy_events (f i) @ evs" "N \<subseteq># mset evs" "?R j = ?R i + N"
    unfolding extends_def by blast
  have "age_rank x < age_rank z" if "z \<in># N" for z
  proof (rule late [of z j])
    show "z \<in> set (drop n (sy_events (f j)))" using mset_subset_eqD [OF e(2) that] less.prems(1) by (simp add: e(1))
    show "SchedulerName (Spec z) = name"
      using queued_events(2) [OF fair_state_parts(7) [OF fs]] queue_at_queued [OF q] e(3) that by (metis union_iff)
  qed
  then have "?old N = {#}" by (intro multiset_eqI) (fastforce simp: not_in_iff)
  then have old: "?old (?R j) = ?old (?R i)" by (simp add: e(3))
  from j(2) obtain pr where pr: "?R j = add_mset pr (?R (Suc j))" "\<forall>z. z \<in># ?R j \<longrightarrow> age_rank pr \<le> age_rank z"
    "holding (sy_sys (f (Suc j))) = Some pr" unfolding pops_def by blast
  have x: "x \<in># ?R j" using less.prems(2) e(3) by simp
  show ?case
  proof (cases "x = pr")
    case True
    from held_eventually_delivered [OF run pr(3)] True j(1) show ?thesis using Suc_leD order_trans by blast
  next
    case False
    then have "x \<in># ?R (Suc j)" using x pr(1) by simp
    moreover have "size (?old (?R (Suc j))) < size (?old (?R i))"
      unfolding old [symmetric] pr(1) using pr(2) x by simp
    moreover have "n \<le> length (sy_events (f (Suc j)))"
      using run_events_mono [OF run, of i "Suc j"] j(1) less.prems(1) by auto
    ultimately have "\<exists>l \<ge> Suc j. x \<in> set (delivered (sy_sys (f l)))" by (intro less.hyps)
    then show ?thesis using j(1) Suc_leD order_trans by blast
  qed
qed

lemma run_reaches:
  assumes "fair_run api fresh queues f" and "f 0 = system_start st w"
  shows "system_reaches api fresh queues st w (f i)"
proof (induction i)
  case 0
  show ?case using assms(2) by (simp add: system_reaches_def)
next
  case (Suc i)
  have "f (Suc i) = f i \<or> system_step api fresh queues (f i) (f (Suc i))" using assms(1) by (simp add: fair_run_def)
  then show ?case using Suc unfolding system_reaches_def by (metis rtranclp.rtrancl_into_rtrancl)
qed

text \<open>An admitted request is handed over, in the iterator's hand, or in the queue of its scheduler.\<close>

lemma admitted_whereabouts:
  assumes fs: "fair_state c r0 y" and "\<not> cancelled (sy_sys y)" and "pr \<in> set (sy_events y)"
    and "admitted (size_limits (ctl_queues c)) pr"
  obtains a where "queue_at c (SchedulerName (Spec pr)) a"
    "pr \<in> set (delivered (sy_sys y)) \<or> holding (sy_sys y) = Some pr \<or> pr \<in># requests (store (sy_sys y) ! a)"
proof -
  let ?name = "SchedulerName (Spec pr)" and ?L = "size_limits (ctl_queues c)" and ?A = "arbiter_of (ctl_queues c) y"
  from assms(4) obtain q where q: "ctl_queues c ?name = Some q" by (auto simp: admitted_limit size_limits_def)
  then obtain a where "QueueRef q = Some a" using fs unfolding fair_state_def routes_def by blast
  then have a: "queue_at c ?name a" using q by (auto simp: queue_at_def)
  note inv = fair_state_parts(7) [OF fs]
  have "ar_dropped ?A = []" using inv assms(2) by (auto simp: arbiter_inv_def arbiter_of_def Let_def)
  with inv have "of_scheduler ?name (mset (filter (admitted ?L) (sy_events y))) =
      of_scheduler ?name (mset (delivered (sy_sys y)) + taken ?A) + requests (store (sy_sys y) ! a)"
    using queue_at_queued [OF a] by (simp add: arbiter_inv_def arbiter_of_def Let_def)
  moreover have "pr \<in># of_scheduler ?name (mset (filter (admitted ?L) (sy_events y)))"
    using assms(3,4) by (simp add: of_scheduler_def)
  ultimately have "pr \<in># of_scheduler ?name (mset (delivered (sy_sys y)) + taken ?A) + requests (store (sy_sys y) ! a)" by simp
  then show ?thesis
    by (intro that [OF a]) (auto simp: of_scheduler_def taken_def arbiter_of_def Let_def split: option.splits)
qed

text \<open>
  C2: every request is served in the end, whatever the other schedulers do. Take a fair infinite run of
  the system of a controller made by \<open>New\<close> with the round robin algorithm, of at least one queue and
  weights up to \<open>2 ^ 58\<close>, in which the context is not cancelled, events keep coming, and the requests have
  at least one binding, as the API server requires, and at most \<open>2 ^ 62\<close>. Every admitted request that was
  reported is handed over to \<open>Run\<close> and processed by \<open>ScheduleOne\<close>, if from some time on its own scheduler
  only sends younger requests.
\<close>

theorem every_request_served:
  assumes "New informer api opts cfg [] = Some (Inr c, st')"
    and "cfg_FairnessAlgorithm cfg \<noteq> Uniform" and "Queues cfg \<noteq> []" and "\<forall>q \<in> set (Queues cfg). uint (Weight q) \<le> 2 ^ 58"
    and "fair_run api' (new_readers oor (ctl_iterator c)) (ctl_queues c) f" and "f 0 = system_start st' w"
    and "\<forall>i. \<not> cancelled (sy_sys (f i)) \<and> sized_events (f i)"
    and "pr \<in> set (sy_events (f i))" and "admitted (size_limits (ctl_queues c)) pr"
    and "\<forall>j \<ge> k. \<forall>z \<in> set (drop (length (sy_events (f k))) (sy_events (f j))).
      SchedulerName (Spec z) = SchedulerName (Spec pr) \<longrightarrow> age_rank pr < age_rank z"
  shows "\<exists>j \<ge> i. \<exists>pr'. (pr, pr') \<in> set (zip (delivered (sy_sys (f j))) (rs_scheduled (sy_run (f j)))) \<and>
    (\<exists>v err v'. ScheduleOne api' (Some pr) v = Some (err, pr', v'))"
proof -
  obtain r0 where rr: "round_robin_iterator oor (ctl_iterator c) r0" by (rule config_round_robin_ex [OF assms(1-4)])
  let ?i = "max i k" and ?n = "length (sy_events (f k))"
  note reach = run_reaches [OF assms(5,6)]
  have fs: "fair_state c r0 (f j)" for j by (rule fair_state_reached [OF assms(1) rr reach]) (use assms(7) in blast)
  have run: "round_robin_run oor c r0 api' f" using assms(5,7) fs by (simp add: round_robin_run_def)
  have pr: "pr \<in> set (sy_events (f ?i))" using run_events_mono [OF run, of i ?i] assms(8) by auto
  have n: "?n \<le> length (sy_events (f ?i))" using run_events_mono [OF run, of k ?i] by auto
  have late: "age_rank pr < age_rank z"
    if z: "z \<in> set (drop ?n (sy_events (f j)))" "SchedulerName (Spec z) = SchedulerName (Spec pr)" for j z
  proof (cases "k \<le> j")
    case False
    then have "length (sy_events (f j)) \<le> ?n" using run_events_mono [OF run, of j k] by auto
    then show ?thesis using z(1) by simp
  qed (use assms(10) z in blast)
  from admitted_whereabouts [OF fs _ pr assms(9)] assms(7) obtain a where a: "queue_at c (SchedulerName (Spec pr)) a"
    "pr \<in> set (delivered (sy_sys (f ?i))) \<or> holding (sy_sys (f ?i)) = Some pr \<or> pr \<in># requests (store (sy_sys (f ?i)) ! a)" by blast
  have "\<exists>j \<ge> ?i. pr \<in> set (delivered (sy_sys (f j)))" if "pr \<in># requests (store (sy_sys (f ?i)) ! a)"
    by (rule queued_eventually_delivered [OF assms(1) rr run a(1) _ n that]) (rule late)
  then have "\<exists>j \<ge> ?i. pr \<in> set (delivered (sy_sys (f j)))" using a(2) held_eventually_delivered [OF run] by blast
  then obtain j where j: "i \<le> j" "pr \<in> set (delivered (sy_sys (f j)))" by auto
  have all: "list_all2 (\<lambda>pr pr'. \<exists>w err w'. ScheduleOne api' (Some pr) w = Some (err, pr', w'))
      (delivered (sy_sys (f j))) (rs_scheduled (sy_run (f j)))"
    using system_reaches_run_inv [OF reach [of j]] unfolding run_inv_def by blast
  obtain pr' where pr': "(pr, pr') \<in> set (zip (delivered (sy_sys (f j))) (rs_scheduled (sy_run (f j))))"
    using j(2) list_all2_lengthD [OF all] by (metis in_set_impl_in_set_zip1)
  with all have "\<exists>v err v'. ScheduleOne api' (Some pr) v = Some (err, pr', v')" unfolding list_all2_iff by blast
  with pr' j(1) show ?thesis by blast
qed

section \<open>A fair run\<close>

text \<open>A finite run that ends with nothing to do, continued by resting for ever, is fair.\<close>

lemma finite_run_fair:
  assumes steps: "(system_step api fresh queues)\<^sup>*\<^sup>* y y'" and "mid (sy_sys y') = (\<lambda>_. None)"
    and "\<nexists>rs'. controller_step api fresh (sy_run y') rs'"
  obtains f n where "fair_run api fresh queues f" "f 0 = y" "\<And>i. n \<le> i \<Longrightarrow> f i = y'"
    "\<And>i. (system_step api fresh queues)\<^sup>*\<^sup>* (f i) y'"
proof -
  from steps obtain n g where g: "g 0 = y" "g n = y'" "\<And>i. i < n \<Longrightarrow> system_step api fresh queues (g i) (g (Suc i))"
    unfolding rtranclp_power relpowp_fun_conv by blast
  let ?f = "\<lambda>i. g (min i n)"
  have rest: "(system_step api fresh queues)\<^sup>*\<^sup>* (g i) y'" if "i \<le> n" for i
    using that by (induction rule: inc_induct) (use g in \<open>auto intro: converse_rtranclp_into_rtranclp\<close>)
  have "?f (Suc i) = ?f i \<or> system_step api fresh queues (?f i) (?f (Suc i))" for i
    using g(3) [of i] by (cases "i < n") (auto simp: min_def)
  moreover have "\<exists>j \<ge> i. mid (sy_sys (?f j)) a = None" for i a
    using assms(2) g(2) by (intro exI [of _ "max i n"]) (simp add: min_def)
  moreover have "\<not> (\<exists>rs'. controller_step api fresh (sy_run (?f j)) rs')" if "n \<le> j" for j
    using assms(3) g(2) that by (simp add: min_def)
  ultimately have "fair_run api fresh queues ?f" unfolding fair_run_def by blast
  then show ?thesis using that [of ?f n] g(1,2) rest by simp
qed

lemma own_run_ends:
  assumes "New informer api opts cfg [] = Some (Inr c, st')" and "factory_weights (ctl_iterator c)"
    and "run_inv api' (new_readers oor (ctl_iterator c)) st' rs"
  shows "\<exists>rs'. (controller_step api' (new_readers oor (ctl_iterator c)))\<^sup>*\<^sup>* rs rs' \<and>
    (\<nexists>rs''. controller_step api' (new_readers oor (ctl_iterator c)) rs' rs'')"
  using assms(3)
proof (induction rs rule: wf_induct_rule [OF wf_run_order])
  case (1 rs)
  show ?case
  proof (cases "\<exists>rs1. controller_step api' (new_readers oor (ctl_iterator c)) rs rs1")
    case True
    then obtain rs1 where s: "controller_step api' (new_readers oor (ctl_iterator c)) rs rs1" by blast
    have "run_inv api' (new_readers oor (ctl_iterator c)) st' rs1" by (rule run_step_inv [OF controller_run_step [OF s] "1.prems"])
    from "1.IH" [OF own_run_decreases [OF assms(1,2) "1.prems" s] this] s show ?thesis
      by (meson converse_rtranclp_into_rtranclp)
  qed blast
qed

lemma own_steps_system:
  "(controller_step api fresh)\<^sup>*\<^sup>* rs rs' \<Longrightarrow> (system_step api fresh queues)\<^sup>*\<^sup>* (y\<lparr>sy_run := rs\<rparr>) (y\<lparr>sy_run := rs'\<rparr>)"
proof (induction rule: rtranclp_induct)
  case (step rs1 rs2)
  have "system_step api fresh queues (y\<lparr>sy_run := rs1\<rparr>) (y\<lparr>sy_run := rs2\<rparr>)"
    using system_step.own [of api fresh "y\<lparr>sy_run := rs1\<rparr>" rs2 queues] step(2) by simp
  then show ?case using step.IH by (rule rtranclp.rtrancl_into_rtrancl [rotated])
qed simp

text \<open>Two schedulers, of which one sends a request.\<close>

definition two_queues :: Configuration where
  "two_queues = sample_configuration\<lparr>Queues := [
     \<lparr>q_SchedulerName = ''b'', Weight = 3, MaxSize = 10, q_Plugins = \<lparr>plug_Validate = \<lparr>Enabled = [], Disabled = []\<rparr>\<rparr>\<rparr>,
     \<lparr>q_SchedulerName = ''a'', Weight = 1, MaxSize = 10, q_Plugins = \<lparr>plug_Validate = \<lparr>Enabled = [], Disabled = []\<rparr>\<rparr>\<rparr>]\<rparr>"

lemma two_queues_weights:
  "cfg_FairnessAlgorithm two_queues \<noteq> Uniform" "Queues two_queues \<noteq> []" "\<forall>q \<in> set (Queues two_queues). uint (Weight q) \<le> 2 ^ 58"
  by (simp_all add: two_queues_def sample_configuration_def RoundRobin_def Uniform_def)

lemma first_request_facts [simp]:
  "SchedulerName (Spec first_request) = ''a''" "length (Bindings (Spec first_request)) = 2"
  by (simp_all add: first_request_def sample_request_def)

lemma two_queues_controller:
  obtains c st' r0 where "New (\<lambda>_. None) sample_api [] two_queues [] = Some (Inr c, st')"
    "round_robin_iterator (\<lambda>_. 0) (ctl_iterator c) r0" "queue_at c ''a'' 1"
    "admitted (size_limits (ctl_queues c)) first_request"
proof -
  have ok: "config_accepted two_queues"
    by (simp add: two_queues_def sample_configuration_def config_accepted_def queue_ok_def algorithm_ok_def)
  from New_outcome [of "[]" two_queues "\<lambda>_. None" sample_api "[]"] ok obtain cs st1 it st' where
    q: "QueueConfigFromV1Alpha1Config [] two_queues = Some (cs, st1)" and
    i: "NewQueueIterator st1 cs (map WithReaderFactory [RoundRobinFactory]) = Some (Inr it, st')" and
    n: "New (\<lambda>_. None) sample_api [] two_queues [] =
      Some (Inr \<lparr>ctl_options = defaultOptions, ctl_queues = ToMap cs, ctl_iterator = it\<rparr>, st')"
    by (auto simp: store_inv_def AddEventHandlers_def two_queues_def sample_configuration_def RoundRobin_def Uniform_def)
  have r: "refs_ok st1 cs" "distinct (config_refs cs)" using from_config_refs [OF q] by (simp_all add: store_inv_def)
  have it: "it_configs it = cs" "readerFactory it = RoundRobinFactory" using NewQueueIterator_success [OF i r] by simp_all
  have w: "cs \<noteq> []" "weights_within (2 ^ 58) cs"
    using q by (auto simp: QueueConfigFromV1Alpha1Config_eq two_queues_def weights_within_def)
  obtain r0 where "NewRoundRobinReader (\<lambda>_. 0) cs = Some r0" using new_reader_fields [OF w] by blast
  then have rr: "round_robin_iterator (\<lambda>_. 0) it r0" using it w by (simp add: round_robin_iterator_def factory_weights_def)
  have "\<exists>qc. ToMap cs ''a'' = Some qc \<and> QueueRef qc = Some 1 \<and> MaxSize qc = 10"
    using q by (auto simp: QueueConfigFromV1Alpha1Config_eq two_queues_def ToMap_def Queue.defs)
  then show ?thesis using that [OF n] rr by (auto simp: queue_at_def admitted_limit size_limits_def)
qed

text \<open>The request is reported, pushed, and the controller works until it can do no more.\<close>

lemma first_request_run:
  assumes n: "New (\<lambda>_. None) sample_api [] two_queues [] = Some (Inr c, st')"
    and rr: "round_robin_iterator (\<lambda>_. 0) (ctl_iterator c) r0" and q: "queue_at c ''a'' 1"
    and ad: "admitted (size_limits (ctl_queues c)) first_request"
  obtains y y' where
    "(system_step sample_api (new_readers (\<lambda>_. 0) (ctl_iterator c)) (ctl_queues c))\<^sup>*\<^sup>* (system_start st' ()) y"
    "(system_step sample_api (new_readers (\<lambda>_. 0) (ctl_iterator c)) (ctl_queues c))\<^sup>*\<^sup>* y y'"
    "Len (store (sy_sys y) ! 1) \<noteq> 0" "sy_events y' = [first_request]" "\<not> cancelled (sy_sys y')" "mid (sy_sys y') = (\<lambda>_. None)"
    "\<nexists>rs'. controller_step sample_api (new_readers (\<lambda>_. 0) (ctl_iterator c)) (sy_run y') rs'"
proof -
  let ?fresh = "new_readers (\<lambda>_. 0) (ctl_iterator c)"
  let ?R = "system_step sample_api ?fresh (ctl_queues c)" and ?s = "start_state st' :: reader_state sys"
  let ?y = "system_start st' ()"
  have fw: "factory_weights (ctl_iterator c)" using rr by (simp add: round_robin_iterator_def)
  have r0: "system_reaches sample_api ?fresh (ctl_queues c) st' () ?y" by (simp add: system_reaches_def)
  have "fair_state c r0 ?y" by (rule fair_state_reached [OF n rr r0]) (simp add: sized_events_def system_start_def)
  from fair_state_parts(4) [OF this] queue_at_bound [OF this q] have st: "store_inv st'" "1 < length st'"
    by (simp_all add: system_start_def run_start_def start_state_def)
  from q obtain qc where qc: "ctl_queues c ''a'' = Some qc" "QueueRef qc = Some 1" by (auto simp: queue_at_def)
  from Push_correct [OF store_invD [OF st], of "\<lambda>_ x. x" "()" first_request] obtain q' where
    p: "Push (\<lambda>_ x. x) (st' ! 1) () (Some first_request) = Some (q', ())" "requests q' = add_mset first_request (requests (st' ! 1))" by auto
  have sz: "\<not> int (length (Bindings (Spec first_request))) > sint (MaxSize qc)"
    using ad qc(1) by (simp add: admitted_limit size_limits_def)
  obtain y2 where y2: "?R\<^sup>*\<^sup>* ?y y2" and 2: "sy_events y2 = [first_request]" "store (sy_sys y2) = st'[1 := q']"
      "mid (sy_sys y2) = (\<lambda>_. None)" "\<not> cancelled (sy_sys y2)"
    using push_as_steps [of first_request "ctl_queues c" qc 1 ?s ?y q' sample_api ?fresh] sz qc st(2) p(1)
    by (fastforce simp: system_start_def run_start_def start_state_def)
  then have "run_inv sample_api ?fresh st' (sy_run y2)"
    by (intro system_reaches_run_inv [where queues = "ctl_queues c" and w = "()"]) (simp add: system_reaches_def)
  from own_run_ends [OF n fw this] obtain rs' where rs': "(controller_step sample_api ?fresh)\<^sup>*\<^sup>* (sy_run y2) rs'"
    "\<nexists>rs''. controller_step sample_api ?fresh rs' rs''" by blast
  note fr = own_steps_frame [OF rs'(1)]
  have "?R\<^sup>*\<^sup>* y2 (y2\<lparr>sy_run := rs'\<rparr>)" using own_steps_system [OF rs'(1), of "ctl_queues c" y2] by simp
  moreover have "Len (store (sy_sys y2) ! 1) \<noteq> 0" using 2(2) st(2) p(2) by (simp add: Len_requests)
  ultimately show ?thesis using that [OF y2, of "y2\<lparr>sy_run := rs'\<rparr>"] 2 fr rs'(2) by simp
qed

theorem scheduler_wait_bounded_witness:
  "\<exists>c st' r0 y y'. New (\<lambda>_. None) sample_api [] two_queues [] = Some (Inr c, st') \<and>
     (system_step sample_api (new_readers (\<lambda>_. 0) (ctl_iterator c)) (ctl_queues c))\<^sup>*\<^sup>* y y' \<and> Len (store (sy_sys y) ! 1) \<noteq> 0 \<and>
     ((\<exists>pr \<in> set (drop (length (delivered (sy_sys y))) (delivered (sy_sys y'))). SchedulerName (Spec pr) = ''a'') \<or>
      length (delivered (sy_sys y')) \<le> length (delivered (sy_sys y)) + longest_wait (queue_index 1 r0) r0 + 1)"
proof -
  obtain c st' r0 where n: "New (\<lambda>_. None) sample_api [] two_queues [] = Some (Inr c, st')"
    "round_robin_iterator (\<lambda>_. 0) (ctl_iterator c) r0" "queue_at c ''a'' 1"
    "admitted (size_limits (ctl_queues c)) first_request" by (rule two_queues_controller)
  obtain y y' where
    y: "(system_step sample_api (new_readers (\<lambda>_. 0) (ctl_iterator c)) (ctl_queues c))\<^sup>*\<^sup>* (system_start st' ()) y"
      "(system_step sample_api (new_readers (\<lambda>_. 0) (ctl_iterator c)) (ctl_queues c))\<^sup>*\<^sup>* y y'"
      "Len (store (sy_sys y) ! 1) \<noteq> 0" "sy_events y' = [first_request]" "\<not> cancelled (sy_sys y')"
    by (rule first_request_run [OF n])
  have reader: "NewRoundRobinReader (\<lambda>_. 0) (it_configs (ctl_iterator c)) = Some r0"
    using n(2) by (simp add: round_robin_iterator_def)
  have "sized_events y'" by (simp add: y(4) sized_events_def request_sized_def)
  from scheduler_wait_bounded [OF n(1) two_queues_weights reader y(1) [folded system_reaches_def] n(3) y(3,2) this y(5)] n(1) y(2,3) show ?thesis by blast
qed

theorem every_request_served_witness:
  "\<exists>c st' f j. New (\<lambda>_. None) sample_api [] two_queues [] = Some (Inr c, st') \<and> f 0 = system_start st' () \<and>
     fair_run sample_api (new_readers (\<lambda>_. 0) (ctl_iterator c)) (ctl_queues c) f \<and>
     (\<exists>pr'. (first_request, pr') \<in> set (zip (delivered (sy_sys (f j))) (rs_scheduled (sy_run (f j)))))"
proof -
  obtain c st' r0 where n: "New (\<lambda>_. None) sample_api [] two_queues [] = Some (Inr c, st')"
    "round_robin_iterator (\<lambda>_. 0) (ctl_iterator c) r0" "queue_at c ''a'' 1"
    "admitted (size_limits (ctl_queues c)) first_request" by (rule two_queues_controller)
  let ?R = "system_step sample_api (new_readers (\<lambda>_. 0) (ctl_iterator c)) (ctl_queues c)"
  obtain y y' where
    y: "?R\<^sup>*\<^sup>* (system_start st' ()) y" "?R\<^sup>*\<^sup>* y y'" "sy_events y' = [first_request]" "\<not> cancelled (sy_sys y')"
      "mid (sy_sys y') = (\<lambda>_. None)"
      "\<nexists>rs'. controller_step sample_api (new_readers (\<lambda>_. 0) (ctl_iterator c)) (sy_run y') rs'"
    by (rule first_request_run [OF n])
  from finite_run_fair [OF rtranclp_trans [OF y(1,2)] y(5,6)] obtain f m where
    f: "fair_run sample_api (new_readers (\<lambda>_. 0) (ctl_iterator c)) (ctl_queues c) f" "f 0 = system_start st' ()"
      "\<And>i. m \<le> i \<Longrightarrow> f i = y'" "\<And>i. ?R\<^sup>*\<^sup>* (f i) y'" by blast
  have "\<not> cancelled (sy_sys z) \<and> set (sy_events z) \<subseteq> {first_request}" if "?R\<^sup>*\<^sup>* z y'" for z
    using that
  proof (induction rule: converse_rtranclp_induct)
    case base
    then show ?case using y(3,4) by simp
  next
    case (step z z')
    then show ?case using system_step_cancelled [OF step(1)] system_step_events [OF step(1)] by auto
  qed
  note quiet = this [OF f(4)]
  have "request_sized first_request" by (simp add: request_sized_def)
  then have ok: "\<forall>i. \<not> cancelled (sy_sys (f i)) \<and> sized_events (f i)" using quiet unfolding sized_events_def by blast
  have "first_request \<in> set (sy_events (f m))" "\<forall>j \<ge> m. \<forall>z \<in> set (drop (length (sy_events (f m))) (sy_events (f j))).
      SchedulerName (Spec z) = SchedulerName (Spec first_request) \<longrightarrow> age_rank first_request < age_rank z"
    using f(3) y(3) by simp_all
  from every_request_served [OF n(1) two_queues_weights f(1,2) ok this(1) n(4) this(2)] n(1) f(1,2) show ?thesis by blast
qed

end
