(* ===== verification/Deep_Copy.thy ===== *)
theory Deep_Copy
  imports Api_Types
begin

text \<open>
  The deep copies of the API objects (\<open>zz_generated.deepcopy.go\<close> of the packages \<open>kombiner\<close>,
  \<open>config\<close> and \<open>scheduler\<close>), over an explicit store, since their purpose is a fact about aliasing:
  an informer's cache hands out shared objects, and whoever changes one must own a copy.

  The store is a list of cells, a cell is a Go array (or the target of a pointer), and its address
  is its index; allocation appends a cell. A slice is nil or an array with an offset and a length.
  The structs are records whose slice fields are a type parameter: with \<open>slice\<close> they are what the
  program holds, with \<open>_ list option\<close> what a reader of the store sees, nil being \<open>None\<close>. An
  argument \<open>in *T\<close> is passed as the struct it points to and \<open>*out\<close> is returned. A new object is
  held by nobody but the caller, so the result of \<open>DeepCopy\<close> is the new struct, or \<open>None\<close> for nil.
  The loops that copy element by element build the elements first and store the new array then;
  only the numbering of the new addresses depends on it.

  \<open>ObjectMeta.DeepCopyInto\<close> and \<open>ListMeta.DeepCopyInto\<close> belong to apimachinery. They are arguments
  of the definitions, assumed to be deep copiers themselves: an instance of the locale
  \<open>deep_copier\<close>, which states what a deep copy is.
\<close>

type_synonym addr = nat

datatype slice = NilSlice | Slice (slice_array: addr) (slice_off: nat) (slice_len: nat)

section \<open>The structs\<close>

record 's SpecStruct =
  sp_Policy :: PlacementRequestPolicy
  sp_Priority :: int
  sp_SchedulerName :: string
  sp_Bindings :: 's

record 's StatusStruct =
  ss_Result :: PlacementRequestResult
  ss_Reason :: string
  ss_Message :: string
  ss_Bindings :: 's

record ('m, 'sp, 'st) RequestStruct =
  rq_TypeMeta :: TypeMeta
  rq_ObjectMeta :: 'm
  rq_Spec :: 'sp
  rq_Status :: 'st

record ('l, 'i) ListStruct =
  ls_TypeMeta :: TypeMeta
  ls_ListMeta :: 'l
  ls_Items :: 'i

record 's PluginSetStruct =
  ps_Enabled :: 's
  ps_Disabled :: 's

record 's PluginsStruct =
  pl_Validate :: "'s PluginSetStruct"

record 's QueueStruct =
  qs_SchedulerName :: string
  qs_Weight :: uint
  qs_MaxSize :: uint
  qs_Plugins :: "'s PluginsStruct"

record ('s, 'q) ConfigurationStruct =
  cs_TypeMeta :: TypeMeta
  cs_Queues :: 'q
  cs_FairnessAlgorithm :: FairnessAlgorithm
  cs_Plugins :: "'s PluginsStruct"

record 'p BinderArgsStruct =
  ba_TypeMeta :: TypeMeta
  ba_Timeout :: 'p

type_synonym 'm request_obj = "('m, slice SpecStruct, slice StatusStruct) RequestStruct"
type_synonym ('m, 'l) list_obj = "('l, slice) ListStruct"
type_synonym queue_obj = "slice QueueStruct"
type_synonym config_obj = "(slice, slice) ConfigurationStruct"

text \<open>The cells: arrays of each element type, durations, and what the metadata copiers allocate.\<close>

datatype ('m, 'x) cell =
    BindingCell (bindings_of: "Binding list")
  | ResultCell (results_of: "PlacementRequestBindingResult list")
  | StringCell (strings_of: "string list")
  | RequestCell (requests_of: "'m request_obj list")
  | QueueCell (queues_of: "queue_obj list")
  | DurationCell (duration_of: int)
  | MetaCell 'x

type_synonym ('m, 'x) heap = "('m, 'x) cell list"

fun binding_array :: "('m, 'x) cell \<Rightarrow> Binding list option" where
  "binding_array (BindingCell xs) = Some xs" | "binding_array _ = None"

fun result_array :: "('m, 'x) cell \<Rightarrow> PlacementRequestBindingResult list option" where
  "result_array (ResultCell xs) = Some xs" | "result_array _ = None"

fun string_array :: "('m, 'x) cell \<Rightarrow> string list option" where
  "string_array (StringCell xs) = Some xs" | "string_array _ = None"

fun request_array :: "('m, 'x) cell \<Rightarrow> 'm request_obj list option" where
  "request_array (RequestCell xs) = Some xs" | "request_array _ = None"

fun queue_array :: "('m, 'x) cell \<Rightarrow> queue_obj list option" where
  "queue_array (QueueCell xs) = Some xs" | "queue_array _ = None"

fun duration_target :: "('m, 'x) cell \<Rightarrow> int option" where
  "duration_target (DurationCell d) = Some d" | "duration_target _ = None"

section \<open>Slices\<close>

text \<open>The elements a slice denotes, reading arrays through \<open>arr\<close>, and when the slice is valid.\<close>

fun elems :: "('c \<Rightarrow> 'e list option) \<Rightarrow> 'c list \<Rightarrow> slice \<Rightarrow> 'e list" where
  "elems arr h NilSlice = []"
| "elems arr h (Slice a off n) = (case arr (h ! a) of None \<Rightarrow> [] | Some xs \<Rightarrow> take n (drop off xs))"

fun slice_ok :: "('c \<Rightarrow> 'e list option) \<Rightarrow> 'c list \<Rightarrow> slice \<Rightarrow> bool" where
  "slice_ok arr h NilSlice = True"
| "slice_ok arr h (Slice a off n) = (a < length h \<and>
     (case arr (h ! a) of None \<Rightarrow> False | Some xs \<Rightarrow> off + n \<le> length xs))"

fun slice_foot :: "slice \<Rightarrow> addr set" where
  "slice_foot NilSlice = {}"
| "slice_foot (Slice a off n) = {a}"

definition slice_view :: "('c \<Rightarrow> 'e list option) \<Rightarrow> 'c list \<Rightarrow> slice \<Rightarrow> 'e list option" where
  "slice_view arr h s = (if s = NilSlice then None else Some (elems arr h s))"

text \<open>
  \<open>*out = make([]T, len(*in)); copy(*out, *in)\<close> under the guard \<open>in != nil\<close>; \<open>mk\<close> is the cell of
  the element type.
\<close>

definition make_copy :: "('c \<Rightarrow> 'e list option) \<Rightarrow> ('e list \<Rightarrow> 'c) \<Rightarrow> slice \<Rightarrow> 'c list \<Rightarrow> slice \<times> 'c list" where
  "make_copy arr mk s h =
     (if s = NilSlice then (NilSlice, h)
      else (Slice (length h) 0 (slice_len s), h @ [mk (elems arr h s)]))"

text \<open>
  The loop \<open>for i := range *in { (*in)[i].DeepCopyInto(&(*out)[i]) }\<close>, and the block around it.
\<close>

fun copy_each :: "('e \<Rightarrow> 'c list \<Rightarrow> 'e \<times> 'c list) \<Rightarrow> 'e list \<Rightarrow> 'c list \<Rightarrow> 'e list \<times> 'c list" where
  "copy_each into [] h = ([], h)"
| "copy_each into (e # es) h =
     (let (e', h1) = into e h; (es', h2) = copy_each into es h1 in (e' # es', h2))"

definition make_copy_each ::
  "('c \<Rightarrow> 'e list option) \<Rightarrow> ('e list \<Rightarrow> 'c) \<Rightarrow> ('e \<Rightarrow> 'c list \<Rightarrow> 'e \<times> 'c list) \<Rightarrow>
   slice \<Rightarrow> 'c list \<Rightarrow> slice \<times> 'c list" where
  "make_copy_each arr mk into s h =
     (if s = NilSlice then (NilSlice, h)
      else let (es, h1) = copy_each into (elems arr h s) h
           in (Slice (length h1) 0 (slice_len s), h1 @ [mk es]))"

text \<open>\<open>DeepCopy\<close>: nil for nil, otherwise a new object filled by \<open>DeepCopyInto\<close>.\<close>

definition new_copy :: "('v \<Rightarrow> 'c list \<Rightarrow> 'v \<times> 'c list) \<Rightarrow> 'v option \<Rightarrow> 'c list \<Rightarrow> 'v option \<times> 'c list" where
  "new_copy into p h =
     (case p of None \<Rightarrow> (None, h) | Some v \<Rightarrow> (let (out, h1) = into v h in (Some out, h1)))"

section \<open>The copiers of the kombiner package\<close>

definition Binding_DeepCopyInto :: "Binding \<Rightarrow> ('m, 'x) heap \<Rightarrow> Binding \<times> ('m, 'x) heap" where
  "Binding_DeepCopyInto v h = (v, h)"

definition BindingResult_DeepCopyInto ::
  "PlacementRequestBindingResult \<Rightarrow> ('m, 'x) heap \<Rightarrow> PlacementRequestBindingResult \<times> ('m, 'x) heap" where
  "BindingResult_DeepCopyInto v h = (v\<lparr>br_Binding := br_Binding v\<rparr>, h)"

definition Spec_DeepCopyInto ::
  "slice SpecStruct \<Rightarrow> ('m, 'x) heap \<Rightarrow> slice SpecStruct \<times> ('m, 'x) heap" where
  "Spec_DeepCopyInto v h =
     (let (bs, h1) = make_copy binding_array BindingCell (sp_Bindings v) h
      in (v\<lparr>sp_Bindings := bs\<rparr>, h1))"

definition Status_DeepCopyInto ::
  "slice StatusStruct \<Rightarrow> ('m, 'x) heap \<Rightarrow> slice StatusStruct \<times> ('m, 'x) heap" where
  "Status_DeepCopyInto v h =
     (let (bs, h1) = make_copy result_array ResultCell (ss_Bindings v) h
      in (v\<lparr>ss_Bindings := bs\<rparr>, h1))"

definition Request_DeepCopyInto ::
  "('m \<Rightarrow> ('m, 'x) heap \<Rightarrow> 'm \<times> ('m, 'x) heap) \<Rightarrow> 'm request_obj \<Rightarrow> ('m, 'x) heap \<Rightarrow>
   'm request_obj \<times> ('m, 'x) heap" where
  "Request_DeepCopyInto copy_meta v h =
     (let (m, h1) = copy_meta (rq_ObjectMeta v) h;
          (sp, h2) = Spec_DeepCopyInto (rq_Spec v) h1;
          (st, h3) = Status_DeepCopyInto (rq_Status v) h2
      in (v\<lparr>rq_TypeMeta := rq_TypeMeta v, rq_ObjectMeta := m, rq_Spec := sp, rq_Status := st\<rparr>, h3))"

definition List_DeepCopyInto ::
  "('m \<Rightarrow> ('m, 'x) heap \<Rightarrow> 'm \<times> ('m, 'x) heap) \<Rightarrow> ('l \<Rightarrow> ('m, 'x) heap \<Rightarrow> 'l \<times> ('m, 'x) heap) \<Rightarrow>
   ('m, 'l) list_obj \<Rightarrow> ('m, 'x) heap \<Rightarrow> ('m, 'l) list_obj \<times> ('m, 'x) heap" where
  "List_DeepCopyInto copy_meta copy_list_meta v h =
     (let (lm, h1) = copy_list_meta (ls_ListMeta v) h;
          (items, h2) = make_copy_each request_array RequestCell (Request_DeepCopyInto copy_meta) (ls_Items v) h1
      in (v\<lparr>ls_TypeMeta := ls_TypeMeta v, ls_ListMeta := lm, ls_Items := items\<rparr>, h2))"

definition Binding_DeepCopy where
  "Binding_DeepCopy = new_copy Binding_DeepCopyInto"
definition BindingResult_DeepCopy where
  "BindingResult_DeepCopy = new_copy BindingResult_DeepCopyInto"
definition Spec_DeepCopy where
  "Spec_DeepCopy = new_copy Spec_DeepCopyInto"
definition Status_DeepCopy where
  "Status_DeepCopy = new_copy Status_DeepCopyInto"
definition Request_DeepCopy where
  "Request_DeepCopy copy_meta = new_copy (Request_DeepCopyInto copy_meta)"
definition List_DeepCopy where
  "List_DeepCopy copy_meta copy_list_meta = new_copy (List_DeepCopyInto copy_meta copy_list_meta)"

section \<open>The copiers of the config and scheduler packages\<close>

definition PluginSet_DeepCopyInto ::
  "slice PluginSetStruct \<Rightarrow> ('m, 'x) heap \<Rightarrow> slice PluginSetStruct \<times> ('m, 'x) heap" where
  "PluginSet_DeepCopyInto v h =
     (let (en, h1) = make_copy string_array StringCell (ps_Enabled v) h;
          (di, h2) = make_copy string_array StringCell (ps_Disabled v) h1
      in (v\<lparr>ps_Enabled := en, ps_Disabled := di\<rparr>, h2))"

definition Plugins_DeepCopyInto ::
  "slice PluginsStruct \<Rightarrow> ('m, 'x) heap \<Rightarrow> slice PluginsStruct \<times> ('m, 'x) heap" where
  "Plugins_DeepCopyInto v h =
     (let (va, h1) = PluginSet_DeepCopyInto (pl_Validate v) h in (v\<lparr>pl_Validate := va\<rparr>, h1))"

definition Queue_DeepCopyInto :: "queue_obj \<Rightarrow> ('m, 'x) heap \<Rightarrow> queue_obj \<times> ('m, 'x) heap" where
  "Queue_DeepCopyInto v h =
     (let (pl, h1) = Plugins_DeepCopyInto (qs_Plugins v) h in (v\<lparr>qs_Plugins := pl\<rparr>, h1))"

definition Configuration_DeepCopyInto ::
  "config_obj \<Rightarrow> ('m, 'x) heap \<Rightarrow> config_obj \<times> ('m, 'x) heap" where
  "Configuration_DeepCopyInto v h =
     (let (qs, h1) = make_copy_each queue_array QueueCell Queue_DeepCopyInto (cs_Queues v) h;
          (pl, h2) = Plugins_DeepCopyInto (cs_Plugins v) h1
      in (v\<lparr>cs_TypeMeta := cs_TypeMeta v, cs_Queues := qs, cs_Plugins := pl\<rparr>, h2))"

text \<open>
  The \<open>*metav1.Duration\<close> of the plugin's arguments is an address or nil:
  \<open>*out = new(v1.Duration); **out = **in\<close>.
\<close>

definition copy_duration :: "addr option \<Rightarrow> ('m, 'x) heap \<Rightarrow> addr option \<times> ('m, 'x) heap" where
  "copy_duration p h =
     (case p of None \<Rightarrow> (None, h)
      | Some a \<Rightarrow> (Some (length h), h @ [DurationCell (duration_of (h ! a))]))"

definition BinderArgs_DeepCopyInto ::
  "addr option BinderArgsStruct \<Rightarrow> ('m, 'x) heap \<Rightarrow> addr option BinderArgsStruct \<times> ('m, 'x) heap" where
  "BinderArgs_DeepCopyInto v h =
     (let (t, h1) = copy_duration (ba_Timeout v) h
      in (v\<lparr>ba_TypeMeta := ba_TypeMeta v, ba_Timeout := t\<rparr>, h1))"

text \<open>The external type \<open>v1alpha1.PlacementRequestBinderArgs\<close> has the same fields, and its own copier.\<close>

definition V1alpha1Args_DeepCopyInto ::
  "addr option BinderArgsStruct \<Rightarrow> ('m, 'x) heap \<Rightarrow> addr option BinderArgsStruct \<times> ('m, 'x) heap" where
  "V1alpha1Args_DeepCopyInto v h =
     (case ba_Timeout v of
        None \<Rightarrow> (v\<lparr>ba_TypeMeta := ba_TypeMeta v\<rparr>, h)
      | Some a \<Rightarrow> (v\<lparr>ba_TypeMeta := ba_TypeMeta v, ba_Timeout := Some (length h)\<rparr>,
                   h @ [DurationCell (duration_of (h ! a))]))"

definition PluginSet_DeepCopy where
  "PluginSet_DeepCopy = new_copy PluginSet_DeepCopyInto"
definition Plugins_DeepCopy where
  "Plugins_DeepCopy = new_copy Plugins_DeepCopyInto"
definition Queue_DeepCopy where
  "Queue_DeepCopy = new_copy Queue_DeepCopyInto"
definition Configuration_DeepCopy where
  "Configuration_DeepCopy = new_copy Configuration_DeepCopyInto"
definition BinderArgs_DeepCopy where
  "BinderArgs_DeepCopy = new_copy BinderArgs_DeepCopyInto"
definition V1alpha1Args_DeepCopy where
  "V1alpha1Args_DeepCopy = new_copy V1alpha1Args_DeepCopyInto"

text \<open>
  \<open>DeepCopyObject\<close> returns the copy as a \<open>runtime.Object\<close>, an interface value: nil when there is
  no copy, otherwise the object under its type.
\<close>

datatype ('m, 'l) RuntimeObject =
    RequestObject "'m request_obj"
  | RequestListObject "('m, 'l) list_obj"
  | ConfigurationObject config_obj
  | BinderArgsObject "addr option BinderArgsStruct"
  | V1alpha1ArgsObject "addr option BinderArgsStruct"

definition Request_DeepCopyObject where
  "Request_DeepCopyObject copy_meta p h =
     (case Request_DeepCopy copy_meta p h of
        (Some c, h1) \<Rightarrow> (Some (RequestObject c), h1) | (None, h1) \<Rightarrow> (None, h1))"

definition List_DeepCopyObject where
  "List_DeepCopyObject copy_meta copy_list_meta p h =
     (case List_DeepCopy copy_meta copy_list_meta p h of
        (Some c, h1) \<Rightarrow> (Some (RequestListObject c), h1) | (None, h1) \<Rightarrow> (None, h1))"

definition Configuration_DeepCopyObject where
  "Configuration_DeepCopyObject p h =
     (case Configuration_DeepCopy p h of
        (Some c, h1) \<Rightarrow> (Some (ConfigurationObject c), h1) | (None, h1) \<Rightarrow> (None, h1))"

definition BinderArgs_DeepCopyObject where
  "BinderArgs_DeepCopyObject p h =
     (case BinderArgs_DeepCopy p h of
        (Some c, h1) \<Rightarrow> (Some (BinderArgsObject c), h1) | (None, h1) \<Rightarrow> (None, h1))"

definition V1alpha1Args_DeepCopyObject where
  "V1alpha1Args_DeepCopyObject p h =
     (case V1alpha1Args_DeepCopy p h of
        (Some c, h1) \<Rightarrow> (Some (V1alpha1ArgsObject c), h1) | (None, h1) \<Rightarrow> (None, h1))"

section \<open>What a deep copy is\<close>

text \<open>
  A value has a footprint (the addresses reachable from it), a validity and a view (what a reader
  sees). The view depends on the footprint only; the copy has the same view, a footprint of fresh
  addresses, and leaves every old cell as it is.
\<close>

locale deep_copier =
  fixes ok :: "'c list \<Rightarrow> 'v \<Rightarrow> bool"
    and foot :: "'c list \<Rightarrow> 'v \<Rightarrow> nat set"
    and view :: "'c list \<Rightarrow> 'v \<Rightarrow> 'a"
    and copy :: "'v \<Rightarrow> 'c list \<Rightarrow> 'v \<times> 'c list"
  assumes foot_bound: "ok h v \<Longrightarrow> a \<in> foot h v \<Longrightarrow> a < length h"
    and frame: "ok h v \<Longrightarrow> (\<And>a. a \<in> foot h v \<Longrightarrow> a < length h' \<and> h' ! a = h ! a) \<Longrightarrow>
      ok h' v \<and> foot h' v = foot h v \<and> view h' v = view h v"
    and copy_law: "ok h v \<Longrightarrow> copy v h = (v', h') \<Longrightarrow>
      ok h' v' \<and> view h' v' = view h v \<and> foot h' v' \<subseteq> {length h..<length h'} \<and> (\<exists>t. h' = h @ t)"
begin

lemma frame_append:
  assumes "ok h v"
  shows "ok (h @ t) v" and "foot (h @ t) v = foot h v" and "view (h @ t) v = view h v"
proof -
  have "a < length (h @ t) \<and> (h @ t) ! a = h ! a" if "a \<in> foot h v" for a
    using foot_bound [OF assms that] by (simp add: nth_append)
  then have *: "ok (h @ t) v \<and> foot (h @ t) v = foot h v \<and> view (h @ t) v = view h v"
    using frame [OF assms, of "h @ t"] by blast
  then show "ok (h @ t) v" and "foot (h @ t) v = foot h v" and "view (h @ t) v = view h v" by auto
qed

text \<open>A write to an address outside the footprint is not seen.\<close>

lemma frame_write:
  assumes "ok h v" and "a \<notin> foot h v"
  shows "view (h[a := c]) v = view h v"
proof -
  have "b < length (h[a := c]) \<and> h[a := c] ! b = h ! b" if "b \<in> foot h v" for b
    using that assms foot_bound [OF assms(1) that] by (cases "a = b") auto
  then show ?thesis using frame [OF assms(1)] by blast
qed

text \<open>Original and copy show the same value, and neither sees a write through the other.\<close>

lemma copy_isolated:
  assumes ok: "ok h v" and copy: "copy v h = (v', h')"
  shows "view h' v' = view h v" and "view h' v = view h v" and "foot h' v' \<inter> foot h' v = {}"
    and "a \<in> foot h' v' \<Longrightarrow> view (h'[a := c]) v = view h v"
    and "a \<in> foot h' v \<Longrightarrow> view (h'[a := c]) v' = view h v"
proof -
  obtain t where h': "h' = h @ t" and ok': "ok h' v'" and fresh: "foot h' v' \<subseteq> {length h..<length h'}"
    and same: "view h' v' = view h v"
    using copy_law [OF ok copy] by blast
  have okv: "ok h' v" and fv: "foot h' v = foot h v" and vv: "view h' v = view h v"
    using frame_append [OF ok] by (simp_all add: h')
  have disj: "foot h' v' \<inter> foot h' v = {}" using fresh foot_bound [OF ok] by (fastforce simp: fv)
  show "view h' v' = view h v" "view h' v = view h v" "foot h' v' \<inter> foot h' v = {}"
    by (fact same vv disj)+
  show "view (h'[a := c]) v = view h v" if "a \<in> foot h' v'"
    using frame_write [OF okv, of a c] that disj vv by auto
  show "view (h'[a := c]) v' = view h v" if "a \<in> foot h' v"
    using frame_write [OF ok', of a c] that disj same by auto
qed

text \<open>The same for a \<open>DeepCopy\<close> of a non-nil pointer.\<close>

lemma new_copy_isolated:
  assumes "ok h v" and "new_copy copy (Some v) h = (p, h')"
  shows "\<exists>v'. p = Some v' \<and> view h' v' = view h v \<and> view h' v = view h v \<and>
    (\<forall>a\<in>foot h' v'. \<forall>c. view (h'[a := c]) v = view h v) \<and>
    (\<forall>a\<in>foot h' v. \<forall>c. view (h'[a := c]) v' = view h v)"
proof -
  obtain v' where p: "p = Some v'" and c: "copy v h = (v', h')"
    using assms(2) by (auto simp: new_copy_def split: prod.splits)
  show ?thesis using copy_isolated [OF assms(1) c] p by blast
qed

end

section \<open>Composing deep copiers\<close>

text \<open>A value without addresses is copied by the assignment \<open>*out = *in\<close>.\<close>

lemma deep_copier_plain: "deep_copier (\<lambda>h v. True) (\<lambda>h v. {}) (\<lambda>h v. v) (\<lambda>v h. (v, h))"
  by unfold_locales auto

lemma elems_frame: "slice_ok arr h s \<Longrightarrow> (\<And>a. a \<in> slice_foot s \<Longrightarrow> h' ! a = h ! a) \<Longrightarrow>
    elems arr h' s = elems arr h s"
  by (cases s) auto

lemma slice_ok_frame: "slice_ok arr h s \<Longrightarrow>
    (\<And>a. a \<in> slice_foot s \<Longrightarrow> a < length h' \<and> h' ! a = h ! a) \<Longrightarrow> slice_ok arr h' s"
  by (cases s) auto

lemma length_elems: "slice_ok arr h s \<Longrightarrow> s \<noteq> NilSlice \<Longrightarrow> length (elems arr h s) = slice_len s"
  by (cases s) (auto split: option.splits)

lemma slice_foot_bound: "slice_ok arr h s \<Longrightarrow> a \<in> slice_foot s \<Longrightarrow> a < length h"
  by (cases s) auto

text \<open>Slices of plain elements.\<close>

lemma deep_copier_slice:
  fixes arr :: "'c \<Rightarrow> 'e list option"
  assumes mk: "\<And>xs. arr (mk xs) = Some xs"
  shows "deep_copier (slice_ok arr) (\<lambda>h. slice_foot) (slice_view arr) (make_copy arr mk)"
proof
  fix h h' :: "'c list" and s
  assume "slice_ok arr h s" and "\<And>a. a \<in> slice_foot s \<Longrightarrow> a < length h' \<and> h' ! a = h ! a"
  then show "slice_ok arr h' s \<and> slice_foot s = slice_foot s \<and> slice_view arr h' s = slice_view arr h s"
    using elems_frame [of arr h s h'] slice_ok_frame [of arr h s h'] by (simp add: slice_view_def)
next
  fix h h' :: "'c list" and s s'
  assume "slice_ok arr h s" and "make_copy arr mk s h = (s', h')"
  then show "slice_ok arr h' s' \<and> slice_view arr h' s' = slice_view arr h s \<and>
      slice_foot s' \<subseteq> {length h..<length h'} \<and> (\<exists>t. h' = h @ t)"
    by (auto simp: make_copy_def slice_view_def mk length_elems split: if_splits)
qed (rule slice_foot_bound)

text \<open>A pair is copied component by component.\<close>

definition copy_pair where
  "copy_pair c1 c2 v h = (let (x, h1) = c1 (fst v) h; (y, h2) = c2 (snd v) h1 in ((x, y), h2))"

lemma deep_copier_pair:
  assumes "deep_copier ok1 foot1 view1 copy1" and "deep_copier ok2 foot2 view2 copy2"
  shows "deep_copier (\<lambda>h v. ok1 h (fst v) \<and> ok2 h (snd v)) (\<lambda>h v. foot1 h (fst v) \<union> foot2 h (snd v))
    (\<lambda>h v. (view1 h (fst v), view2 h (snd v))) (copy_pair copy1 copy2)"
proof
  fix h v a
  assume "ok1 h (fst v) \<and> ok2 h (snd v)" and "a \<in> foot1 h (fst v) \<union> foot2 h (snd v)"
  then show "a < length h"
    using deep_copier.foot_bound [OF assms(1)] deep_copier.foot_bound [OF assms(2)] by blast
next
  fix h v h'
  assume "ok1 h (fst v) \<and> ok2 h (snd v)"
    and "\<And>a. a \<in> foot1 h (fst v) \<union> foot2 h (snd v) \<Longrightarrow> a < length h' \<and> h' ! a = h ! a"
  then show "(ok1 h' (fst v) \<and> ok2 h' (snd v)) \<and>
      foot1 h' (fst v) \<union> foot2 h' (snd v) = foot1 h (fst v) \<union> foot2 h (snd v) \<and>
      (view1 h' (fst v), view2 h' (snd v)) = (view1 h (fst v), view2 h (snd v))"
    using deep_copier.frame [OF assms(1), of h "fst v" h']
      deep_copier.frame [OF assms(2), of h "snd v" h'] by simp
next
  fix h v v' h2
  assume ok: "ok1 h (fst v) \<and> ok2 h (snd v)" and copy: "copy_pair copy1 copy2 v h = (v', h2)"
  obtain x h1 where c1: "copy1 (fst v) h = (x, h1)" by fastforce
  obtain y where c2: "copy2 (snd v) h1 = (y, h2)" and v': "v' = (x, y)"
    using copy c1 by (auto simp: copy_pair_def split: prod.splits)
  obtain t where h1: "h1 = h @ t" and L1: "ok1 h1 x" "view1 h1 x = view1 h (fst v)"
      "foot1 h1 x \<subseteq> {length h..<length h1}"
    using deep_copier.copy_law [OF assms(1) _ c1] ok by blast
  have ok2: "ok2 h1 (snd v)" and view2: "view2 h1 (snd v) = view2 h (snd v)"
    using deep_copier.frame_append [OF assms(2), of h "snd v" t] ok h1 by simp_all
  obtain u where h2: "h2 = h1 @ u" and L2: "ok2 h2 y" "view2 h2 y = view2 h1 (snd v)"
      "foot2 h2 y \<subseteq> {length h1..<length h2}"
    using deep_copier.copy_law [OF assms(2) ok2 c2] by blast
  have "ok1 h2 x" "view1 h2 x = view1 h (fst v)" "foot1 h2 x \<subseteq> {length h..<length h2}"
    using deep_copier.frame_append [OF assms(1) L1(1), of u] L1 h2 by auto
  with L2 view2 h1 h2 show "(ok1 h2 (fst v') \<and> ok2 h2 (snd v')) \<and>
      (view1 h2 (fst v'), view2 h2 (snd v')) = (view1 h (fst v), view2 h (snd v)) \<and>
      foot1 h2 (fst v') \<union> foot2 h2 (snd v') \<subseteq> {length h..<length h2} \<and> (\<exists>t. h2 = h @ t)"
    by (auto simp: v')
qed

text \<open>
  A struct with one part that has addresses: \<open>part\<close> reads it, \<open>upd\<close> replaces it, and \<open>build\<close> is the
  struct seen with a view of the part.
\<close>

lemma deep_copier_field:
  assumes "deep_copier ok foot view copy"
    and part: "\<And>v p. part (upd v p) = p" and build: "\<And>v p q. build (upd v p) q = build v q"
  shows "deep_copier (\<lambda>h v. ok h (part v)) (\<lambda>h v. foot h (part v)) (\<lambda>h v. build v (view h (part v)))
    (\<lambda>v h. let (p, h1) = copy (part v) h in (upd v p, h1))"
proof
  fix h v h'
  assume "ok h (part v)" and "\<And>a. a \<in> foot h (part v) \<Longrightarrow> a < length h' \<and> h' ! a = h ! a"
  then show "ok h' (part v) \<and> foot h' (part v) = foot h (part v) \<and>
      build v (view h' (part v)) = build v (view h (part v))"
    using deep_copier.frame [OF assms(1), of h "part v" h'] by simp
next
  fix h v v' h'
  assume ok: "ok h (part v)" and copy: "(let (p, h1) = copy (part v) h in (upd v p, h1)) = (v', h')"
  then obtain p where "copy (part v) h = (p, h')" and "v' = upd v p"
    by (auto split: prod.splits)
  then show "ok h' (part v') \<and> build v' (view h' (part v')) = build v (view h (part v)) \<and>
      foot h' (part v') \<subseteq> {length h..<length h'} \<and> (\<exists>t. h' = h @ t)"
    using deep_copier.copy_law [OF assms(1) ok] by (simp add: part build)
qed (rule deep_copier.foot_bound [OF assms(1)])

text \<open>A list of structs, copied by the loop.\<close>

definition list_ok :: "('h \<Rightarrow> 'v \<Rightarrow> bool) \<Rightarrow> 'h \<Rightarrow> 'v list \<Rightarrow> bool" where
  "list_ok ok h vs \<longleftrightarrow> list_all (ok h) vs"

definition list_foot :: "('h \<Rightarrow> 'v \<Rightarrow> addr set) \<Rightarrow> 'h \<Rightarrow> 'v list \<Rightarrow> addr set" where
  "list_foot foot h vs = \<Union> (foot h ` set vs)"

lemmas list_copy_defs = list_ok_def list_foot_def

lemma copy_each_law:
  assumes "deep_copier ok foot view copy" and "list_ok ok h vs" and "copy_each copy vs h = (vs', h')"
  shows "list_ok ok h' vs' \<and> map (view h') vs' = map (view h) vs \<and>
    list_foot foot h' vs' \<subseteq> {length h..<length h'} \<and> (\<exists>t. h' = h @ t)"
  using assms(2,3)
proof (induction vs arbitrary: h vs')
  case Nil
  then show ?case by (simp add: list_copy_defs)
next
  case (Cons v vs)
  obtain x h1 where c1: "copy v h = (x, h1)" by fastforce
  obtain xs where c2: "copy_each copy vs h1 = (xs, h')" and vs': "vs' = x # xs"
    using Cons.prems(2) c1 by (auto split: prod.splits)
  obtain t where h1: "h1 = h @ t" and L1: "ok h1 x" "view h1 x = view h v"
      "foot h1 x \<subseteq> {length h..<length h1}"
    using deep_copier.copy_law [OF assms(1) _ c1] Cons.prems(1) by (auto simp: list_ok_def)
  have keep: "ok h1 w" "view h1 w = view h w" if "w \<in> set vs" for w
    using deep_copier.frame_append [OF assms(1), of h w t] Cons.prems(1) that
    by (auto simp: list_ok_def list_all_iff h1)
  have "list_ok ok h1 vs" by (simp add: list_ok_def list_all_iff keep)
  from Cons.IH [OF this c2] obtain u where h': "h' = h1 @ u" and L2: "list_ok ok h' xs"
      "map (view h') xs = map (view h1) vs" "list_foot foot h' xs \<subseteq> {length h1..<length h'}"
    by blast
  have X: "ok h' x" "view h' x = view h v" "foot h' x \<subseteq> {length h..<length h'}"
    using deep_copier.frame_append [OF assms(1) L1(1), of u] L1 h' by auto
  have "map (view h1) vs = map (view h) vs" by (simp add: keep)
  then show ?case using L2 X h1 h' by (auto simp: vs' list_copy_defs)
qed

text \<open>A slice of structs: its own array and the footprints of its elements.\<close>

definition each_ok where
  "each_ok arr ok h s \<longleftrightarrow> slice_ok arr h s \<and> list_ok ok h (elems arr h s)"

definition each_foot where
  "each_foot arr foot h s = slice_foot s \<union> list_foot foot h (elems arr h s)"

definition each_view where
  "each_view arr view h s = (if s = NilSlice then None else Some (map (view h) (elems arr h s)))"

lemmas each_defs = each_ok_def each_foot_def each_view_def

lemma deep_copier_each:
  fixes arr :: "'c \<Rightarrow> 'e list option"
  assumes dc: "deep_copier ok foot view copy" and mk: "\<And>xs. arr (mk xs) = Some xs"
  shows "deep_copier (each_ok arr ok) (each_foot arr foot) (each_view arr view) (make_copy_each arr mk copy)"
proof
  fix h s a
  assume "each_ok arr ok h s" and "a \<in> each_foot arr foot h s"
  then show "a < length h"
    using slice_foot_bound [of arr h s a] deep_copier.foot_bound [OF dc]
    by (fastforce simp: each_defs list_copy_defs list_all_iff)
next
  fix h h' :: "'c list" and s
  assume ok: "each_ok arr ok h s"
    and same: "\<And>a. a \<in> each_foot arr foot h s \<Longrightarrow> a < length h' \<and> h' ! a = h ! a"
  have es: "elems arr h' s = elems arr h s" and "slice_ok arr h' s"
    using elems_frame [of arr h s h'] slice_ok_frame [of arr h s h'] ok same
    by (auto simp: each_defs)
  moreover have "ok h' e \<and> foot h' e = foot h e \<and> view h' e = view h e" if "e \<in> set (elems arr h s)" for e
    using deep_copier.frame [OF dc, of h e h'] ok same that
    by (auto simp: each_defs list_copy_defs list_all_iff)
  ultimately show "each_ok arr ok h' s \<and> each_foot arr foot h' s = each_foot arr foot h s \<and>
      each_view arr view h' s = each_view arr view h s"
    using es by (auto simp: each_defs list_copy_defs list_all_iff)
next
  fix h h' :: "'c list" and s s'
  assume ok: "each_ok arr ok h s" and copy: "make_copy_each arr mk copy s h = (s', h')"
  show "each_ok arr ok h' s' \<and> each_view arr view h' s' = each_view arr view h s \<and>
      each_foot arr foot h' s' \<subseteq> {length h..<length h'} \<and> (\<exists>t. h' = h @ t)"
  proof (cases "s = NilSlice")
    case True
    then show ?thesis using ok copy by (auto simp: make_copy_each_def each_defs list_copy_defs)
  next
    case False
    obtain es h1 where c: "copy_each copy (elems arr h s) h = (es, h1)" by fastforce
    then have s': "s' = Slice (length h1) 0 (slice_len s)" and h': "h' = h1 @ [mk es]"
      using copy False by (auto simp: make_copy_each_def)
    obtain t where h1: "h1 = h @ t" and L: "list_ok ok h1 es" "map (view h1) es = map (view h) (elems arr h s)"
        "list_foot foot h1 es \<subseteq> {length h..<length h1}"
      using copy_each_law [OF dc _ c] ok by (auto simp: each_ok_def)
    have "length es = slice_len s"
      using arg_cong [OF L(2), of length] length_elems [of arr h s] ok False by (simp add: each_ok_def)
    then have es: "elems arr h' s' = es" "slice_ok arr h' s'" by (simp_all add: s' h' mk)
    have keep: "ok h' e" "view h' e = view h1 e" "foot h' e = foot h1 e" if "e \<in> set es" for e
      using deep_copier.frame_append [OF dc, of h1 e "[mk es]"] L(1) that
      by (auto simp: list_ok_def list_all_iff h')
    have "map (view h') es = map (view h) (elems arr h s)" using L(2) by (simp add: keep(2) cong: map_cong)
    then have "each_view arr view h' s' = each_view arr view h s"
      unfolding each_view_def es using False by (simp add: s')
    moreover have "each_ok arr ok h' s'" unfolding each_ok_def es(1) using es(2) keep(1)
      by (simp add: list_ok_def list_all_iff)
    moreover have "list_foot foot h' es = list_foot foot h1 es" by (simp add: list_foot_def keep)
    then have "each_foot arr foot h' s' \<subseteq> {length h..<length h'}"
      unfolding each_foot_def es using L(3) by (auto simp: s' h' h1)
    ultimately show ?thesis by (simp add: h' h1)
  qed
qed

section \<open>The copiers are deep copiers\<close>

definition spec_view :: "('m, 'x) heap \<Rightarrow> slice SpecStruct \<Rightarrow> Binding list option SpecStruct" where
  "spec_view h v = \<lparr>sp_Policy = sp_Policy v, sp_Priority = sp_Priority v,
     sp_SchedulerName = sp_SchedulerName v, sp_Bindings = slice_view binding_array h (sp_Bindings v)\<rparr>"

definition status_view ::
  "('m, 'x) heap \<Rightarrow> slice StatusStruct \<Rightarrow> PlacementRequestBindingResult list option StatusStruct" where
  "status_view h v = \<lparr>ss_Result = ss_Result v, ss_Reason = ss_Reason v, ss_Message = ss_Message v,
     ss_Bindings = slice_view result_array h (ss_Bindings v)\<rparr>"

interpretation spec: deep_copier "\<lambda>h v. slice_ok binding_array h (sp_Bindings v)"
    "\<lambda>h v. slice_foot (sp_Bindings v)" spec_view Spec_DeepCopyInto
  using deep_copier_field [OF deep_copier_slice [of binding_array BindingCell],
    of sp_Bindings "\<lambda>v p. v\<lparr>sp_Bindings := p\<rparr>"
       "\<lambda>v q. \<lparr>sp_Policy = sp_Policy v, sp_Priority = sp_Priority v,
              sp_SchedulerName = sp_SchedulerName v, sp_Bindings = q\<rparr>"]
  by (simp add: spec_view_def [abs_def] Spec_DeepCopyInto_def [abs_def])

interpretation status: deep_copier "\<lambda>h v. slice_ok result_array h (ss_Bindings v)"
    "\<lambda>h v. slice_foot (ss_Bindings v)" status_view Status_DeepCopyInto
  using deep_copier_field [OF deep_copier_slice [of result_array ResultCell],
    of ss_Bindings "\<lambda>v p. v\<lparr>ss_Bindings := p\<rparr>"
       "\<lambda>v q. \<lparr>ss_Result = ss_Result v, ss_Reason = ss_Reason v, ss_Message = ss_Message v,
              ss_Bindings = q\<rparr>"]
  by (simp add: status_view_def [abs_def] Status_DeepCopyInto_def [abs_def])

text \<open>A placement request and a list of them, for given copiers of the metadata.\<close>

definition request_ok where
  "request_ok mok h v \<longleftrightarrow> mok h (rq_ObjectMeta v) \<and> slice_ok binding_array h (sp_Bindings (rq_Spec v)) \<and>
     slice_ok result_array h (ss_Bindings (rq_Status v))"

definition request_foot where
  "request_foot mfoot h v = mfoot h (rq_ObjectMeta v) \<union> (slice_foot (sp_Bindings (rq_Spec v)) \<union>
     slice_foot (ss_Bindings (rq_Status v)))"

definition request_view where
  "request_view mview h v = \<lparr>rq_TypeMeta = rq_TypeMeta v, rq_ObjectMeta = mview h (rq_ObjectMeta v),
     rq_Spec = spec_view h (rq_Spec v), rq_Status = status_view h (rq_Status v)\<rparr>"

definition list_obj_ok where
  "list_obj_ok mok lok h v \<longleftrightarrow> lok h (ls_ListMeta v) \<and> each_ok request_array (request_ok mok) h (ls_Items v)"

definition list_obj_foot where
  "list_obj_foot mfoot lfoot h v =
     lfoot h (ls_ListMeta v) \<union> each_foot request_array (request_foot mfoot) h (ls_Items v)"

definition list_obj_view where
  "list_obj_view mview lview h v = \<lparr>ls_TypeMeta = ls_TypeMeta v, ls_ListMeta = lview h (ls_ListMeta v),
     ls_Items = each_view request_array (request_view mview) h (ls_Items v)\<rparr>"

lemma deep_copier_request:
  assumes "deep_copier mok mfoot mview copy_meta"
  shows "deep_copier (request_ok mok) (request_foot mfoot) (request_view mview) (Request_DeepCopyInto copy_meta)"
  using deep_copier_field [OF deep_copier_pair [OF assms
      deep_copier_pair [OF spec.deep_copier_axioms status.deep_copier_axioms]],
    of "\<lambda>v. (rq_ObjectMeta v, rq_Spec v, rq_Status v)"
       "\<lambda>v p. v\<lparr>rq_ObjectMeta := fst p, rq_Spec := fst (snd p), rq_Status := snd (snd p)\<rparr>"
       "\<lambda>v q. \<lparr>rq_TypeMeta = rq_TypeMeta v, rq_ObjectMeta = fst q, rq_Spec = fst (snd q), rq_Status = snd (snd q)\<rparr>"]
  by (simp add: request_ok_def [abs_def] request_foot_def [abs_def] request_view_def [abs_def]
      Request_DeepCopyInto_def [abs_def] copy_pair_def Let_def case_prod_beta)

lemma deep_copier_request_list:
  assumes "deep_copier mok mfoot mview copy_meta" and "deep_copier lok lfoot lview copy_list_meta"
  shows "deep_copier (list_obj_ok mok lok) (list_obj_foot mfoot lfoot) (list_obj_view mview lview)
    (List_DeepCopyInto copy_meta copy_list_meta)"
  using deep_copier_field [OF deep_copier_pair [OF assms(2)
      deep_copier_each [OF deep_copier_request [OF assms(1)], of request_array RequestCell]],
    of "\<lambda>v. (ls_ListMeta v, ls_Items v)" "\<lambda>v p. v\<lparr>ls_ListMeta := fst p, ls_Items := snd p\<rparr>"
       "\<lambda>v q. \<lparr>ls_TypeMeta = ls_TypeMeta v, ls_ListMeta = fst q, ls_Items = snd q\<rparr>"]
  by (simp add: list_obj_ok_def [abs_def] list_obj_foot_def [abs_def] list_obj_view_def [abs_def]
      List_DeepCopyInto_def [abs_def] copy_pair_def Let_def case_prod_beta)

text \<open>The configuration.\<close>

definition plugins_ok where
  "plugins_ok h v \<longleftrightarrow> slice_ok string_array h (ps_Enabled (pl_Validate v)) \<and>
     slice_ok string_array h (ps_Disabled (pl_Validate v))"

definition plugins_foot where
  "plugins_foot v = slice_foot (ps_Enabled (pl_Validate v)) \<union> slice_foot (ps_Disabled (pl_Validate v))"

definition plugins_view :: "('m, 'x) heap \<Rightarrow> slice PluginsStruct \<Rightarrow> string list option PluginsStruct" where
  "plugins_view h v = \<lparr>pl_Validate = \<lparr>ps_Enabled = slice_view string_array h (ps_Enabled (pl_Validate v)),
     ps_Disabled = slice_view string_array h (ps_Disabled (pl_Validate v))\<rparr>\<rparr>"

interpretation plugins: deep_copier plugins_ok "\<lambda>h. plugins_foot" plugins_view Plugins_DeepCopyInto
  using deep_copier_field [OF deep_copier_pair [OF deep_copier_slice [of string_array StringCell]
      deep_copier_slice [of string_array StringCell]],
    of "\<lambda>v. (ps_Enabled (pl_Validate v), ps_Disabled (pl_Validate v))"
       "\<lambda>v p. v\<lparr>pl_Validate := (pl_Validate v)\<lparr>ps_Enabled := fst p, ps_Disabled := snd p\<rparr>\<rparr>"
       "\<lambda>v q. \<lparr>pl_Validate = \<lparr>ps_Enabled = fst q, ps_Disabled = snd q\<rparr>\<rparr>"]
  by (simp add: plugins_ok_def [abs_def] plugins_foot_def [abs_def] plugins_view_def [abs_def]
      Plugins_DeepCopyInto_def [abs_def] PluginSet_DeepCopyInto_def copy_pair_def Let_def case_prod_beta)

definition queue_view :: "('m, 'x) heap \<Rightarrow> queue_obj \<Rightarrow> string list option QueueStruct" where
  "queue_view h v = \<lparr>qs_SchedulerName = qs_SchedulerName v, qs_Weight = qs_Weight v,
     qs_MaxSize = qs_MaxSize v, qs_Plugins = plugins_view h (qs_Plugins v)\<rparr>"

interpretation queue: deep_copier "\<lambda>h v. plugins_ok h (qs_Plugins v)" "\<lambda>h v. plugins_foot (qs_Plugins v)"
    queue_view Queue_DeepCopyInto
  using deep_copier_field [OF plugins.deep_copier_axioms, of qs_Plugins "\<lambda>v p. v\<lparr>qs_Plugins := p\<rparr>"
       "\<lambda>v q. \<lparr>qs_SchedulerName = qs_SchedulerName v, qs_Weight = qs_Weight v,
              qs_MaxSize = qs_MaxSize v, qs_Plugins = q\<rparr>"]
  by (simp add: queue_view_def [abs_def] Queue_DeepCopyInto_def [abs_def])

definition config_ok :: "('m, 'x) heap \<Rightarrow> config_obj \<Rightarrow> bool" where
  "config_ok h v \<longleftrightarrow> each_ok queue_array (\<lambda>h v. plugins_ok h (qs_Plugins v)) h (cs_Queues v) \<and>
     plugins_ok h (cs_Plugins v)"

definition config_foot :: "('m, 'x) heap \<Rightarrow> config_obj \<Rightarrow> addr set" where
  "config_foot h v = each_foot queue_array (\<lambda>h v. plugins_foot (qs_Plugins v)) h (cs_Queues v) \<union>
     plugins_foot (cs_Plugins v)"

definition config_view ::
  "('m, 'x) heap \<Rightarrow> config_obj \<Rightarrow>
   (string list option, string list option QueueStruct list option) ConfigurationStruct" where
  "config_view h v = \<lparr>cs_TypeMeta = cs_TypeMeta v, cs_Queues = each_view queue_array queue_view h (cs_Queues v),
     cs_FairnessAlgorithm = cs_FairnessAlgorithm v, cs_Plugins = plugins_view h (cs_Plugins v)\<rparr>"

interpretation config: deep_copier config_ok config_foot config_view Configuration_DeepCopyInto
  using deep_copier_field [OF deep_copier_pair [OF
      deep_copier_each [OF queue.deep_copier_axioms, of queue_array QueueCell] plugins.deep_copier_axioms],
    of "\<lambda>v. (cs_Queues v, cs_Plugins v)" "\<lambda>v p. v\<lparr>cs_Queues := fst p, cs_Plugins := snd p\<rparr>"
       "\<lambda>v q. \<lparr>cs_TypeMeta = cs_TypeMeta v, cs_Queues = fst q,
              cs_FairnessAlgorithm = cs_FairnessAlgorithm v, cs_Plugins = snd q\<rparr>"]
  by (simp add: config_ok_def [abs_def] config_foot_def [abs_def] config_view_def [abs_def]
      Configuration_DeepCopyInto_def [abs_def] copy_pair_def Let_def case_prod_beta)

text \<open>The arguments of the scheduler plugin.\<close>

definition duration_ok :: "('m, 'x) heap \<Rightarrow> addr option \<Rightarrow> bool" where
  "duration_ok h p = (case p of None \<Rightarrow> True | Some a \<Rightarrow> a < length h \<and> duration_target (h ! a) \<noteq> None)"

definition args_view :: "('m, 'x) heap \<Rightarrow> addr option BinderArgsStruct \<Rightarrow> int option BinderArgsStruct" where
  "args_view h v = \<lparr>ba_TypeMeta = ba_TypeMeta v,
     ba_Timeout = map_option (\<lambda>a. duration_of (h ! a)) (ba_Timeout v)\<rparr>"

lemma deep_copier_duration:
  "deep_copier duration_ok (\<lambda>h. set_option) (\<lambda>h. map_option (\<lambda>a. duration_of (h ! a))) copy_duration"
  by unfold_locales (auto simp: duration_ok_def copy_duration_def split: option.splits)

interpretation args: deep_copier "\<lambda>h v. duration_ok h (ba_Timeout v)" "\<lambda>h v. set_option (ba_Timeout v)"
    args_view BinderArgs_DeepCopyInto
  using deep_copier_field [OF deep_copier_duration, of ba_Timeout "\<lambda>v p. v\<lparr>ba_Timeout := p\<rparr>"
       "\<lambda>v q. \<lparr>ba_TypeMeta = ba_TypeMeta v, ba_Timeout = q\<rparr>"]
  by (simp add: args_view_def [abs_def] BinderArgs_DeepCopyInto_def [abs_def])

section \<open>Properties\<close>

text \<open>
  C31: a \<open>DeepCopy\<close> of a \<open>PlacementRequestList\<close> shows the same list of requests as the original (nil
  slices stay nil), copying leaves the original as it was, and the two share nothing: whatever is
  written to any array reachable from the copy, at any depth, the original still shows the old
  value, and conversely. The metadata copiers of apimachinery are assumed to be deep copiers.
\<close>

theorem request_list_copy_isolated:
  assumes "deep_copier mok mfoot mview copy_meta" and "deep_copier lok lfoot lview copy_list_meta"
    and "list_obj_ok mok lok h v" and "List_DeepCopy copy_meta copy_list_meta (Some v) h = (p, h')"
  shows "\<exists>v'. p = Some v' \<and> list_obj_view mview lview h' v' = list_obj_view mview lview h v \<and>
    list_obj_view mview lview h' v = list_obj_view mview lview h v \<and>
    (\<forall>a\<in>list_obj_foot mfoot lfoot h' v'. \<forall>c.
       list_obj_view mview lview (h'[a := c]) v = list_obj_view mview lview h v) \<and>
    (\<forall>a\<in>list_obj_foot mfoot lfoot h' v. \<forall>c.
       list_obj_view mview lview (h'[a := c]) v' = list_obj_view mview lview h v)"
  using deep_copier.new_copy_isolated [OF deep_copier_request_list [OF assms(1,2)] assms(3)] assms(4)
  unfolding List_DeepCopy_def .

text \<open>
  An instance: metadata that is a slice of owner references in an array of its own, and list
  metadata that is a resource version. The store holds the array of one request with two bindings.
\<close>

fun meta_array :: "('m, 'e list) cell \<Rightarrow> 'e list option" where
  "meta_array (MetaCell xs) = Some xs" | "meta_array _ = None"

definition sample_binding :: "string \<Rightarrow> Binding" where
  "sample_binding pod = \<lparr>PodName = pod, PodUID = ''uid'', NodeName = ''node''\<rparr>"

definition sample_list_heap :: "(slice, string list) heap" where
  "sample_list_heap =
     [MetaCell [''owner''], BindingCell [sample_binding ''a'', sample_binding ''b''],
      RequestCell [\<lparr>rq_TypeMeta = (''PlacementRequest'', ''v1alpha1''), rq_ObjectMeta = Slice 0 0 1,
        rq_Spec = \<lparr>sp_Policy = ''Lenient'', sp_Priority = 0, sp_SchedulerName = ''s'', sp_Bindings = Slice 1 0 2\<rparr>,
        rq_Status = \<lparr>ss_Result = '''', ss_Reason = '''', ss_Message = '''', ss_Bindings = NilSlice\<rparr>\<rparr>]]"

definition sample_list :: "(slice, string) list_obj" where
  "sample_list = \<lparr>ls_TypeMeta = (''PlacementRequestList'', ''v1alpha1''), ls_ListMeta = ''7'', ls_Items = Slice 2 0 1\<rparr>"

abbreviation copy_owner_slice :: "slice \<Rightarrow> (slice, string list) heap \<Rightarrow> slice \<times> (slice, string list) heap" where
  "copy_owner_slice \<equiv> make_copy meta_array MetaCell"

abbreviation copy_version :: "string \<Rightarrow> (slice, string list) heap \<Rightarrow> string \<times> (slice, string list) heap" where
  "copy_version \<equiv> \<lambda>v h. (v, h)"

interpretation owners: deep_copier "slice_ok meta_array" "\<lambda>h. slice_foot" "slice_view meta_array"
    "make_copy meta_array MetaCell"
  by (rule deep_copier_slice) simp

lemma sample_list_ok: "list_obj_ok (slice_ok meta_array) (\<lambda>h v. True) sample_list_heap sample_list"
  by (simp add: list_obj_ok_def each_ok_def list_ok_def request_ok_def sample_list_def sample_list_heap_def)

theorem request_list_copy_isolated_witness:
  "\<exists>p h' v'. List_DeepCopy copy_owner_slice copy_version (Some sample_list) sample_list_heap = (p, h') \<and>
     p = Some v' \<and>
     list_obj_view (slice_view meta_array) (\<lambda>h v. v) h' v' =
       list_obj_view (slice_view meta_array) (\<lambda>h v. v) sample_list_heap sample_list"
proof -
  obtain p h' where c: "List_DeepCopy copy_owner_slice copy_version (Some sample_list) sample_list_heap = (p, h')"
    by fastforce
  show ?thesis
    using request_list_copy_isolated [OF owners.deep_copier_axioms deep_copier_plain sample_list_ok c] c by blast
qed

text \<open>
  The same for a configuration: its \<open>DeepCopy\<close> shows the same queues and plugin sets, and the
  two share no array, neither that of the queues nor those of any queue's plugins.
\<close>

theorem config_copy_isolated:
  assumes "config_ok h v" and "Configuration_DeepCopy (Some v) h = (p, h')"
  shows "\<exists>v'. p = Some v' \<and> config_view h' v' = config_view h v \<and> config_view h' v = config_view h v \<and>
    (\<forall>a\<in>config_foot h' v'. \<forall>c. config_view (h'[a := c]) v = config_view h v) \<and>
    (\<forall>a\<in>config_foot h' v. \<forall>c. config_view (h'[a := c]) v' = config_view h v)"
  using config.new_copy_isolated [OF assms(1)] assms(2) unfolding Configuration_DeepCopy_def .

definition sample_config_heap :: "(unit, unit) heap" where
  "sample_config_heap =
     [StringCell [''NodeName'', ''Taints''],
      QueueCell [\<lparr>qs_SchedulerName = ''s'', qs_Weight = 2, qs_MaxSize = 5,
        qs_Plugins = \<lparr>pl_Validate = \<lparr>ps_Enabled = Slice 0 1 1, ps_Disabled = NilSlice\<rparr>\<rparr>\<rparr>]]"

definition sample_config_obj :: config_obj where
  "sample_config_obj = \<lparr>cs_TypeMeta = (''Configuration'', ''v1alpha1''), cs_Queues = Slice 1 0 1,
     cs_FairnessAlgorithm = ''RoundRobin'',
     cs_Plugins = \<lparr>pl_Validate = \<lparr>ps_Enabled = Slice 0 0 2, ps_Disabled = NilSlice\<rparr>\<rparr>\<rparr>"

theorem config_copy_isolated_witness:
  "\<exists>p h' v'. Configuration_DeepCopy (Some sample_config_obj) sample_config_heap = (p, h') \<and> p = Some v' \<and>
     config_view h' v' = config_view sample_config_heap sample_config_obj"
proof -
  have ok: "config_ok sample_config_heap sample_config_obj"
    by (simp add: config_ok_def each_ok_def list_ok_def plugins_ok_def sample_config_obj_def sample_config_heap_def)
  obtain p h' where c: "Configuration_DeepCopy (Some sample_config_obj) sample_config_heap = (p, h')"
    by fastforce
  show ?thesis using config_copy_isolated [OF ok c] c by blast
qed

end
