(* ===== verification/Fake_Clientset.thy ===== *)
theory Fake_Clientset
  imports Scheme_Registration Deep_Copy
begin

text \<open>
  The fake clientset for tests (\<open>pkg/generated/clientset/versioned/fake\<close> and \<open>typed/kombiner/v1alpha1/fake\<close>).
  The object tracker and \<open>testing.Fake\<close> are client-go's: a record \<open>testing_lib\<close> of functions on a state
  \<open>'s\<close>, with trackers named by \<open>'o\<close> and fakes by \<open>'f\<close>. A panic is \<open>None\<close>. The lemmas show that
  \<open>NewSimpleClientset\<close> gives a clientset exactly if the tracker accepts all objects, in their order, and
  that the watches of the clientset are watches of that tracker. Lists of requests and their items are
  over the store of \<open>Deep_Copy\<close>.
\<close>

section \<open>Definitions\<close>

datatype 'l action = WatchActionImpl "string \<times> string \<times> string" string 'l | OtherAction "string \<times> string \<times> string" string

fun GetResource :: "'l action \<Rightarrow> string \<times> string \<times> string" where
  "GetResource (WatchActionImpl gvr ns opts) = gvr"
| "GetResource (OtherAction gvr ns) = gvr"

fun GetNamespace :: "'l action \<Rightarrow> string" where
  "GetNamespace (WatchActionImpl gvr ns opts) = ns"
| "GetNamespace (OtherAction gvr ns) = ns"

text \<open>A watch reaction answers whether it handled the action, the watch and an error.\<close>

type_synonym ('l, 'i, 's) watch_reaction = "'l action \<Rightarrow> 's \<Rightarrow> (bool \<times> 'i option \<times> go_error option) \<times> 's"

record ('o, 'f, 'x, 'l, 'i, 'r, 's) testing_lib =
  NewObjectTracker :: "'s \<Rightarrow> 'o \<times> 's"
  NewFake :: "'s \<Rightarrow> 'f \<times> 's"
  tracker_Add :: "'o \<Rightarrow> 'x \<Rightarrow> 's \<Rightarrow> go_error option \<times> 's"
  tracker_Watch :: "'o \<Rightarrow> string \<times> string \<times> string \<Rightarrow> string \<Rightarrow> 'l \<Rightarrow> 's \<Rightarrow> (go_error + 'i) \<times> 's"
  ObjectReaction :: "'o \<Rightarrow> 'r"
  AddReactor :: "'f \<Rightarrow> string \<Rightarrow> string \<Rightarrow> 'r \<Rightarrow> 's \<Rightarrow> 's"
  AddWatchReactor :: "'f \<Rightarrow> string \<Rightarrow> ('l, 'i, 's) watch_reaction \<Rightarrow> 's \<Rightarrow> 's"
  zero_ListOptions :: 'l

text \<open>The embedded \<open>Fake\<close> is shared with the discovery client and the group client by its address.\<close>

record 'f FakeDiscovery =
  fd_Fake :: 'f

record ('o, 'f) FakeClientset =
  fk_Fake :: 'f
  fk_discovery :: "'f FakeDiscovery"
  fk_tracker :: 'o

fun add_objects :: "('o, 'f, 'x, 'l, 'i, 'r, 's) testing_lib \<Rightarrow> 'o \<Rightarrow> 'x list \<Rightarrow> 's \<Rightarrow> 's option" where
  "add_objects lib o1 [] s = Some s"
| "add_objects lib o1 (obj # objs) s =
     (case tracker_Add lib o1 obj s of
        (Some err, s1) \<Rightarrow> None
      | (None, s1) \<Rightarrow> add_objects lib o1 objs s1)"

definition watch_tracker :: "('o, 'f, 'x, 'l, 'i, 'r, 's) testing_lib \<Rightarrow> 'o \<Rightarrow> ('l, 'i, 's) watch_reaction" where
  "watch_tracker lib o1 a s =
     (let opts = (case a of WatchActionImpl _ _ ListOptions \<Rightarrow> ListOptions | OtherAction _ _ \<Rightarrow> zero_ListOptions lib);
          gvr = GetResource a;
          ns = GetNamespace a
      in case tracker_Watch lib o1 gvr ns opts s of
           (Inl err, s1) \<Rightarrow> ((False, None, Some err), s1)
         | (Inr watch, s1) \<Rightarrow> ((True, Some watch, None), s1))"

definition NewSimpleClientset ::
  "('o, 'f, 'x, 'l, 'i, 'r, 's) testing_lib \<Rightarrow> 'x list \<Rightarrow> 's \<Rightarrow> (('o, 'f) FakeClientset \<times> 's) option" where
  "NewSimpleClientset lib objs s =
     (case NewObjectTracker lib s of (o1, s1) \<Rightarrow>
        do { s2 \<leftarrow> add_objects lib o1 objs s1;
             (case NewFake lib s2 of (f, s3) \<Rightarrow>
                let cs = \<lparr>fk_Fake = f, fk_discovery = \<lparr>fd_Fake = f\<rparr>, fk_tracker = o1\<rparr>;
                    s4 = AddReactor lib f ''*'' ''*'' (ObjectReaction lib o1) s3;
                    s5 = AddWatchReactor lib f ''*'' (watch_tracker lib o1) s4
                in Some (cs, s5)) })"

definition fake_Discovery :: "('o, 'f) FakeClientset \<Rightarrow> 'f FakeDiscovery" where
  "fake_Discovery c = fk_discovery c"

definition Tracker :: "('o, 'f) FakeClientset \<Rightarrow> 'o" where
  "Tracker c = fk_tracker c"

record 'f FakeKombinerV1alpha1 =
  fkv_Fake :: 'f

definition fake_KombinerV1alpha1 :: "('o, 'f) FakeClientset \<Rightarrow> 'f FakeKombinerV1alpha1" where
  "fake_KombinerV1alpha1 c = \<lparr>fkv_Fake = fk_Fake c\<rparr>"

text \<open>
  The generic fake client of \<open>gentype\<close> is represented by what it is given: the fake, the namespace, the
  resource, the kind and five functions. A function that changes the list behind a pointer returns the
  changed list. \<open>gentype_lib\<close> has the two functions of \<open>gentype\<close> that these functions call, on slices of
  pointers \<open>'q\<close>, and the zero metadata of apimachinery.
\<close>

record ('m, 'l, 'x, 'q) gentype_lib =
  ToPointerSlice :: "slice \<Rightarrow> ('m, 'x) heap \<Rightarrow> 'q \<times> ('m, 'x) heap"
  FromPointerSlice :: "'q \<Rightarrow> ('m, 'x) heap \<Rightarrow> slice \<times> ('m, 'x) heap"
  zero_ObjectMeta :: 'm
  zero_ListMeta :: 'l

record ('f, 'm, 'l, 'x, 'q) fakePlacementRequests =
  fp_Fake :: 'f
  fp_namespace :: string
  fp_resource :: "string \<times> string \<times> string"
  fp_kind :: "string \<times> string \<times> string"
  fp_newObject :: "'m request_obj"
  fp_newList :: "('m, 'l) list_obj"
  fp_copyListMeta :: "('m, 'l) list_obj \<Rightarrow> ('m, 'l) list_obj \<Rightarrow> ('m, 'l) list_obj"
  fp_getItems :: "('m, 'l) list_obj \<Rightarrow> ('m, 'x) heap \<Rightarrow> 'q \<times> ('m, 'x) heap"
  fp_setItems :: "('m, 'l) list_obj \<Rightarrow> 'q \<Rightarrow> ('m, 'x) heap \<Rightarrow> ('m, 'l) list_obj \<times> ('m, 'x) heap"

definition WithKind :: "string \<times> string \<Rightarrow> string \<Rightarrow> string \<times> string \<times> string" where
  "WithKind gv kind = (fst gv, snd gv, kind)"

definition zero_request :: "'m \<Rightarrow> 'm request_obj" where
  "zero_request meta =
     \<lparr>rq_TypeMeta = ('''', ''''), rq_ObjectMeta = meta,
      rq_Spec = \<lparr>sp_Policy = '''', sp_Priority = 0, sp_SchedulerName = '''', sp_Bindings = NilSlice\<rparr>,
      rq_Status = \<lparr>ss_Result = '''', ss_Reason = '''', ss_Message = '''', ss_Bindings = NilSlice\<rparr>\<rparr>"

definition newFakePlacementRequests ::
  "('m, 'l, 'x, 'q) gentype_lib \<Rightarrow> 'f FakeKombinerV1alpha1 \<Rightarrow> string \<Rightarrow> ('f, 'm, 'l, 'x, 'q) fakePlacementRequests" where
  "newFakePlacementRequests gt fake ns =
     \<lparr>fp_Fake = fkv_Fake fake, fp_namespace = ns, fp_resource = WithResource SchemeGroupVersion ''placementrequests'',
      fp_kind = WithKind SchemeGroupVersion ''PlacementRequest'',
      fp_newObject = zero_request (zero_ObjectMeta gt),
      fp_newList = \<lparr>ls_TypeMeta = ('''', ''''), ls_ListMeta = zero_ListMeta gt, ls_Items = NilSlice\<rparr>,
      fp_copyListMeta = (\<lambda>dst src. dst\<lparr>ls_ListMeta := ls_ListMeta src\<rparr>),
      fp_getItems = (\<lambda>list h. ToPointerSlice gt (ls_Items list) h),
      fp_setItems = (\<lambda>list items h. let (s, h1) = FromPointerSlice gt items h in (list\<lparr>ls_Items := s\<rparr>, h1))\<rparr>"

definition fake_PlacementRequests ::
  "('m, 'l, 'x, 'q) gentype_lib \<Rightarrow> 'f FakeKombinerV1alpha1 \<Rightarrow> string \<Rightarrow> ('f, 'm, 'l, 'x, 'q) fakePlacementRequests" where
  "fake_PlacementRequests gt c ns = newFakePlacementRequests gt c ns"

text \<open>\<open>RESTClient\<close> returns a nil pointer inside a non-nil interface.\<close>

datatype rest_interface = NilInterface | RESTClientPtr "nat option"

definition fake_RESTClient :: "'f FakeKombinerV1alpha1 \<Rightarrow> rest_interface" where
  "fake_RESTClient c = (let ret = None in RESTClientPtr ret)"

section \<open>The clientset and its tracker\<close>

text \<open>The states a tracker goes through while objects are added and none is refused.\<close>

lemma add_objects_append:
  "add_objects lib o1 (xs @ ys) s = do { s1 \<leftarrow> add_objects lib o1 xs s; add_objects lib o1 ys s1 }"
  by (induction xs arbitrary: s) (auto split: prod.split option.split)

lemma add_objects_None:
  "add_objects lib o1 objs s = None \<longleftrightarrow>
     (\<exists>pre obj post s1 err s2. objs = pre @ obj # post \<and> add_objects lib o1 pre s = Some s1 \<and>
        tracker_Add lib o1 obj s1 = (Some err, s2))" (is "?l \<longleftrightarrow> ?r")
proof
  show "?r \<Longrightarrow> ?l" by (auto simp: add_objects_append)
  show "?l \<Longrightarrow> ?r"
  proof (induction objs arbitrary: s)
    case Nil
    then show ?case by simp
  next
    case (Cons obj objs)
    obtain e s1 where a: "tracker_Add lib o1 obj s = (e, s1)" by fastforce
    show ?case
    proof (cases e)
      case (Some err)
      with a have "obj # objs = [] @ obj # objs \<and> add_objects lib o1 [] s = Some s \<and> tracker_Add lib o1 obj s = (Some err, s1)" by simp
      then show ?thesis by blast
    next
      case None
      with Cons.prems a have "add_objects lib o1 objs s1 = None" by simp
      from Cons.IH [OF this] obtain pre x post s2 err s3 where "objs = pre @ x # post" "add_objects lib o1 pre s1 = Some s2"
        "tracker_Add lib o1 x s2 = (Some err, s3)" by blast
      with a None have "obj # objs = (obj # pre) @ x # post \<and> add_objects lib o1 (obj # pre) s = Some s2 \<and>
          tracker_Add lib o1 x s2 = (Some err, s3)" by simp
      then show ?thesis by blast
    qed
  qed
qed

text \<open>
  \<open>NewSimpleClientset\<close> panics exactly if the tracker refuses an object after those before it were
  added; otherwise the discovery client, the group client and the resource client of the clientset all
  work on its own fake, whose watches are those of its tracker.
\<close>

lemma NewSimpleClientset_spec:
  "NewSimpleClientset lib objs s =
     (let o1 = fst (NewObjectTracker lib s) in
      case add_objects lib o1 objs (snd (NewObjectTracker lib s)) of
        None \<Rightarrow> None
      | Some s2 \<Rightarrow>
          let f = fst (NewFake lib s2) in
          Some (\<lparr>fk_Fake = f, fk_discovery = \<lparr>fd_Fake = f\<rparr>, fk_tracker = o1\<rparr>,
            AddWatchReactor lib f ''*'' (watch_tracker lib o1)
              (AddReactor lib f ''*'' ''*'' (ObjectReaction lib o1) (snd (NewFake lib s2)))))"
  by (simp add: NewSimpleClientset_def Let_def split: prod.split option.split)

lemma fake_clients_share:
  assumes "NewSimpleClientset lib objs s = Some (cs, s')"
  shows "fd_Fake (fake_Discovery cs) = fk_Fake cs \<and> fp_Fake (fake_PlacementRequests gt (fake_KombinerV1alpha1 cs) ns) = fk_Fake cs \<and>
     fp_resource (fake_PlacementRequests gt (fake_KombinerV1alpha1 cs) ns) = (''kombiner.x-k8s.io'', ''v1alpha1'', ''placementrequests'') \<and>
     fp_kind (fake_PlacementRequests gt (fake_KombinerV1alpha1 cs) ns) = (''kombiner.x-k8s.io'', ''v1alpha1'', ''PlacementRequest'') \<and>
     Tracker cs = fst (NewObjectTracker lib s) \<and>
     (\<nexists>pre obj post s1 err s2. objs = pre @ obj # post \<and>
        add_objects lib (Tracker cs) pre (snd (NewObjectTracker lib s)) = Some s1 \<and>
        tracker_Add lib (Tracker cs) obj s1 = (Some err, s2))"
proof -
  let ?o = "fst (NewObjectTracker lib s)" and ?s = "snd (NewObjectTracker lib s)"
  have ok: "add_objects lib ?o objs ?s \<noteq> None"
    using assms by (auto simp: NewSimpleClientset_spec Let_def split: option.splits)
  have cs: "fd_Fake (fk_discovery cs) = fk_Fake cs" "fk_tracker cs = ?o"
    using assms by (auto simp: NewSimpleClientset_spec Let_def split: option.splits)
  with ok show ?thesis
    unfolding add_objects_None
    by (simp add: fake_Discovery_def fake_PlacementRequests_def newFakePlacementRequests_def fake_KombinerV1alpha1_def Tracker_def
      WithResource_def WithKind_def SchemeGroupVersion_def GroupName_def)
qed

text \<open>
  The list a client is given: \<open>FakeClientWithList.List\<close> makes a new list, copies the metadata of the
  tracker's list, and sets the items it selected among those of that list. Where the slice of pointers
  denotes the items and the slice made of pointers their targets, nothing is changed on the way.
\<close>

lemma fake_list_rebuilt:
  assumes "\<And>s h. slice_ok request_array h s \<Longrightarrow>
      pointees (snd (ToPointerSlice gt s h)) (fst (ToPointerSlice gt s h)) = elems request_array h s"
    and "\<And>q h. elems request_array (snd (FromPointerSlice gt q h)) (fst (FromPointerSlice gt q h)) = pointees h q"
    and "slice_ok request_array h (ls_Items src)" and c: "c = fake_PlacementRequests gt k ns"
    and "fp_getItems c src h = (items, h1)" and "fp_setItems c (fp_copyListMeta c (fp_newList c) src) items h1 = (out, h2)"
  shows "ls_ListMeta out = ls_ListMeta src \<and> elems request_array h2 (ls_Items out) = elems request_array h (ls_Items src)"
  using assms(1) [OF assms(3)] assms(2) [of items h1] assms(5,6)
  by (auto simp: c fake_PlacementRequests_def newFakePlacementRequests_def Let_def split: prod.splits)

end
