(* ===== verification/Round_Robin_Shares.thy ===== *)
theory Round_Robin_Shares
  imports Round_Robin_Fairness
begin

text \<open>
  The weighted shares of the round robin reader (\<open>pkg/queue/round-robin.go\<close>): how many bindings each
  queue gets from the beginning of a round to its end, while every queue has something to read and
  requests keep arriving. The counters of the reader are shown to be the numbers of bindings really
  read, and with the exact maxima of the constructor these become the shares the weights ask for.
\<close>

section \<open>The reads of a round\<close>

text \<open>
  \<open>bound a\<close> counts the bindings read from the queue at address \<open>a\<close>. A read belongs to the round if some
  queue is still open before it; between the reads anything may happen to the queues that keeps the
  invariant of the store. All requests have at most \<open>b\<close> bindings.
\<close>

inductive round_reads ::
  "nat \<Rightarrow> RoundRobinReader \<Rightarrow> 'h qstore \<Rightarrow> (nat \<Rightarrow> nat) \<Rightarrow> RoundRobinReader \<Rightarrow> 'h qstore \<Rightarrow> bool"
  for b r st where
  start: "round_reads b r st (\<lambda>_. 0) r st"
| pushes: "round_reads b r st bound r1 st1 \<Longrightarrow> rr_ready r1 st2 \<Longrightarrow> round_reads b r st bound r1 st2"
| read: "round_reads b r st bound r1 st1 \<Longrightarrow> \<not> rr_next r1 < 0 \<Longrightarrow> \<forall>c \<in> set (rr_configs r1). waiting st1 c \<Longrightarrow>
    rr_step r1 st1 = Some (Some pr, r2, st2) \<Longrightarrow> length (Bindings (Spec pr)) \<le> b \<Longrightarrow>
    Len (st2 ! a) \<noteq> Len (st1 ! a) \<Longrightarrow>
    round_reads b r st (bound(a := bound a + length (Bindings (Spec pr)))) r2 st2"

text \<open>The counter of every queue is the number of bindings read from it.\<close>

definition counts :: "(nat \<Rightarrow> nat) \<Rightarrow> RoundRobinReader \<Rightarrow> bool" where
  "counts bound r \<longleftrightarrow>
     (\<forall>i < length (rr_configs r). \<forall>a. QueueRef (rr_configs r ! i) = Some a \<longrightarrow> BindingsRead (rr_configs r ! i) = int (bound a))"

definition distinct_queues :: "RoundRobinReader \<Rightarrow> bool" where
  "distinct_queues r \<longleftrightarrow> distinct (map QueueRef (rr_configs r))"

lemma counts_charge:
  assumes "counts bound r" and "distinct_queues r" and "k < length (rr_configs r)"
    and "QueueRef (rr_configs r ! k) = Some a"
  shows "counts (bound(a := bound a + n)) (rr_charge r k (BindingsRead (rr_configs r ! k) + int n))"
proof -
  have "QueueRef (rr_configs r ! i) \<noteq> Some a" if "i < length (rr_configs r)" "i \<noteq> k" for i
    using assms(2-4) that nth_eq_iff_index_eq [of "map QueueRef (rr_configs r)" i k]
    by (auto simp: distinct_queues_def)
  then show ?thesis using assms by (auto simp: counts_def rr_charge_nth)
qed

lemma same_queues_distinct: "same_queues r r' \<Longrightarrow> distinct_queues r' = distinct_queues r"
  unfolding distinct_queues_def same_queues_def
  by (drule arg_cong [of _ _ "map fst"]) (simp add: comp_def)

text \<open>If every queue has something to read and one is open, \<open>Read\<close> pops from the first open one.\<close>

lemma rr_Read_all_waiting:
  assumes rdy: "rr_ready r st" and op: "\<not> rr_next r < 0" and w: "\<forall>c \<in> set (rr_configs r). waiting st c"
    and rd: "rr_step r st = Some (Some pr, r', st')"
  shows "\<exists>k a q'. k < length (rr_configs r) \<and> is_open (rr_configs r ! k) \<and> QueueRef (rr_configs r ! k) = Some a \<and>
     a < length st \<and> Pop (st ! a) = Some (Some pr, q') \<and> st' = st[a := q'] \<and>
     r' = rr_charge r k (wrap64 (BindingsRead (rr_configs r ! k) + int (length (Bindings (Spec pr)))))"
proof -
  have ch: "rr_chosen r = (r, nat (rr_next r))" using op by (simp add: rr_chosen_def Let_def)
  note k = rr_next_nonneg [OF op]
  have wk: "waiting st (rr_configs r ! nat (rr_next r))" using w k by simp
  then have ne: "\<not> all_empty st (addresses (rr_configs r))" using k by (auto simp: some_waiting)
  have d: "rr_Read (Suc (2 * length (rr_configs r))) r st = Done (Some pr, r', st')"
    using rd by (simp add: rr_step_Done rr_fuel_def)
  show ?thesis
    by (rule rr_Read_serve [OF rdy ch wk ne, where n = "2 * length (rr_configs r)"])
       (rule exI [of _ "nat (rr_next r)"], use d k in auto)
qed

lemma round_reads_inv:
  assumes "round_reads b r st bound r' st'" and "rr_ready r st" and "rr_bounds r" and "distinct_queues r"
    and "\<forall>c \<in> set (rr_configs r). BindingsRead c = 0" and "0 < b" and "b \<le> 2 ^ 62"
  shows "rr_ready r' st' \<and> rr_bounds r' \<and> same_queues r r' \<and> counts bound r' \<and> within_quota b r'"
  using assms(1)
proof (induction rule: round_reads.induct)
  case start
  have "counts (\<lambda>_. 0) r" using assms(5) by (simp add: counts_def)
  moreover have "within_quota b r" using assms(3,5) by (auto simp: within_quota_def rr_bounds_def)
  ultimately show ?case using assms by simp
next
  case (pushes bound r1 st1 st2)
  then show ?case by simp
next
  case (read bound r1 st1 pr r2 st2 a)
  have IH: "rr_ready r1 st1" "rr_bounds r1" "same_queues r r1" "counts bound r1" "within_quota b r1"
    using read.IH by simp_all
  from rr_Read_all_waiting [OF IH(1) read.hyps(2-4)] obtain k a' q' where
    x: "k < length (rr_configs r1)" "is_open (rr_configs r1 ! k)" "QueueRef (rr_configs r1 ! k) = Some a'"
      "st2 = st1[a' := q']" "r2 = rr_charge r1 k (wrap64 (BindingsRead (rr_configs r1 ! k) + int (length (Bindings (Spec pr)))))"
    by blast
  have "a' = a" using x(4) read.hyps(6) by (metis nth_list_update_neq)
  have size: "length (Bindings (Spec pr)) \<le> 2 ^ 62" using read.hyps(5) assms(7) by simp
  have r2: "r2 = rr_charge r1 k (BindingsRead (rr_configs r1 ! k) + int (length (Bindings (Spec pr))))"
    using x(5) charge_no_wrap [OF IH(2) x(1,2) size] by simp
  have "distinct_queues r1" using same_queues_distinct [OF IH(3)] assms(4) by simp
  then have "counts (bound(a := bound a + length (Bindings (Spec pr)))) r2"
    unfolding r2 using counts_charge [OF IH(4) _ x(1)] x(3) \<open>a' = a\<close> by simp
  moreover have "rr_bounds r2"
    unfolding r2 using rr_bounds_nth [OF IH(2) x(1)] x(1) by (intro rr_bounds_charge IH(2)) simp_all
  moreover have "within_quota b r2"
    unfolding r2 using x(1,2) read.hyps(5) by (intro within_quota_charge IH(5)) simp_all
  moreover have "same_queues r r2" unfolding r2 using x(1) by (simp add: same_queues_trans [OF IH(3)])
  moreover have "rr_ready r2 st2" using round_robin.read_law [OF IH(1)] read.hyps(4) by auto
  ultimately show ?case by blast
qed

section \<open>The shares\<close>

lemma new_reader_exact:
  assumes "cs \<noteq> []" and "weights_within (2 ^ 48 - 1) cs" and "NewRoundRobinReader oor cs = Some r"
  shows "map QueueRef (rr_configs r) = map QueueRef cs \<and> (\<forall>c \<in> set (rr_configs r). BindingsRead c = 0) \<and> rr_bounds r \<and>
     (\<forall>i < length cs. MaximumBindings (rr_configs r ! i) =
        \<lceil>of_int (10 * uint (Weight (cs ! i))) / (of_int (least_weight cs) :: rat)\<rceil>)"
proof -
  have lt: "(2 :: int) ^ 48 - 1 < 2 ^ 63" by simp
  have w58: "weights_within (2 ^ 58) cs" using assms(2) by (fastforce simp: weights_within_def)
  have b: "0 < least_weight cs \<and> least_weight cs \<le> uint (Weight (cs ! i)) \<and> uint (Weight (cs ! i)) < 2 ^ 48"
    if "i < length cs" for i
    using assms(2) nth_mem [OF that] least_weight_bounds [OF assms(1,2) nth_mem [OF that]]
    unfolding weights_within_def by force
  have "MaximumBindings (rr_configs r ! i) = \<lceil>of_int (10 * uint (Weight (cs ! i))) / (of_int (least_weight cs) :: rat)\<rceil>"
    if "i < length cs" for i
    using max_bindings_exact [of "word_of_int (least_weight cs)" "Weight (cs ! i)" oor, unfolded uint_least_weight [OF assms(1,2) lt]]
      b [OF that] that NewRoundRobinReader_eq [OF assms(1,2) lt, of oor] assms(3) by auto
  moreover have "\<forall>c \<in> set (rr_configs r). BindingsRead c = 0"
    using NewRoundRobinReader_eq [OF assms(1,2) lt, of oor] assms(3) by auto
  ultimately show ?thesis using new_reader_fields [OF assms(1) w58, of oor] assms(3) by auto
qed

text \<open>
  C8: the queues share the bindings in the proportion of their weights. Take a reader that
  \<open>NewRoundRobinReader\<close> built from validated weights below \<open>2 ^ 48\<close>, and any sequence of reads, with
  requests arriving in between, in which every queue always has something to read. Up to the end of the
  round the bindings read from a queue stay below the ceiling of ten times its weight over the least
  weight, plus the size of one request; once the round is over they have reached that ceiling.
\<close>

theorem round_robin_weighted_shares:
  assumes "cs \<noteq> []" and "weights_within (2 ^ 48 - 1) cs" and "refs_ok st cs" and "distinct (map QueueRef cs)"
    and "NewRoundRobinReader oor cs = Some r" and "0 < b" and "b \<le> 2 ^ 62"
    and "round_reads b r st bound r' st'" and "i < length cs" and "QueueRef (cs ! i) = Some a"
  shows "int (bound a) < \<lceil>of_int (10 * uint (Weight (cs ! i))) / (of_int (least_weight cs) :: rat)\<rceil> + int b \<and>
     (rr_next r' < 0 \<longrightarrow> \<lceil>of_int (10 * uint (Weight (cs ! i))) / (of_int (least_weight cs) :: rat)\<rceil> \<le> int (bound a))"
proof -
  note n = new_reader_exact [OF assms(1,2,5)]
  have "QueueRef ` set (rr_configs r) = QueueRef ` set cs" using n by (metis list.set_map)
  then have rdy: "rr_ready r st" using assms(3) n by (simp add: rr_ready_def refs_ok_image rr_bounds_def)
  have "distinct_queues r" using n assms(4) by (simp add: distinct_queues_def)
  from round_reads_inv [OF assms(8) rdy _ this _ assms(6,7)] n have
    inv: "rr_bounds r'" "same_queues r r'" "counts bound r'" "within_quota b r'" by blast+
  have len: "i < length (rr_configs r)" using n assms(9) by (metis length_map)
  then have i: "i < length (rr_configs r')" using same_queues_length [OF inv(2)] by simp
  have "QueueRef (rr_configs r ! i) = Some a" using n len assms(9,10) by (metis nth_map)
  then have "BindingsRead (rr_configs r' ! i) = int (bound a)"
    using inv(3) i same_queues_nth(1) [OF inv(2) len] by (simp add: counts_def)
  moreover have "MaximumBindings (rr_configs r' ! i) = \<lceil>of_int (10 * uint (Weight (cs ! i))) / (of_int (least_weight cs) :: rat)\<rceil>"
    using n assms(9) same_queues_nth(2) [OF inv(2) len] by simp
  moreover have "BindingsRead (rr_configs r' ! i) < MaximumBindings (rr_configs r' ! i) + int b"
    using inv(4) nth_mem [OF i] by (simp add: within_quota_def)
  moreover have "MaximumBindings (rr_configs r' ! i) \<le> BindingsRead (rr_configs r' ! i)" if "rr_next r' < 0"
    using that nth_mem [OF i] by (auto simp: rr_next_neg linorder_not_less)
  ultimately show ?thesis by simp
qed

text \<open>A whole round: ten bindings from the queue of weight 1, then thirty from that of weight 3.\<close>

definition light_request :: PlacementRequest where
  "light_request = sample_request ''light'' 10 (replicate 10 ''p'')"

definition heavy_request :: PlacementRequest where
  "heavy_request = sample_request ''heavy'' 20 (replicate 30 ''q'')"

definition round_store :: "unit qstore" where
  "round_store = [sample_queue [light_request], sample_queue [heavy_request]]"

lemma round_request_sizes:
  "length (Bindings (Spec light_request)) = 10" "length (Bindings (Spec heavy_request)) = 30"
  by (simp_all add: light_request_def heavy_request_def sample_request_def)

lemma sample_reader_new: "NewRoundRobinReader (\<lambda>_. 0) sample_configs = Some sample_reader"
proof -
  have w: "weights_within (2 ^ 48 - 1) sample_configs" "sample_configs \<noteq> []" "least_weight sample_configs = 1"
    by (simp_all add: weights_within_def least_weight_def sample_configs_def)
  have "max_bindings (\<lambda>_. 0) 1 1 = 10" "max_bindings (\<lambda>_. 0) 3 1 = 30"
    using max_bindings_exact [of 1 1 "\<lambda>_. 0"] max_bindings_exact [of 1 3 "\<lambda>_. 0"] by simp_all
  then show ?thesis using NewRoundRobinReader_eq [OF w(2,1), of "\<lambda>_. 0"] w(3)
    by (simp add: sample_reader_def sample_configs_def QueueConfig.defs sample_config_def)
qed

lemma round_steps:
  "rr_step sample_reader round_store = Some (Some light_request, rr_charge sample_reader 0 10, round_store[0 := sample_queue []])"
  "rr_step (rr_charge sample_reader 0 10) round_store =
     Some (Some heavy_request, rr_charge (rr_charge sample_reader 0 10) 1 30, round_store[1 := sample_queue []])"
  by code_simp+

lemma round_store_ready: "rr_ready sample_reader round_store" "refs_ok round_store sample_configs"
  by (simp_all add: rr_ready_def refs_ok_def store_inv_def round_store_def sample_reader_def sample_configs_def QueueConfig.defs sample_config_def)

lemma sample_round:
  "round_reads 30 sample_reader round_store ((\<lambda>_. 0)(0 := 10, 1 := 30))
     (rr_charge (rr_charge sample_reader 0 10) 1 30) (round_store[1 := sample_queue []])"
proof -
  have w: "\<forall>c \<in> set (rr_configs sample_reader). waiting round_store c"
    "\<forall>c \<in> set (rr_configs (rr_charge sample_reader 0 10)). waiting round_store c"
    by (simp_all add: sample_reader_def rr_charge_def waiting_def round_store_def QueueConfig.defs sample_config_def)
  have o: "\<not> rr_next sample_reader < 0" "\<not> rr_next (rr_charge sample_reader 0 10) < 0" by code_simp+
  have l: "Len (round_store[0 := sample_queue []] ! 0) \<noteq> Len (round_store ! 0)"
    "Len (round_store[1 := sample_queue []] ! 1) \<noteq> Len (round_store ! 1)" by (simp_all add: round_store_def)
  have rdy: "rr_ready (rr_charge sample_reader 0 10) round_store"
    using round_store_ready(1) by (simp add: sample_reader_def)
  have "round_reads 30 sample_reader round_store ((\<lambda>_. 0)(0 := 10)) (rr_charge sample_reader 0 10) (round_store[0 := sample_queue []])"
    using round_reads.read [OF round_reads.start o(1) w(1) round_steps(1) _ l(1), of 30] by (simp add: round_request_sizes)
  from round_reads.read [OF round_reads.pushes [OF this rdy] o(2) w(2) round_steps(2) _ l(2)]
  show ?thesis by (simp add: round_request_sizes)
qed

theorem round_robin_weighted_shares_witness:
  "rr_next (rr_charge (rr_charge sample_reader 0 10) 1 30) < 0 \<and>
   \<lceil>of_int (10 * uint (Weight (sample_configs ! 1))) / (of_int (least_weight sample_configs) :: rat)\<rceil> = 30 \<and>
   \<lceil>of_int (10 * uint (Weight (sample_configs ! 1))) / (of_int (least_weight sample_configs) :: rat)\<rceil> \<le>
     int (((\<lambda>_. 0)(0 := 10, 1 := 30)) (1 :: nat))"
proof -
  have w: "weights_within (2 ^ 48 - 1) sample_configs" "sample_configs \<noteq> []" "least_weight sample_configs = 1"
    "distinct (map QueueRef sample_configs)"
    by (simp_all add: weights_within_def least_weight_def sample_configs_def)
  have "rr_next (rr_charge (rr_charge sample_reader 0 10) 1 30) < 0" by code_simp
  with round_robin_weighted_shares [OF w(2,1) round_store_ready(2) w(4) sample_reader_new _ _ sample_round, of 1 1] w(3)
  show ?thesis by (simp add: sample_configs_def)
qed

end
