(* ===== verification/Unit_Tests.thy ===== *)
theory Unit_Tests
  imports Placement_Results Config_Validation Bind_Plugin Round_Robin_Fairness
begin

text \<open>
  The unit tests of the repository, run on the model: \<open>round-robin_test.go\<close>, \<open>placement-request_test.go\<close>,
  \<open>placementrequests_test.go\<close>, \<open>validation_test.go\<close> and the part of \<open>bind_plugin_test.go\<close> that looks at the request
  created. Each lemma is one case of a test's table, with its inputs and the outcome the test expects,
  evaluated by the kernel; what the tests say of the code holds of the definitions here. In the tests of
  the round robin reader all creation times are equal, so the order they expect is that of
  \<open>container/heap\<close> on equal priorities.
\<close>

section \<open>Test data\<close>

definition test_pr :: "Time \<Rightarrow> string list \<Rightarrow> PlacementRequest" where
  "test_pr t pods =
     \<lparr>Name = '''', Namespace = '''', CreationTimestamp = t, DeletionTimestamp = None, OwnerReferences = [],
      Spec = \<lparr>Policy = '''', spec_Priority = 0, SchedulerName = '''',
        Bindings = map (\<lambda>p. \<lparr>PodName = p, PodUID = '''', NodeName = ''''\<rparr>) pods\<rparr>,
      Status = \<lparr>Result = '''', Reason = '''', Message = '''', st_Bindings = []\<rparr>\<rparr>"

fun push_all :: "PlacementRequest list \<Rightarrow> 'h PlacementRequestQueue \<times> nat \<Rightarrow> ('h PlacementRequestQueue \<times> nat) option" where
  "push_all [] x = Some x"
| "push_all (pr # prs) (q, n) = do { x \<leftarrow> Push (\<lambda>_. Suc) q n (Some pr); push_all prs x }"

fun test_store :: "PlacementRequest list list \<Rightarrow> unit qstore option" where
  "test_store [] = Some []"
| "test_store (prs # prss) =
     do { q \<leftarrow> NewPlacementRequestQueue; (q', _) \<leftarrow> push_all prs (q, 0); st \<leftarrow> test_store prss; Some (q' # st) }"

fun test_configs :: "nat \<Rightarrow> (string \<times> int \<times> int) list \<Rightarrow> ExtendedQueueConfig list" where
  "test_configs a [] = []"
| "test_configs a ((name, m, n) # cs) =
     \<lparr>q_SchedulerName = name, Weight = 0, MaxSize = 0, q_Plugins = \<lparr>plug_Validate = \<lparr>Enabled = [], Disabled = []\<rparr>\<rparr>,
      QueueRef = Some a, MaximumBindings = m, BindingsRead = n\<rparr> # test_configs (Suc a) cs"

text \<open>The pods of the requests in the order the reader returns them until nil.\<close>

definition test_read :: "(string \<times> int \<times> int) list \<Rightarrow> string list list \<Rightarrow> string list option" where
  "test_read cs podss =
     do { st \<leftarrow> test_store (map (map (\<lambda>p. test_pr zero_time [p])) podss);
          (prs, _, _) \<leftarrow> read_loop rr_step 10 \<lparr>rr_configs = test_configs 0 cs\<rparr> st;
          Some (concat (map (map PodName \<circ> Bindings \<circ> Spec) prs)) }"

section \<open>TestRoundRobinReader\<close>

lemma rr_read_first_queue_empty:
  "test_read [(''A'', 2, 0), (''B'', 2, 0)] [[], [''pod3'', ''pod4'']] = Some [''pod3'', ''pod4'']"
  by code_simp

lemma rr_read_all_empty: "test_read [(''A'', 2, 0), (''B'', 2, 0)] [[], []] = Some []"
  by code_simp

lemma rr_read_all_requests:
  "test_read [(''A'', 2, 0), (''B'', 2, 0)] [[''pod1'', ''pod2''], [''pod3'', ''pod4'']] = Some [''pod1'', ''pod2'', ''pod3'', ''pod4'']"
  by code_simp

lemma rr_read_max_multiple_times:
  "test_read [(''A'', 1, 0), (''B'', 1, 0), (''C'', 1, 0)] [[''pod1'', ''pod2''], [''pod3'', ''pod4''], [''pod5'', ''pod6'']] =
     Some [''pod1'', ''pod3'', ''pod5'', ''pod2'', ''pod4'', ''pod6'']"
  by code_simp

lemma rr_read_second_queue_then_reset:
  "test_read [(''A'', 2, 2), (''B'', 2, 0)] [[''pod1'', ''pod2''], [''pod3'', ''pod4'']] = Some [''pod3'', ''pod4'', ''pod1'', ''pod2'']"
  by code_simp

lemma rr_next_cases:
  "map (\<lambda>cs. rr_next \<lparr>rr_configs = test_configs 0 cs\<rparr>)
     [[(''A'', 2, 0), (''B'', 3, 1)], [(''A'', 2, 2), (''B'', 3, 1)], [(''A'', 2, 8), (''B'', 3, 1)], [(''A'', 1, 1), (''B'', 2, 2)], []] =
   [0, 1, 1, - 1, - 1]"
  by code_simp

lemma new_reader_maxima:
  "map_option (map MaximumBindings \<circ> rr_configs) (NewRoundRobinReader oor
     (map (\<lambda>(name, w). (sample_config name w 0)) [(''A'', 2), (''B'', 3), (''C'', 4), (''D'', 2), (''E'', 13)])) =
   Some [10, 15, 20, 10, 65]"
proof -
  let ?cs = "map (\<lambda>(name, w). (sample_config name w 0)) [(''A'', 2), (''B'', 3), (''C'', 4), (''D'', 2), (''E'', 13)]"
  have w: "?cs \<noteq> []" "weights_within (2 ^ 48 - 1) ?cs" "least_weight ?cs = 2"
    by (simp_all add: weights_within_def least_weight_def)
  have "max_bindings oor 2 2 = 10" "max_bindings oor 3 2 = 15" "max_bindings oor 4 2 = 20" "max_bindings oor 13 2 = 65"
    using max_bindings_exact [of 2 2 oor] max_bindings_exact [of 2 3 oor] max_bindings_exact [of 2 4 oor] max_bindings_exact [of 2 13 oor]
    by simp_all
  then show ?thesis using NewRoundRobinReader_eq [OF w(1,2), of oor] w(3) by simp
qed

section \<open>TestPlacementRequestQueue\<close>

fun pop_times :: "nat \<Rightarrow> 'h PlacementRequestQueue \<Rightarrow> Time list option" where
  "pop_times 0 q = Some []"
| "pop_times (Suc n) q =
     do { (pr, q') \<leftarrow> Pop q; pr' \<leftarrow> pr; ts \<leftarrow> pop_times n q'; Some (CreationTimestamp pr' # ts) }"

lemma queue_pops_oldest_first:
  "do { q \<leftarrow> NewPlacementRequestQueue :: unit PlacementRequestQueue option;
        (q', _) \<leftarrow> push_all (map (\<lambda>i. test_pr (Time (1000000 - 3600 * int i) 0) []) [0..<10]) (q, 0);
        pop_times 10 q' } =
   Some (map (\<lambda>i. Time (1000000 - 3600 * int i) 0) (rev [0..<10]))"
  by code_simp

lemma push_handler_called:
  "do { q \<leftarrow> NewPlacementRequestQueue; (_, counter) \<leftarrow> push_all (replicate 10 (test_pr zero_time [])) (AddPushHandler q (), 0); Some counter } =
   Some 10"
  by code_simp

section \<open>TestAssessResult\<close>

definition assessed :: "string list \<Rightarrow> string \<times> string" where
  "assessed results = AssessResult ((test_pr zero_time [])\<lparr>Status :=
     \<lparr>Result = [], Reason = [], Message = [],
      st_Bindings = map (\<lambda>r. \<lparr>br_Binding = \<lparr>PodName = [], PodUID = [], NodeName = []\<rparr>, br_Result = r, br_Reason = [], br_Message = []\<rparr>) results\<rparr>\<rparr>)"

lemma assess_result_cases:
  "assessed [PlacementRequestResultSuccess, PlacementRequestResultSuccess] = (PlacementRequestResultSuccess, ''All bindings succeeded'')"
  "assessed [PlacementRequestResultFailure, PlacementRequestResultFailure] = (PlacementRequestResultFailure, ''All bindings failed'')"
  "assessed [PlacementRequestResultSuccess, PlacementRequestResultFailure] =
     (PlacementRequestResultPartialSuccess, ''1 of 2 bindings succeeded'')"
  "assessed [] = (PlacementRequestResultRejected, ''No bindings'')"
  by code_simp+

section \<open>TestValidate\<close>

definition validated :: "(string \<times> uint \<times> uint) list \<Rightarrow> field_error list" where
  "validated qs = validate \<lparr>Queues = map (\<lambda>(name, w, m). \<lparr>q_SchedulerName = name, Weight = w, MaxSize = m,
       q_Plugins = \<lparr>plug_Validate = \<lparr>Enabled = [], Disabled = []\<rparr>\<rparr>\<rparr>) qs,
     cfg_FairnessAlgorithm = [], cfg_Plugins = \<lparr>plug_Validate = \<lparr>Enabled = [], Disabled = []\<rparr>\<rparr>\<rparr>"

lemma validate_cases:
  "validated [] = [Required (NewPath ''queues'') nonEmptyErrStr]"
  "validated [([], 1, 1)] = [Required (Child (Index (NewPath ''queues'') 0) ''schedulerName'') nonEmptyErrStr]"
  "validated [(''default-scheduler'', 0, 1)] = [Invalid (Child (Index (NewPath ''queues'') 0) ''weight'') 0 mustBePositiveIntegerErrStr]"
  "validated [(''default-scheduler'', 1, 0)] = [Invalid (Child (Index (NewPath ''queues'') 0) ''maxSize'') 0 mustBePositiveIntegerErrStr]"
  by code_simp+

section \<open>TestBindPluginSchedulerNameSet\<close>

definition test_pod :: "string \<Rightarrow> string \<Rightarrow> CorePod" where
  "test_pod uid scheduler = \<lparr>cp_Name = ''foo'', cp_Namespace = ''ns'', cp_UID = uid, cp_SchedulerName = scheduler\<rparr>"

lemma bind_scheduler_name_cases:
  "SchedulerName (Spec (bind_request (test_pod ''8d9f8c5e-13a3-4b7d-8d7e-4c23b19c1f74'' []) ''testNode'')) = ''default-scheduler''"
  "SchedulerName (Spec (bind_request (test_pod ''8d9f8c5e-13a3-4b7d-8d7e-4c23b19c1f74'' ''custom-scheduler'') ''testNode'')) = ''custom-scheduler''"
  by code_simp+

lemma bind_missing_uid:
  "Bind error_status poll p (test_pod [] ''custom-scheduler'') ''testNode'' w = Some (Some ''pod ns/foo is missing its UID'', w)"
  by (simp add: Bind_def test_pod_def error_status_def)

end
