(* ===== verification/Spec2Isabelle.thy ===== *)
theory Spec2Isabelle
  imports E2E_Scenarios System_Fairness Fake_Clientset Round_Robin_Shares Unit_Tests
begin

text \<open>
  A verification development of kombiner, a Kubernetes controller that arbitrates between schedulers.

  \<^bold>\<open>The program.\<close> A scheduler that wants to bind pods does not bind them: its plugin
  (\<open>pkg/scheduler\<close>) creates a \<open>PlacementRequest\<close> and polls for its result. The controller
  (\<open>pkg/controller\<close>) is told of new requests by an informer and puts each one into the queue of its
  scheduler (\<open>pkg/queue\<close>). A goroutine, the queue iterator, reads the queues with a reader that shares
  the service among them, weighted round robin or weighted random, and hands the requests one by one
  to the controller's loop, which binds the pods and writes the outcome into the status
  (\<open>pkg/placementrequests\<close>). Queues, weights and the algorithm come from a configuration file
  (\<open>pkg/config\<close>, \<open>cmd/kombiner-controller\<close>). API types, their deep copies, the clientset and the
  informer factory (\<open>pkg/apis\<close>, \<open>pkg/generated\<close>) connect it to the cluster.

  \<^bold>\<open>The theories\<close>, from the bottom up, with the code they model:

  \<^item> \<open>Kombiner_Base\<close>: conventions for Go (panics as \<open>None\<close>, 64-bit integers, printing) and shared lemmas.
  \<^item> \<open>Api_Types\<close>: the structs and constants of \<open>types.go\<close>, times with their order.
  \<^item> \<open>Priority_Queue\<close>: \<open>prioritized.go\<close> and \<open>container/heap\<close> on it, over slices with index panics. The locale
    \<open>min_queue\<close> is the contract of a priority queue; heap and request queue are interpretations.
  \<^item> \<open>Placement_Queue\<close>: \<open>placement-request.go\<close>, the queue of one scheduler: oldest request first.
  \<^item> \<open>Queue_Config\<close>: \<open>config.go\<close> of the queues, queues as references into a store.
  \<^item> \<open>Config_Validation\<close>: loading, validating and printing the configuration.
  \<^item> \<open>Reader_Interface\<close>, \<open>Samples\<close>: the locale \<open>queue_reader\<close>, what a \<open>Read\<close> may return, and that
    reading until nil delivers everything; example data.
  \<^item> \<open>Uniform_Reader\<close>: \<open>uniform.go\<close> for an arbitrary sequence of random numbers, with the exact share of
    each queue.
  \<^item> \<open>Go_Float64\<close>, \<open>Round_Robin_Reader\<close>, \<open>Round_Robin_Fairness\<close>, \<open>Round_Robin_Shares\<close>: \<open>round-robin.go\<close> with
    its float64 quotas; termination, quotas, no starvation, the bindings each queue gets in a round while
    requests keep arriving, and the weights for which \<open>Read\<close> does not return.
  \<^item> \<open>Reader_Programs\<close>: the same \<open>Read\<close> methods cut at their queue operations, equal to them when run
    without interruption, and safe when pushes come between two operations.
  \<^item> \<open>Queue_Iterator\<close>, \<open>Iterator_Progress\<close>: \<open>iterator.go\<close> as a step relation interleaved with pushes and
    the cancellation; no lost wake-up, conservation of requests, safety, and termination of its own
    steps (the locale \<open>reader_program\<close> is the interface to the readers).
  \<^item> \<open>Iterator_Fairness\<close>: how many requests go before the turn of a waiting queue when the reads are
    interrupted by pushes (the locale \<open>fair_reader\<close> extends \<open>reader_program\<close>).
  \<^item> \<open>Placement_Results\<close>: the table of results in the status (the locale \<open>result_table\<close>) and its
    assessment.
  \<^item> \<open>Controller\<close>, \<open>Controller_Run\<close>, \<open>Controller_Progress\<close>: \<open>controller.go\<close> and \<open>options.go\<close>. The API server
    is a record of functions on a state, \<open>logged\<close> records the calls; \<open>Run\<close> and the iterator are composed
    into one step relation, whose own steps end.
  \<^item> \<open>Arbiter\<close>, \<open>Controller_System\<close>: the abstract specification, an arbiter that refuses a request or keeps
    it for its scheduler, takes the oldest request of some scheduler and hands it over; and the whole
    controller, with the informer's events, the iterator and \<open>Run\<close> interleaved, as a refinement of it.
    Every request is answered, and stays in the queue of its scheduler until it is.
  \<^item> \<open>System_Fairness\<close>: with round robin no scheduler can keep another one waiting. A bound on the requests
    of others that go first, in every interleaving; and in a fair infinite run, with events coming all
    the time, every admitted request is processed.
  \<^item> \<open>Bind_Plugin\<close>: the scheduler's plugin, its arguments and defaults; client, framework and poll are
    parameters.
  \<^item> \<open>Deep_Copy\<close>: the generated deep copies over an explicit store (the locale \<open>deep_copier\<close>).
  \<^item> \<open>Informer_Factory\<close>, \<open>Request_Informer\<close>, \<open>Clientset\<close>: the informer factory as a state machine of its
    locked methods (the locale \<open>informer_provider\<close>), the typed informer and lister, the clientset.
  \<^item> \<open>Scheme_Registration\<close>: the three \<open>register.go\<close>, \<open>conversion.go\<close>, the schemes of the clientsets and the
    \<open>init\<close> of the controller; which types each scheme knows, and what the registered conversions carry
    over from the versioned arguments of the plugin to the internal ones and back.
  \<^item> \<open>Fake_Clientset\<close>: the clientset for tests on client-go's object tracker.
  \<^item> \<open>Controller_Main\<close>, \<open>Binaries\<close>: \<open>main\<close> of the controller binary up to \<open>Run\<close>, its flag and the order
    in which its parts are set up; the scheduler binary, and how the timeout in the scheduler's
    configuration reaches the plugin.
  \<^item> \<open>E2E_Scenarios\<close>: the scenarios of \<open>e2e/invalid_requests.go\<close>, composed with the controller's handler and
    an API server that stores what is written, while time passes between the polls.
  \<^item> \<open>Unit_Tests\<close>: the table-driven unit tests of the repository, evaluated on the definitions.
  \<^item> This theory: properties that span the configuration, the plugin and the controller.

  \<^bold>\<open>State and effects.\<close> A struct is a record, a panic is \<open>None\<close>, an error is a value. Queues live in a
  store (a list) and are named by their index, as the Go code shares them by pointer. A method under a
  mutex is one atomic step; a push, which calls its handlers while it holds the mutex, is split into
  the insertion, the calls of the handlers and the release. A send on the unbuffered \<open>Next\<close> is one step
  of both goroutines; the channel \<open>resume\<close> has capacity two and drops further signals.

  \<^bold>\<open>Fuel and bounds.\<close> \<open>RoundRobinReader.Read\<close> calls itself and takes fuel; \<open>2 k + 1\<close> for \<open>k\<close> queues is
  enough (\<open>rr_Read_terminates\<close>), and for the weights of \<open>round_robin_extreme_weights_diverge\<close> none is. The
  exact shares need weights below \<open>2 ^ 48\<close>, where the two roundings do not move the ceiling. The theorems
  on the iterator and the whole controller need weights its reader can work with (\<open>factory_weights\<close>, on
  the configuration \<open>config_weights\<close>): for round robin at least one queue (\<open>no_queues_panic\<close>) and weights up
  to \<open>2 ^ 58\<close>, where the quota fits an \<open>int\<close>; for the uniform reader a sum of weights that fits an \<open>int\<close>.
  The program does not check the size of the weights. The fairness of the whole system needs requests with at least one binding, which the
  schema of the API enforces, and at most \<open>2 ^ 62\<close>. The order of requests is that of their creation times for
  the years 1678 to 2262, where \<open>UnixNano\<close> does not wrap around. Loops over slices and \<open>container/heap\<close>
  are total functions.

  \<^bold>\<open>What is assumed.\<close> Code outside the repository is a parameter. Hypotheses on it are its documented
  behaviour: \<open>status_contract\<close> and \<open>poll_contract\<close>, \<open>poll_immediate\<close> for the scheduler framework and the
  poll, \<open>scheme_contract\<close> for \<open>runtime.Scheme\<close> and its builders, \<open>flag_contract\<close> and \<open>klog_contract\<close> for the
  command line, \<open>eventually_contract\<close> for gomega, \<open>fair_run\<close> for the scheduling of goroutines (a
  push ends, and a goroutine that can run again and again does so), \<open>keeps_requests\<close> and \<open>server_contract\<close>
  for what the API server stores, \<open>cluster_moves\<close> and \<open>working_cluster\<close> for the cluster the end-to-end
  scenarios run on (nobody but the handler writes a refused request, and it is delivered in time), and
  that apimachinery's copies of metadata are deep copies.

  \<^bold>\<open>Not modelled.\<close> Logging; the methods of the resource clients and of the lister, which are client-go's
  generic ones; kube-scheduler's command; contexts other than the cancellation of \<open>Run\<close> and the
  deadlines given to polls; the interface declarations of the generated code, which have no behaviour.
\<close>

section \<open>From the configuration file to the controller\<close>

text \<open>
  C38: what is left to check after the configuration file was validated. Of a configuration that passed
  the validation of \<open>pkg/config\<close>, \<open>New\<close> makes a controller exactly if no scheduler name is configured
  twice and the fairness algorithm is known (the informer accepting the handlers).
\<close>

theorem loaded_config_accepted:
  assumes "validate cfg = []" and "\<forall>h. informer h = None"
  shows "(\<exists>c st'. New informer api opts cfg [] = Some (Inr c, st')) \<longleftrightarrow>
     distinct (map q_SchedulerName (Queues cfg)) \<and> cfg_FairnessAlgorithm cfg \<in> {'''', RoundRobin, Uniform}"
proof -
  have "config_accepted cfg \<longleftrightarrow>
      distinct (map q_SchedulerName (Queues cfg)) \<and> cfg_FairnessAlgorithm cfg \<in> {'''', RoundRobin, Uniform}"
    using assms(1) by (simp add: validate_Nil config_accepted_def algorithm_ok_def)
  moreover have "AddEventHandlers informer api qs = None" for qs
    using assms(2) by (simp add: AddEventHandlers_def)
  ultimately show ?thesis
    using New_outcome [of "[]" cfg informer api opts] by (auto simp: store_inv_def split: if_splits)
qed

theorem loaded_config_accepted_witness:
  "\<exists>c st'. New (\<lambda>_. None) sample_api [] sample_configuration [] = Some (Inr c, st')"
  using loaded_config_accepted [of sample_configuration "\<lambda>_. None" sample_api "[]"]
  by (simp add: validate_Nil sample_configuration_def queue_ok_def)

section \<open>From the scheduler's plugin through the controller and back\<close>

text \<open>
  \<open>wait.PollUntilContextCancel\<close> with \<open>immediate\<close> set tries the condition before anything else.
\<close>

definition poll_immediate :: "'w poller \<Rightarrow> bool" where
  "poll_immediate poll \<longleftrightarrow> (\<forall>t i cond s s'. cond s = ((True, None), s') \<longrightarrow> poll t i True cond s = (None, s'))"

lemma ScheduleOne_bind_request:
  assumes "ScheduleOne (logged api) (Some (bind_request pod node)) (w, []) = Some (e, pr, w', calls)"
  shows "Result (Status pr) =
      (if (\<exists>p. GotPod (cp_Namespace pod) (cp_Name pod) (Inr p) \<in> set calls \<and> pod_NodeName p = node \<and> node \<noteq> '''') \<or>
          BoundPod \<lparr>vb_Namespace = cp_Namespace pod, vb_Name = cp_Name pod, vb_UID = cp_UID pod, vb_Kind = ''Node'',
            vb_Target = node\<rparr> None \<in> set calls
       then PlacementRequestResultSuccess else PlacementRequestResultFailure)"
proof -
  let ?pr = "bind_request pod node" and ?b = "\<lparr>PodName = cp_Name pod, PodUID = cp_UID pod, NodeName = node\<rparr>"
  have sched: "schedulable ?pr" and bs: "Bindings (Spec ?pr) = [?b]" and ns: "Namespace ?pr = cp_Namespace pod"
    and nil: "st_Bindings (Status ?pr) = []"
    by (simp_all add: bind_request_def schedulable_def Validate_def result_defs policy_defs)
  from ScheduleOne_run [OF sched, of api w] assms bs ns obtain evs v u where
    ev: "binding_events (cp_Namespace pod) ?b evs v" and calls: "calls = evs @ [UpdatedStatus pr u]" and
    pr: "pr = set_status (status_table.set_all ?pr [(?b, v)]) (fst (AssessResult pr)) (snd (AssessResult pr))"
    by (auto simp: length_Suc_conv)
  have st: "st_Bindings (Status pr) = [result_of (?b, v)]"
    using set_all_fresh [OF nil, of "[(?b, v)]"] pr by (metis (no_types, lifting) list.simps(8,9) distinct_singleton set_status_fields(3))
  have "Result (Status pr) = fst (AssessResult pr)" using pr by (metis set_status_fields(1))
  also have "\<dots> = fst v"
    using binding_events_result [OF ev] st by (auto simp: AssessResult_def count_successes_eq Let_def result_of_def result_defs)
  finally have r: "Result (Status pr) = fst v" .
  show ?thesis using ev unfolding r calls binding_events_def
    by (elim disjE exE conjE) (auto simp: result_defs split: option.splits if_splits)
qed

text \<open>
  C7: the plugin tells the scheduler what the controller did. When the controller has processed the
  request that \<open>Bind\<close> created for a pod, and the API server shows the plugin the status the controller
  wrote, \<open>Bind\<close> returns a success exactly if the API server accepted the binding of the pod to the
  node, or had reported the pod as being on that node already.
\<close>

theorem plugin_reports_controller_result:
  assumes "status_contract is_success fw" and "poll_immediate poll"
    and "cp_UID pod \<noteq> ''''" and "NewBindPlugin new_client args = Inr p"
    and "create_request (bp_client p) (bind_request pod node) v = (None, v1)"
    and "ScheduleOne (logged api) (Some (bind_request pod node)) (w, []) = Some (e, pr, w', calls)"
    and "cl_Get (bp_client p) (cp_Namespace pod) (cp_UID pod) v1 = ((pr, None), v2)"
  shows "\<exists>s. Bind fw poll p pod node v = Some (s, v2) \<and>
    (is_success s \<longleftrightarrow>
      (\<exists>q. GotPod (cp_Namespace pod) (cp_Name pod) (Inr q) \<in> set calls \<and> pod_NodeName q = node \<and> node \<noteq> '''') \<or>
      BoundPod \<lparr>vb_Namespace = cp_Namespace pod, vb_Name = cp_Name pod, vb_UID = cp_UID pod, vb_Kind = ''Node'',
        vb_Target = node\<rparr> None \<in> set calls)"
proof -
  let ?cond = "poll_condition (bp_client p) (cp_Namespace pod) (cp_UID pod)"
  note r = ScheduleOne_bind_request [OF assms(6)]
  then have known: "Result (Status pr) \<noteq> PlacementRequestResultUnknown" by (auto simp: result_defs)
  have "?cond (v1, bind_request pod node) = ((True, None), v2, pr)"
    using assms(7) known by (simp add: poll_condition_def)
  then have poll: "poll t Second True ?cond (v1, bind_request pod node) = (None, v2, pr)" for t
    using assms(2) by (simp add: poll_immediate_def)
  obtain t where t: "Timeout (bp_config p) = Some t"
    using assms(4) by (auto simp: NewBindPlugin_def SetDefaults_def split: plugin_args.splits sum.splits if_splits)
  have "Bind fw poll p pod node v =
      Some (if Result (Status pr) \<noteq> PlacementRequestResultSuccess then AsStatus fw (Some (Message (Status pr)))
            else NewStatus_Success fw (Message (Status pr)), v2)"
    using assms(3,5) poll t by (simp add: Bind_def Let_def)
  then show ?thesis using assms(1) r by (auto simp: status_contract_def result_defs)
qed

text \<open>
  A cluster in which the pod can be bound, a poll that tries once, and a client through which the
  status written by the controller is read back.
\<close>

definition try_once :: "'w poller" where
  "try_once t i im cond s =
     (case cond s of
        ((_, Some err), s') \<Rightarrow> (Some err, s')
      | ((True, None), s') \<Rightarrow> (None, s')
      | ((False, None), s') \<Rightarrow> (Some ''context deadline exceeded'', s'))"

lemma try_once_immediate: "poll_immediate try_once"
  by (simp add: poll_immediate_def try_once_def)

theorem plugin_reports_controller_result_witness:
  "\<exists>pr p. (\<exists>e w' calls. ScheduleOne (logged sample_api) (Some (bind_request sample_pod ''n'')) ((), []) =
       Some (e, pr, w', calls)) \<and>
     NewBindPlugin (\<lambda>_. Inr (pending_client pr)) (BinderArgs \<lparr>args_TypeMeta = ('''', ''''), Timeout = None\<rparr>) = Inr p \<and>
     Bind error_status try_once p sample_pod ''n'' () = Some (None, ())"
proof -
  have sched: "schedulable (bind_request sample_pod ''n'')"
    by (simp add: bind_request_def schedulable_def Validate_def result_defs policy_defs)
  obtain e pr w' calls where
    s: "ScheduleOne (logged sample_api) (Some (bind_request sample_pod ''n'')) ((), []) = Some (e, pr, w', calls)"
    using ScheduleOne_run [OF sched, of sample_api "()"] by blast
  then have bound: "BoundPod \<lparr>vb_Namespace = cp_Namespace sample_pod, vb_Name = cp_Name sample_pod,
      vb_UID = cp_UID sample_pod, vb_Kind = ''Node'', vb_Target = ''n''\<rparr> None \<in> set calls"
    using sched
    by (auto simp: ScheduleOne_def schedulable_def bind_request_def sample_pod_def schedule_binding_def logged_def
        sample_api_def Let_def split: prod.splits)
  obtain p where p: "NewBindPlugin (\<lambda>_. Inr (pending_client pr)) (BinderArgs \<lparr>args_TypeMeta = ('''', ''''), Timeout = None\<rparr>) = Inr p"
    and c: "bp_client p = pending_client pr"
    by (simp add: NewBindPlugin_def)
  have 1: "cp_UID sample_pod \<noteq> ''''" by (simp add: sample_pod_def)
  have 2: "create_request (bp_client p) (bind_request sample_pod ''n'') () = (None, ())"
    by (simp add: c create_request_def pending_client_def)
  have 3: "cl_Get (bp_client p) (cp_Namespace sample_pod) (cp_UID sample_pod) () = ((pr, None), ())"
    by (simp add: c pending_client_def)
  obtain st where "Bind error_status try_once p sample_pod ''n'' () = Some (st, ())" and "st = None"
    using plugin_reports_controller_result [OF status_contract_error_status try_once_immediate 1 p 2 s 3] bound by auto
  then show ?thesis using s p by blast
qed

end
